(* ===== verification/Prelude.thy ===== *)
theory Prelude
  imports Complex_Main "HOL-Library.Word"
begin

text \<open>
  What every component shares: the faults a C program can run into, made values of a sum
  type; folding a fallible step over a list (the shape of every \<open>for\<close> loop here that can
  fail); the bits of a byte in the order the code reads them; Hamming distance and
  parity of lists of bits.  A \<open>char\<close> array that only ever holds \<open>'0'\<close> and \<open>'1'\<close> (the bit
  strings of \<open>dataCompression.c\<close> and \<open>abft.c\<close>) is a \<open>bool list\<close>, \<open>'1'\<close> being \<open>True\<close>.
\<close>

named_theorems bits_simps \<open>lengths and positions in bit strings\<close>

section \<open>Faults\<close>

text \<open>
  \<open>ExitFailure\<close>: the code prints a message and calls \<open>exit(1)\<close>.  \<open>OutOfBounds\<close>: a write or
  read past the end of an allocated array.  \<open>Uninitialised\<close>: a read of an element of a
  \<open>malloc\<close>ed array that nothing has written.  \<open>DivByZero\<close>: an integer division by zero.
  \<open>BadShift\<close>: a shift by the width of the type or more.  \<open>NoReturn\<close>: a non-void function falls off
  its end.  \<open>Deadlock\<close>: a blocking receive that
  no send matches.  \<open>CountMismatch\<close>: the ranks call a collective operation with different counts.  Those from \<open>OutOfBounds\<close> to \<open>NoReturn\<close> are undefined behaviour in C; in
  the model they stop the run.
\<close>

datatype fault = ExitFailure | OutOfBounds | Uninitialised | DivByZero | BadShift | NoReturn | Deadlock | CountMismatch

type_synonym 'a result = "fault + 'a"

fun res_fold :: "('s \<Rightarrow> 'a \<Rightarrow> 's result) \<Rightarrow> 's \<Rightarrow> 'a list \<Rightarrow> 's result" where
  "res_fold f s [] = Inr s"
| "res_fold f s (x # xs) =
     (case f s x of Inl e \<Rightarrow> Inl e | Inr s' \<Rightarrow> res_fold f s' xs)"

fun res_bind :: "'a result \<Rightarrow> ('a \<Rightarrow> 'b result) \<Rightarrow> 'b result" where
  "res_bind (Inl e) f = Inl e"
| "res_bind (Inr a) f = f a"

lemma res_fold_append:
  "res_fold f s (xs @ ys) = res_bind (res_fold f s xs) (\<lambda>s'. res_fold f s' ys)"
  by (induction xs arbitrary: s) (auto split: sum.splits)

lemma res_fold_append_Inr [simp]:
  "res_fold f s xs = Inr s' \<Longrightarrow> res_fold f s (xs @ ys) = res_fold f s' ys"
  by (simp add: res_fold_append)

text \<open>Evaluation does not enter the continuation before the result is there.\<close>

lemma res_bind_case [code_unfold]: "res_bind r f = (case r of Inl e \<Rightarrow> Inl e | Inr x \<Rightarrow> f x)"
  by (cases r) simp_all

lemma res_bind_Inr_iff: "res_bind r f = Inr b \<longleftrightarrow> (\<exists>a. r = Inr a \<and> f a = Inr b)"
  by (cases r) auto

lemma res_fold_abs:
  assumes "\<And>s x. f (h s) x = res_bind (g s x) (\<lambda>t. Inr (h t))"
  shows "res_fold f (h s) xs = res_bind (res_fold g s xs) (\<lambda>t. Inr (h t))"
proof (induction xs arbitrary: s)
  case (Cons x xs)
  show ?case by (cases "g s x") (simp_all add: assms Cons.IH)
qed simp

lemma res_fold_total:
  assumes "\<And>s x. f s x = Inr (g s x)"
  shows "res_fold f s = (\<lambda>xs. Inr (foldl g s xs))"
proof
  show "res_fold f s xs = Inr (foldl g s xs)" for xs
    using assms by (induction xs arbitrary: s) simp_all
qed

lemma res_fold_single: "res_fold f s [x] = f s x"
  by (simp split: sum.split)

lemma res_bind_assoc: "res_bind (res_bind r f) g = res_bind r (\<lambda>x. res_bind (f x) g)"
  by (cases r) simp_all

text \<open>A read of an array.\<close>

definition nth_result :: "'a list \<Rightarrow> nat \<Rightarrow> 'a result" where
  "nth_result xs i = (if i < length xs then Inr (xs ! i) else Inl OutOfBounds)"

lemma nth_result_inside [simp]: "i < length xs \<Longrightarrow> nth_result xs i = Inr (xs ! i)"
  by (simp add: nth_result_def)

text \<open>A loop that appends one element per round.\<close>

lemma res_fold_collect:
  "(\<And>s x. x \<in> set xs \<Longrightarrow> f s x = Inr (s @ [g x])) \<Longrightarrow>
     res_fold f s xs = Inr (s @ map g xs)"
  by (induction xs arbitrary: s) simp_all

section \<open>Lists\<close>

text \<open>What each of \<open>n\<close> processes computes for its \<open>q\<close> indices, put together.\<close>

lemma concat_blocks: "concat (map (\<lambda>r. map f [r * q..<(r + 1) * q]) [0..<n]) = map f [0..<n * q]"
proof (induction n)
  case (Suc n)
  have "[0..<Suc n * q] = [0..<n * q] @ [n * q..<(n + 1) * q]"
    using upt_add_eq_append [of 0 "n * q" q] by (simp add: add.commute)
  then show ?case using Suc by simp
qed simp

lemma nth_concat_const:
  assumes "\<And>x. x \<in> set xs \<Longrightarrow> length x = n" and "i < n * length xs" and "0 < n"
  shows "concat xs ! i = xs ! (i div n) ! (i mod n)"
  using assms(1,2)
proof (induction xs arbitrary: i)
  case Nil
  then show ?case by simp
next
  case (Cons x xs)
  have len: "length x = n" using Cons.prems(1) by simp
  show ?case
  proof (cases "i < n")
    case True
    then show ?thesis by (simp add: nth_append len)
  next
    case False
    then have "i - n < n * length xs" using Cons.prems(2) by (simp add: algebra_simps)
    moreover have "i div n = Suc ((i - n) div n)" "i mod n = (i - n) mod n"
      using False assms(3) by (simp_all add: le_div_geq le_mod_geq)
    ultimately show ?thesis
      using Cons.IH [of "i - n"] Cons.prems(1) False by (simp add: nth_append len)
  qed
qed

lemma length_concat_const:
  "(\<And>x. x \<in> set xs \<Longrightarrow> length x = n) \<Longrightarrow> length (concat xs) = n * length xs"
  by (induction xs) simp_all

lemma concat_update_const:
  assumes "\<And>x. x \<in> set xs \<Longrightarrow> length x = n" and "i < n * length xs" and "0 < n"
  shows "(concat xs)[i := y] = concat (xs[i div n := (xs ! (i div n))[i mod n := y]])"
  using assms(1,2)
proof (induction xs arbitrary: i)
  case Nil
  then show ?case by simp
next
  case (Cons x xs)
  have len: "length x = n" using Cons.prems(1) by simp
  show ?case
  proof (cases "i < n")
    case True
    then show ?thesis by (simp add: list_update_append len)
  next
    case False
    then have "i - n < n * length xs" using Cons.prems(2) by (simp add: algebra_simps)
    moreover have "i div n = Suc ((i - n) div n)" "i mod n = (i - n) mod n"
      using False assms(3) by (simp_all add: le_div_geq le_mod_geq)
    ultimately show ?thesis
      using Cons.IH [of "i - n"] Cons.prems(1) False by (simp add: list_update_append len)
  qed
qed

lemma map_nth_upt: "n \<le> length xs \<Longrightarrow> map ((!) xs) [0..<n] = take n xs"
  by (rule nth_equalityI) simp_all

section \<open>Bytes as bits\<close>

type_synonym byte = "8 word"

text \<open>The bits of a byte, most significant first: the order of \<open>(b >> (7-j)) & 1\<close> for
  \<open>j = 0, \<dots>, 7\<close>, in which the codecs write, read and number them.\<close>

definition byte_bits :: "byte \<Rightarrow> bool list" where
  "byte_bits b = map (\<lambda>j. bit b (7 - j)) [0..<8]"

definition bytes_to_bits :: "byte list \<Rightarrow> bool list" where
  "bytes_to_bits bs = concat (map byte_bits bs)"

lemma length_byte_bits [simp, bits_simps]: "length (byte_bits b) = 8"
  by (simp add: byte_bits_def)

lemma nth_byte_bits [simp]: "j < 8 \<Longrightarrow> byte_bits b ! j = bit b (7 - j)"
  by (simp add: byte_bits_def)

lemma bytes_to_bits_simps [simp]:
  "bytes_to_bits [] = []"
  "bytes_to_bits (b # bs) = byte_bits b @ bytes_to_bits bs"
  "bytes_to_bits (xs @ ys) = bytes_to_bits xs @ bytes_to_bits ys"
  by (simp_all add: bytes_to_bits_def)

lemma length_bytes_to_bits [simp, bits_simps]: "length (bytes_to_bits bs) = 8 * length bs"
  by (induction bs) simp_all

lemma nth_bytes_to_bits:
  "i < 8 * length bs \<Longrightarrow> bytes_to_bits bs ! i = bit (bs ! (i div 8)) (7 - i mod 8)"
proof -
  assume i: "i < 8 * length bs"
  then have d: "i div 8 < length bs" by (simp add: less_mult_imp_div_less mult.commute)
  have "bytes_to_bits bs ! i = map byte_bits bs ! (i div 8) ! (i mod 8)"
    unfolding bytes_to_bits_def using i by (intro nth_concat_const) auto
  with d show ?thesis by simp
qed

lemma byte_bits_inject: "byte_bits a = byte_bits b \<Longrightarrow> a = b"
proof (rule bit_word_eqI)
  fix n
  assume eq: "byte_bits a = byte_bits b" and "n < LENGTH(8)"
  then have "n < 8" by simp
  then have "byte_bits a ! (7 - n) = bit a n" "byte_bits b ! (7 - n) = bit b n"
    by simp_all
  with eq show "bit a n = bit b n" by simp
qed

lemma bytes_to_bits_inject:
  "length as = length bs \<Longrightarrow> bytes_to_bits as = bytes_to_bits bs \<Longrightarrow> as = bs"
  by (induction as bs rule: list_induct2) (auto dest: byte_bits_inject)

section \<open>Parity and distance of bit strings\<close>

definition ones :: "bool list \<Rightarrow> nat" where
  "ones bs = sum_list (map of_bool bs)"

lemma ones_simps [simp]:
  "ones [] = 0"
  "ones (b # bs) = of_bool b + ones bs"
  "ones (xs @ ys) = ones xs + ones ys"
  by (simp_all add: ones_def)

lemma odd_ones_update:
  "i < length bs \<Longrightarrow> odd (ones (bs[i := \<not> bs ! i])) \<longleftrightarrow> even (ones bs)"
proof (induction bs arbitrary: i)
  case Nil
  then show ?case by simp
next
  case (Cons b bs)
  then show ?case by (cases i) auto
qed

definition distance :: "'a list \<Rightarrow> 'a list \<Rightarrow> nat" where
  "distance xs ys = length (filter (\<lambda>(x, y). x \<noteq> y) (zip xs ys))"

lemma distance_simps [simp]:
  "distance [] ys = 0"
  "distance xs [] = 0"
  "distance (x # xs) (y # ys) = of_bool (x \<noteq> y) + distance xs ys"
  by (simp_all add: distance_def)

lemma distance_append:
  assumes "length xs = length ys"
  shows "distance (xs @ us) (ys @ vs) = distance xs ys + distance us vs"
  using assms by (simp add: distance_def)

lemma distance_self [simp]: "distance xs xs = 0"
  by (induction xs) simp_all

lemma distance_0: "length xs = length ys \<Longrightarrow> distance xs ys = 0 \<longleftrightarrow> xs = ys"
  by (induction xs ys rule: list_induct2) auto

lemma distance_card:
  assumes "length xs = length ys"
  shows "distance xs ys = card {i. i < length xs \<and> xs ! i \<noteq> ys ! i}"
proof -
  have "{i. i < length (zip xs ys) \<and> (case zip xs ys ! i of (x, y) \<Rightarrow> x \<noteq> y)} =
      {i. i < length xs \<and> xs ! i \<noteq> ys ! i}" using assms by auto
  then show ?thesis unfolding distance_def length_filter_conv_card by simp
qed

text \<open>A word at distance \<open>n + 1\<close> is a flip of one at distance \<open>n\<close>.\<close>

lemma distance_SucE:
  assumes "length xs = length ys" and "distance xs (ys :: bool list) = Suc n"
  obtains i zs where "i < length xs" "length zs = length xs" "distance xs zs = n"
    "xs ! i = zs ! i" "ys = zs[i := \<not> zs ! i]"
proof -
  let ?D = "\<lambda>ys. {i. i < length xs \<and> xs ! i \<noteq> ys ! i}"
  have fin: "finite (?D ys)" by simp
  have "card (?D ys) = Suc n" using assms by (simp add: distance_card)
  then have "?D ys \<noteq> {}" by (metis card.empty nat.distinct(1))
  then obtain i where i: "i \<in> ?D ys" by blast
  let ?zs = "ys[i := xs ! i]"
  have "?D ?zs = ?D ys - {i}" using i assms(1) by (auto simp: nth_list_update)
  then have "card (?D ?zs) = n" using i fin \<open>card (?D ys) = Suc n\<close> by simp
  then have "distance xs ?zs = n" using assms(1) by (simp add: distance_card)
  moreover have "ys = ?zs[i := \<not> ?zs ! i]"
    using i assms(1) by (intro nth_equalityI) (auto simp: nth_list_update)
  ultimately show ?thesis using that [of i ?zs] i assms(1) by simp
qed

lemma distance_flip:
  assumes "i < length xs" and "length zs = length xs" and "xs ! i = zs ! i"
  shows "distance xs (zs[i := \<not> zs ! i]) = Suc (distance xs zs)"
proof -
  let ?D = "\<lambda>ys. {j. j < length xs \<and> xs ! j \<noteq> ys ! j}"
  have "?D (zs[i := \<not> zs ! i]) = insert i (?D zs)"
    using assms by (auto simp: nth_list_update)
  then show ?thesis using assms by (simp add: distance_card)
qed

lemma flip_flip: "i < length xs \<Longrightarrow> (xs[i := \<not> xs ! i])[i := \<not> xs[i := \<not> xs ! i] ! i] = xs"
  by simp

end
