(* ===== verification/BitBuffer.thy ===== *)
theory BitBuffer
  imports Prelude
begin

unbundle bit_operations_syntax

text \<open>
  The growing bit buffer every codec of \<open>app/src/dataCompression.c\<close> writes to:
  \<open>bit_set\<close> and \<open>add_bit_to_bytes\<close>, and the contract they offer (locale \<open>bit_sink\<close>):
  each call appends exactly one bit to the bits written so far.
\<close>

section \<open>The code\<close>

text \<open>
  The three variables the codecs pass by reference: the buffer, the number of bytes
  in it, and the position of the next bit in the last byte, counted 8 (first) down to 1.
  \<open>realloc\<close> is taken to succeed.
\<close>

record bitbuf =
  data_bits :: "byte list"
  bytes :: nat
  pos :: int

definition empty_bitbuf :: bitbuf where
  "empty_bitbuf = \<lparr>data_bits = [], bytes = 0, pos = 8\<rparr>"

definition bit_set :: "byte \<Rightarrow> int \<Rightarrow> int \<Rightarrow> byte" where
  "bit_set p_data position flag =
     (if position > 8 \<or> position < 1 \<or> (flag \<noteq> 0 \<and> flag \<noteq> 1) then p_data
      else if flag \<noteq> uint (drop_bit (nat (position - 1)) p_data AND 1)
      then p_data XOR push_bit (nat (position - 1)) 1
      else p_data)"

definition add_bit_to_bytes :: "bitbuf \<Rightarrow> int \<Rightarrow> bitbuf" where
  "add_bit_to_bytes st flag =
     (if pos st > 0 \<and> pos st < 9 then
        (let st1 = (if pos st = 8
                    then st\<lparr>bytes := bytes st + 1, data_bits := data_bits st @ [0]\<rparr> else st);
             i = bytes st1 - 1;
             st2 = st1\<lparr>data_bits := (data_bits st1)[i := bit_set (data_bits st1 ! i) (pos st1) flag],
                       pos := pos st1 - 1\<rparr>
         in if pos st2 = 0 then st2\<lparr>pos := 8\<rparr> else st2)
      else st)"

section \<open>What a bit sink promises\<close>

locale bit_sink =
  fixes put :: "'s \<Rightarrow> int \<Rightarrow> 's"
    and contents :: "'s \<Rightarrow> bool list"
    and ok :: "'s \<Rightarrow> bool"
  assumes ok_put: "ok s \<Longrightarrow> ok (put s (of_bool b))"
    and contents_put: "ok s \<Longrightarrow> contents (put s (of_bool b)) = contents s @ [b]"
begin

lemma put_list:
  "ok s \<Longrightarrow> ok (foldl put s (map of_bool bs)) \<and>
     contents (foldl put s (map of_bool bs)) = contents s @ bs"
  by (induction bs arbitrary: s) (simp_all add: ok_put contents_put)

text \<open>A loop whose body appends \<open>enc x\<close> for each element \<open>x\<close>.\<close>

lemma put_loop:
  assumes "\<And>s x. ok s \<Longrightarrow> x \<in> set xs \<Longrightarrow> ok (f s x) \<and> contents (f s x) = contents s @ enc x"
    and "ok s"
  shows "ok (foldl f s xs) \<and> contents (foldl f s xs) = contents s @ concat (map enc xs)"
  using assms by (induction xs arbitrary: s) auto

end

section \<open>The buffer is a bit sink\<close>

definition unused :: "bitbuf \<Rightarrow> nat" where
  "unused st = (if pos st = 8 then 0 else nat (pos st))"

definition bitbuf_ok :: "bitbuf \<Rightarrow> bool" where
  "bitbuf_ok st \<longleftrightarrow> bytes st = length (data_bits st) \<and> 1 \<le> pos st \<and> pos st \<le> 8 \<and>
     (pos st \<noteq> 8 \<longrightarrow> data_bits st \<noteq> []) \<and>
     drop (8 * bytes st - unused st) (bytes_to_bits (data_bits st)) = replicate (unused st) False"

definition written :: "bitbuf \<Rightarrow> bool list" where
  "written st = take (8 * bytes st - unused st) (bytes_to_bits (data_bits st))"

lemma bit_bit_set:
  assumes "1 \<le> position" and "position \<le> 8"
  shows "bit (bit_set p position (of_bool b)) n =
     (if n = nat (position - 1) then b else bit p n)"
proof -
  have eq: "uint (drop_bit (nat (position - 1)) p AND 1) = of_bool (bit p (nat (position - 1)))"
    by (simp add: and_one_eq bit_iff_odd_drop_bit odd_iff_mod_2_eq_one)
  have "nat (position - 1) < 8" using assms by simp
  then show ?thesis
    using assms by (auto simp: bit_set_def eq bit_simps)
qed

lemma byte_bits_bit_set:
  assumes "1 \<le> position" and "position \<le> 8"
  shows "byte_bits (bit_set p position (of_bool b)) = (byte_bits p)[nat (8 - position) := b]"
proof (rule nth_equalityI)
  fix i
  assume "i < length (byte_bits (bit_set p position (of_bool b)))"
  then have i: "i < 8" by simp
  then have "7 - i = nat (position - 1) \<longleftrightarrow> nat (8 - position) = i"
    using assms by auto
  with i assms show
    "byte_bits (bit_set p position (of_bool b)) ! i = (byte_bits p)[nat (8 - position) := b] ! i"
    by (simp add: bit_bit_set nth_list_update)
qed simp

lemma byte_bits_0: "byte_bits 0 = replicate 8 False"
  by (simp add: byte_bits_def map_replicate_const)

text \<open>Setting the first unused bit of a byte whose unused bits are all clear.\<close>

lemma fill_next:
  assumes "length xs = n" and "u < n" and "drop (n - Suc u) xs = replicate (Suc u) False"
  shows "take (n - u) (xs[n - Suc u := b]) = take (n - Suc u) xs @ [b]"
    and "drop (n - u) (xs[n - Suc u := b]) = replicate u False"
proof -
  have eq: "n - u = Suc (n - Suc u)" using assms(2) by simp
  then show "take (n - u) (xs[n - Suc u := b]) = take (n - Suc u) xs @ [b]"
    using assms(1,2) by (simp add: take_Suc_conv_app_nth)
  have "drop (n - u) (xs[n - Suc u := b]) = drop (Suc (n - Suc u)) xs"
    by (simp add: eq)
  also have "\<dots> = drop 1 (drop (n - Suc u) xs)" by simp
  also have "\<dots> = replicate u False" by (simp add: assms(3))
  finally show "drop (n - u) (xs[n - Suc u := b]) = replicate u False" .
qed

lemma last_byte_split:
  assumes "bitbuf_ok st" and "pos st \<noteq> 8"
  obtains ds x where "data_bits st = ds @ [x]" "bytes st = Suc (length ds)"
    "drop (8 - nat (pos st)) (byte_bits x) = replicate (nat (pos st)) False"
    "written st = bytes_to_bits ds @ take (8 - nat (pos st)) (byte_bits x)"
proof -
  from assms obtain ds x where d: "data_bits st = ds @ [x]"
    by (metis bitbuf_ok_def rev_exhaust)
  have "bytes st = Suc (length ds)" using assms d by (simp add: bitbuf_ok_def)
  moreover have "nat (pos st) \<le> 8" using assms by (auto simp: bitbuf_ok_def)
  ultimately show ?thesis
    using assms d that by (simp add: bitbuf_ok_def written_def unused_def)
qed

lemma empty_bitbuf_ok [simp]: "bitbuf_ok empty_bitbuf"
  and written_empty [simp]: "written empty_bitbuf = []"
  by (simp_all add: bitbuf_ok_def written_def unused_def empty_bitbuf_def)

lemma add_bit_first:
  assumes "bitbuf_ok st" and "pos st = 8"
  shows "bitbuf_ok (add_bit_to_bytes st (of_bool b)) \<and>
         written (add_bit_to_bytes st (of_bool b)) = written st @ [b]"
proof -
  have "byte_bits (bit_set 0 8 (of_bool b)) = b # replicate 7 False"
    by (simp add: byte_bits_bit_set byte_bits_0 numeral_eq_Suc)
  then show ?thesis
    using assms by (simp add: add_bit_to_bytes_def bitbuf_ok_def written_def unused_def)
qed

lemma add_bit_later:
  assumes ok: "bitbuf_ok st" and p: "pos st \<noteq> 8"
  shows "bitbuf_ok (add_bit_to_bytes st (of_bool b)) \<and>
         written (add_bit_to_bytes st (of_bool b)) = written st @ [b]"
proof -
  obtain ds x where d: "data_bits st = ds @ [x]" "bytes st = Suc (length ds)"
      and u: "drop (8 - nat (pos st)) (byte_bits x) = replicate (nat (pos st)) False"
      and w: "written st = bytes_to_bits ds @ take (8 - nat (pos st)) (byte_bits x)"
    using ok p by (rule last_byte_split)
  define y where "y = bit_set x (pos st) (of_bool b)"
  have pos: "1 \<le> pos st" "pos st \<le> 7" using ok p by (simp_all add: bitbuf_ok_def)
  define m where "m = nat (pos st) - 1"
  have m: "nat (pos st) = Suc m" "m < 7" "pos st = int m + 1" using pos by (simp_all add: m_def)
  have y: "byte_bits y = (byte_bits x)[8 - Suc m := b]"
    using pos m(3) by (simp add: y_def byte_bits_bit_set nat_diff_distrib')
  have f: "take (8 - m) (byte_bits y) = take (8 - Suc m) (byte_bits x) @ [b]"
          "drop (8 - m) (byte_bits y) = replicate m False"
    unfolding y using fill_next [of "byte_bits x" 8 m b] u m by simp_all
  have new: "add_bit_to_bytes st (of_bool b) =
      \<lparr>data_bits = ds @ [y], bytes = Suc (length ds), pos = (if m = 0 then 8 else int m)\<rparr>"
    using pos d m p by (cases st) (auto simp: add_bit_to_bytes_def y_def Let_def)
  have "unused (add_bit_to_bytes st (of_bool b)) = m"
    using m by (simp add: new unused_def)
  with f w m d u show ?thesis
    by (auto simp: bitbuf_ok_def written_def new)
qed

interpretation bb: bit_sink add_bit_to_bytes written bitbuf_ok
proof unfold_locales
  fix s b
  assume "bitbuf_ok s"
  then have "bitbuf_ok (add_bit_to_bytes s (of_bool b)) \<and>
      written (add_bit_to_bytes s (of_bool b)) = written s @ [b]"
    by (cases "pos s = 8") (simp_all add: add_bit_first add_bit_later)
  then show "bitbuf_ok (add_bit_to_bytes s (of_bool b))"
    and "written (add_bit_to_bytes s (of_bool b)) = written s @ [b]" by simp_all
qed

text \<open>
  What a reader of the whole bytes sees: the bits written, padded with at most seven zeros.
\<close>

lemma unused_less: "bitbuf_ok st \<Longrightarrow> unused st < 8"
  by (auto simp: bitbuf_ok_def unused_def)

lemma length_written: "bitbuf_ok st \<Longrightarrow> length (written st) = 8 * bytes st - unused st"
  by (simp add: written_def bitbuf_ok_def)

lemma written_padded:
  assumes "bitbuf_ok st"
  shows "bytes_to_bits (data_bits st) = written st @ replicate (unused st) False"
proof -
  let ?n = "8 * bytes st - unused st" and ?bs = "bytes_to_bits (data_bits st)"
  have "?bs = take ?n ?bs @ drop ?n ?bs" by simp
  also have "drop ?n ?bs = replicate (unused st) False"
    using assms unfolding bitbuf_ok_def by blast
  finally show ?thesis by (simp add: written_def)
qed

lemma bytes_written:
  assumes "bitbuf_ok st"
  shows "bytes st = (length (written st) + 7) div 8"
proof (cases "pos st = 8")
  case True
  then show ?thesis using assms by (simp add: length_written unused_def)
next
  case False
  then have "bytes st > 0" using assms by (auto simp: bitbuf_ok_def)
  then show ?thesis using unused_less [OF assms] by (simp add: length_written assms)
qed

end
