(* ===== verification/Ieee.thy ===== *)
theory Ieee
  imports Prelude "HOL-Library.Log_Nat"
begin

text \<open>
  C's \<open>float\<close> and \<open>double\<close> as IEEE 754 binary32 and binary64 bit patterns (\<open>32 word\<close> and
  \<open>64 word\<close>), with the arithmetic the programs use, rounded to nearest, ties to even.
  One definition serves both formats: the field widths come from the length of the word.
  A finite value is an integer multiple of a power of two, so sums and products are
  computed exactly and rounded once, by \<open>fround\<close>.  The payload of a NaN result is not
  specified by the standard; here it is the default quiet NaN.
\<close>

section \<open>Formats and fields\<close>

definition ebits :: "'w::len itself \<Rightarrow> nat" where
  "ebits (T :: 'w itself) = (if LENGTH('w) = 64 then 11 else 8)"

definition mbits :: "'w::len itself \<Rightarrow> nat" where
  "mbits (T :: 'w itself) = LENGTH('w) - 1 - ebits T"

definition bias :: "'w::len itself \<Rightarrow> int" where
  "bias T = 2 ^ (ebits T - 1) - 1"

text \<open>The exponent of the least subnormal number.\<close>

definition emin :: "'w::len itself \<Rightarrow> int" where
  "emin T = 1 - bias T - int (mbits T)"

text \<open>The magnitude (the pattern without its sign bit) of infinity.\<close>

definition inf_mag :: "'w::len itself \<Rightarrow> int" where
  "inf_mag T = (2 ^ ebits T - 1) * 2 ^ mbits T"

definition fsign :: "'w::len word \<Rightarrow> bool" where
  "fsign x = bit x (LENGTH('w) - 1)"

definition fmag :: "'w::len word \<Rightarrow> int" where
  "fmag x = uint x mod 2 ^ (LENGTH('w) - 1)"

definition pack :: "bool \<Rightarrow> int \<Rightarrow> 'w::len word" where
  "pack s m = word_of_int (m + (if s then 2 ^ (LENGTH('w) - 1) else 0))"

definition fexp :: "'w::len word \<Rightarrow> int" where
  "fexp x = fmag x div 2 ^ mbits TYPE('w)"

definition fman :: "'w::len word \<Rightarrow> int" where
  "fman x = fmag x mod 2 ^ mbits TYPE('w)"

definition is_nan :: "'w::len word \<Rightarrow> bool" where
  "is_nan x \<longleftrightarrow> fmag x > inf_mag TYPE('w)"

definition is_inf :: "'w::len word \<Rightarrow> bool" where
  "is_inf x \<longleftrightarrow> fmag x = inf_mag TYPE('w)"

definition is_fin :: "'w::len word \<Rightarrow> bool" where
  "is_fin x \<longleftrightarrow> fmag x < inf_mag TYPE('w)"

definition is_zero :: "'w::len word \<Rightarrow> bool" where
  "is_zero x \<longleftrightarrow> fmag x = 0"

text \<open>A finite \<open>x\<close> is \<open>\<plusminus> fsig x * 2 ^ fquant x\<close>.\<close>

definition fsig :: "'w::len word \<Rightarrow> int" where
  "fsig x = (if fexp x = 0 then fman x else fman x + 2 ^ mbits TYPE('w))"

definition fquant :: "'w::len word \<Rightarrow> int" where
  "fquant x = emin TYPE('w) + max 0 (fexp x - 1)"

definition fnum :: "'w::len word \<Rightarrow> int" where
  "fnum x = (if fsign x then - fsig x else fsig x)"

definition fval :: "'w::len word \<Rightarrow> real" where
  "fval x = of_int (fnum x) * 2 powi fquant x"

section \<open>Rounding\<close>

definition round_even :: "int \<Rightarrow> int \<Rightarrow> int" where
  "round_even n d =
     (let q = n div d; r = n mod d
      in if 2 * r > d \<or> 2 * r = d \<and> odd q then q + 1 else q)"

text \<open>Equations that make these fast to evaluate on numbers of a thousand bits.\<close>

lemma bitlen_num [code]:
  "bitlen 0 = 0" "bitlen (Int.Neg n) = 0" "bitlen (Int.Pos Num.One) = 1"
  "bitlen (Int.Pos (Num.Bit0 n)) = 1 + bitlen (Int.Pos n)"
  "bitlen (Int.Pos (Num.Bit1 n)) = 1 + bitlen (Int.Pos n)"
  using compute_bitlen [of "numeral (Num.Bit0 n)"] compute_bitlen [of "numeral (Num.Bit1 n)"] compute_bitlen [of 1]
  by (simp_all add: Int.Pos_def Int.Neg_def bitlen_eq_zero_iff)

definition round_div :: "int \<Rightarrow> int \<Rightarrow> int" where
  "round_div = round_even"

lemma round_div_code [code]:
  "round_div n d = (let q = n div d; r = n mod d in if 2 * r > d \<or> 2 * r = d \<and> odd q then q + 1 else q)"
  by (simp add: round_div_def round_even_def)

lemma round_even_num [code]:
  "round_even (Int.Pos (Num.Bit0 n)) (Int.Pos (Num.Bit0 d)) = round_even (Int.Pos n) (Int.Pos d)"
  "round_even (Int.Pos (Num.Bit0 n)) (Int.Pos (Num.Bit1 d)) = round_div (Int.Pos (Num.Bit0 n)) (Int.Pos (Num.Bit1 d))"
  "round_even (Int.Pos (Num.Bit0 n)) (Int.Pos Num.One) = Int.Pos (Num.Bit0 n)"
  "round_even (Int.Pos (Num.Bit0 n)) (Int.Neg d) = round_div (Int.Pos (Num.Bit0 n)) (Int.Neg d)"
  "round_even (Int.Pos (Num.Bit0 n)) 0 = round_div (Int.Pos (Num.Bit0 n)) 0"
  "round_even (Int.Pos (Num.Bit1 n)) e = round_div (Int.Pos (Num.Bit1 n)) e"
  "round_even (Int.Pos Num.One) e = round_div (Int.Pos Num.One) e"
  "round_even (Int.Neg n) e = round_div (Int.Neg n) e"
  "round_even 0 e = round_div 0 e"
proof -
  have eq: "numeral (Num.Bit0 n) = 2 * (numeral n :: int)" "numeral (Num.Bit0 d) = 2 * (numeral d :: int)"
    by simp_all
  have "round_even (2 * a) (2 * b) = round_even a b" for a b
    by (simp add: round_even_def Let_def flip: mult_mod_right)
  then show "round_even (Int.Pos (Num.Bit0 n)) (Int.Pos (Num.Bit0 d)) = round_even (Int.Pos n) (Int.Pos d)"
    by (simp only: Int.Pos_def eq)
qed (simp_all add: round_div_def round_even_def Int.Pos_def)

text \<open>The \<open>shl\<close> and \<open>shr\<close> parts of a scaling by \<open>2 ^ k\<close>.\<close>

abbreviation up :: "int \<Rightarrow> int" where "up k \<equiv> 2 ^ nat k"

text \<open>The least \<open>k\<close> with \<open>n / d < 2 ^ k\<close>, for positive \<open>n\<close> and \<open>d\<close>.\<close>

definition ratio_len :: "int \<Rightarrow> int \<Rightarrow> int" where
  "ratio_len n d =
     (let t = bitlen n - bitlen d in if n * up (- t) \<ge> d * up t then t + 1 else t)"

text \<open>
  \<open>fround s n d e\<close> is the number closest to \<open>\<plusminus> n / d * 2 ^ e\<close>, for \<open>n \<ge> 0\<close> and \<open>d > 0\<close>.
  The quotient is rounded at the exponent \<open>k\<close> that leaves it \<open>mbits + 1\<close> bits, or at the
  least exponent; adding it to the exponent field carries a rounding up into the next
  binade, and the largest binade into infinity.
\<close>

definition fround :: "bool \<Rightarrow> int \<Rightarrow> int \<Rightarrow> int \<Rightarrow> 'w::len word" where
  "fround s n d e =
     (let T = TYPE('w);
          k = max (ratio_len n d + e - int (mbits T) - 1) (emin T);
          q = round_even (n * up (e - k)) (d * up (k - e))
      in pack s (if n = 0 then 0 else min (inf_mag T) ((k - emin T) * 2 ^ mbits T + q)))"

section \<open>Operations\<close>

definition qnan :: "'w::len word" where
  "qnan = pack False (inf_mag TYPE('w) + 2 ^ (mbits TYPE('w) - 1))"

definition finf :: "bool \<Rightarrow> 'w::len word" where
  "finf s = pack s (inf_mag TYPE('w))"

definition fneg :: "'w::len word \<Rightarrow> 'w word" where
  "fneg x = pack (\<not> fsign x) (fmag x)"

definition ffabs :: "'w::len word \<Rightarrow> 'w word" where
  "ffabs x = pack False (fmag x)"

definition fadd :: "'w::len word \<Rightarrow> 'w word \<Rightarrow> 'w word" where
  "fadd x y =
     (if is_nan x \<or> is_nan y then qnan
      else if is_inf x then (if is_inf y \<and> fsign x \<noteq> fsign y then qnan else x)
      else if is_inf y then y
      else (let e = min (fquant x) (fquant y);
                n = fnum x * up (fquant x - e) + fnum y * up (fquant y - e)
            in if n = 0 then pack (fsign x \<and> fsign y) 0
               else fround (n < 0) \<bar>n\<bar> 1 e))"

definition fsub :: "'w::len word \<Rightarrow> 'w word \<Rightarrow> 'w word" where
  "fsub x y = (if is_nan y then qnan else fadd x (fneg y))"

definition fmul :: "'w::len word \<Rightarrow> 'w word \<Rightarrow> 'w word" where
  "fmul x y =
     (let s = (fsign x \<noteq> fsign y) in
      if is_nan x \<or> is_nan y \<or> (is_inf x \<and> is_zero y) \<or> (is_zero x \<and> is_inf y) then qnan
      else if is_inf x \<or> is_inf y then finf s
      else fround s (fsig x * fsig y) 1 (fquant x + fquant y))"

definition fdiv :: "'w::len word \<Rightarrow> 'w word \<Rightarrow> 'w word" where
  "fdiv x y =
     (let s = (fsign x \<noteq> fsign y) in
      if is_nan x \<or> is_nan y \<or> (is_inf x \<and> is_inf y) \<or> (is_zero x \<and> is_zero y) then qnan
      else if is_inf x \<or> is_zero y then finf s
      else if is_inf y then pack s 0
      else fround s (fsig x) (fsig y) (fquant x - fquant y))"

text \<open>The square root: of an even power of two times an integer with \<open>2 * mbits + 4\<close> more bits; whether
  the integer root is exact goes into its last bit.\<close>

function isqrt :: "int \<Rightarrow> int" where
  "isqrt n =
     (if n \<le> 0 then 0
      else let r = 2 * isqrt (n div 4) in if (r + 1) * (r + 1) \<le> n then r + 1 else r)"
  by auto
termination by (relation "measure nat") auto

declare isqrt.simps [simp del]

definition fsqrt :: "'w::len word \<Rightarrow> 'w word" where
  "fsqrt x =
     (if is_nan x then qnan else if is_zero x then x else if fsign x then qnan else if is_inf x then x
      else let e = fquant x; s = 2 * int (mbits TYPE('w)) + 4 + e mod 2; m = fsig x * up s; r = isqrt m
           in fround False (2 * r + of_bool (r * r \<noteq> m)) 1 ((e - s) div 2 - 1))"

lemma isqrt_bounds: "0 \<le> n \<Longrightarrow> 0 \<le> isqrt n \<and> isqrt n * isqrt n \<le> n \<and> n < (isqrt n + 1) * (isqrt n + 1)"
proof (induction n rule: isqrt.induct)
  case (1 n)
  show ?case
  proof (cases "n = 0")
    case False
    let ?q = "isqrt (n div 4)"
    have IH: "0 \<le> ?q" "?q * ?q \<le> n div 4" "n div 4 < (?q + 1) * (?q + 1)" using 1 False by simp_all
    then have "4 * (?q * ?q) \<le> n" "n < 4 * ((?q + 1) * (?q + 1))" by linarith+
    then have "2 * ?q * (2 * ?q) \<le> n" "n < (2 * ?q + 2) * (2 * ?q + 2)" by (simp_all add: algebra_simps)
    then show ?thesis using IH(1) False 1(2)
      by (simp add: isqrt.simps [of n] Let_def algebra_simps)
  qed (simp add: isqrt.simps)
qed

text \<open>Comparisons: the sign-magnitude pattern is monotone in the value.\<close>

definition fkey :: "'w::len word \<Rightarrow> int" where
  "fkey x = (if fsign x then - fmag x else fmag x)"

definition flt :: "'w::len word \<Rightarrow> 'w word \<Rightarrow> bool" where
  "flt x y \<longleftrightarrow> \<not> is_nan x \<and> \<not> is_nan y \<and> fkey x < fkey y"

definition fle :: "'w::len word \<Rightarrow> 'w word \<Rightarrow> bool" where
  "fle x y \<longleftrightarrow> \<not> is_nan x \<and> \<not> is_nan y \<and> fkey x \<le> fkey y"

definition feq :: "'w::len word \<Rightarrow> 'w word \<Rightarrow> bool" where
  "feq x y \<longleftrightarrow> \<not> is_nan x \<and> \<not> is_nan y \<and> fkey x = fkey y"

text \<open>Conversions: between the formats, from an integer, to an unsigned 64-bit integer.\<close>

definition fconv :: "'v::len word \<Rightarrow> 'w::len word" where
  "fconv x =
     (if is_nan x then qnan else if is_inf x then finf (fsign x)
      else fround (fsign x) (fsig x) 1 (fquant x))"

definition fint :: "int \<Rightarrow> 'w::len word" where
  "fint n = fround (n < 0) \<bar>n\<bar> 1 0"

definition ftrunc :: "'w::len word \<Rightarrow> int" where
  "ftrunc x = (let m = fsig x * up (fquant x) div up (- fquant x)
               in if fsign x then - m else m)"


section \<open>The two formats\<close>

text \<open>What holds of binary32 and binary64 alike.\<close>

locale ieee_format =
  fixes T :: "'w::len itself"
  assumes width: "LENGTH('w) = 32 \<or> LENGTH('w) = 64"
begin

lemma widths:
  "LENGTH('w) = Suc (ebits TYPE('w) + mbits TYPE('w))" "0 < ebits TYPE('w)" "1 < mbits TYPE('w)"
  using width by (auto simp: ebits_def mbits_def)

lemma width_less: "LENGTH('w) - Suc 0 = mbits TYPE('w) + ebits TYPE('w)"
  using widths(1) by simp

lemmas fields_def = fsign_def fmag_def fexp_def fman_def pack_def width_less One_nat_def

lemma uint_range: "0 \<le> uint (x :: 'w word)" "uint (x :: 'w word) < 2 * 2 ^ (mbits TYPE('w) + ebits TYPE('w))"
  using uint_bounded [of x] by (simp_all add: widths(1) add.commute)

lemma fsign_uint: "fsign (x :: 'w word) \<longleftrightarrow> 2 ^ (mbits TYPE('w) + ebits TYPE('w)) \<le> uint x"
proof -
  let ?n = "mbits TYPE('w) + ebits TYPE('w)"
  have "fsign x \<longleftrightarrow> odd (uint x div 2 ^ ?n)"
    by (simp add: fields_def bit_uint_iff flip: bit_iff_odd) (simp add: bit_imp_le_length widths(1))
  also have "\<dots> \<longleftrightarrow> 2 ^ ?n \<le> uint x"
  proof (cases "2 ^ ?n \<le> uint x")
    case True
    then have "uint x div 2 ^ ?n = (uint x - 2 ^ ?n) div 2 ^ ?n + 1"
      by (simp add: div_pos_geq)
    also have "(uint x - 2 ^ ?n) div 2 ^ ?n = 0"
      using uint_range [of x] True by (intro div_pos_pos_trivial) linarith+
    finally show ?thesis using True by simp
  next
    case False
    then have "uint x div 2 ^ ?n = 0" by (intro div_pos_pos_trivial) simp_all
    then show ?thesis using False by simp
  qed
  finally show ?thesis .
qed

lemma fmag_range: "0 \<le> fmag (x :: 'w word)" "fmag (x :: 'w word) < 2 ^ (mbits TYPE('w) + ebits TYPE('w))"
  by (simp_all add: fields_def)

lemma fexp_range: "0 \<le> fexp (x :: 'w word)" "fexp (x :: 'w word) < 2 ^ ebits TYPE('w)"
proof -
  show "0 \<le> fexp x" using fmag_range(1) by (simp add: fexp_def pos_imp_zdiv_nonneg_iff)
  have "fmag x < 2 ^ ebits TYPE('w) * 2 ^ mbits TYPE('w)"
    using fmag_range(2) [of x] by (simp add: power_add mult.commute)
  moreover have "fexp x * 2 ^ mbits TYPE('w) \<le> fmag x"
    unfolding fexp_def by (metis div_mult_mod_eq le_add_same_cancel1 pos_mod_sign zero_less_numeral zero_less_power)
  ultimately have "fexp x * 2 ^ mbits TYPE('w) < 2 ^ ebits TYPE('w) * 2 ^ mbits TYPE('w)" by linarith
  then show "fexp x < 2 ^ ebits TYPE('w)" by simp
qed

lemma fman_range: "0 \<le> fman (x :: 'w word)" "fman (x :: 'w word) < 2 ^ mbits TYPE('w)"
  by (simp_all add: fman_def)

lemma fmag_fields: "fmag (x :: 'w word) = fexp x * 2 ^ mbits TYPE('w) + fman x"
  unfolding fexp_def fman_def by (rule div_mult_mod_eq [symmetric])

lemma uint_fields:
  "uint (x :: 'w word) = (if fsign x then 2 ^ (mbits TYPE('w) + ebits TYPE('w)) else 0) + fmag x"
proof (cases "fsign x")
  case True
  let ?n = "mbits TYPE('w) + ebits TYPE('w)"
  have "uint x mod 2 ^ ?n = (uint x - 2 ^ ?n) mod 2 ^ ?n" by (simp add: mod_diff_right_eq)
  also have "\<dots> = uint x - 2 ^ ?n"
    using uint_range [of x] True by (intro mod_pos_pos_trivial) (simp_all add: fsign_uint)
  finally show ?thesis using True by (simp add: fields_def)
next
  case False
  then have "uint x mod 2 ^ (mbits TYPE('w) + ebits TYPE('w)) = uint x"
    using uint_range [of x] by (intro mod_pos_pos_trivial) (simp_all add: fsign_uint)
  then show ?thesis using False by (simp add: fields_def)
qed

lemma pack_fields:
  assumes "0 \<le> m" and "m < 2 ^ (mbits TYPE('w) + ebits TYPE('w))"
  shows "uint (pack s m :: 'w word) = m + (if s then 2 ^ (mbits TYPE('w) + ebits TYPE('w)) else 0)"
    and "fsign (pack s m :: 'w word) = s" and "fmag (pack s m :: 'w word) = m"
proof -
  let ?n = "mbits TYPE('w) + ebits TYPE('w)"
  let ?m = "m + (if s then 2 ^ ?n else 0)"
  have "uint (pack s m :: 'w word) = take_bit LENGTH('w) ?m"
    unfolding fields_def by (simp only: uint_word_of_int_eq)
  also have "\<dots> = ?m"
    using assms by (intro take_bit_int_eq_self) (auto simp: widths(1) add.commute)
  finally show u: "uint (pack s m :: 'w word) = ?m" .
  then show s: "fsign (pack s m :: 'w word) = s" using assms by (simp add: fsign_uint)
  then show "fmag (pack s m :: 'w word) = m"
    using u uint_fields [of "pack s m :: 'w word"] by simp
qed

lemma pack_of_fields [simp]: "pack (fsign x) (fmag x) = (x :: 'w word)"
  using pack_fields(1) [OF fmag_range, of "fsign x" x] uint_fields [of x]
  by (intro word_uint_eqI) auto

text \<open>Two numbers with the same sign and exponent are as far apart as their patterns.\<close>

lemma fval_diff:
  assumes "fsign (x :: 'w word) = fsign (y :: 'w word)" and "fexp x = fexp y"
  shows "\<bar>fval x - fval y\<bar> = of_int \<bar>uint x - uint y\<bar> * 2 powi fquant x"
proof -
  have q: "fquant y = fquant x" using assms(2) by (simp add: fquant_def)
  have "\<bar>fnum x - fnum y\<bar> = \<bar>fman x - fman y\<bar>"
    using assms by (simp add: fnum_def fsig_def abs_minus_commute)
  also have "\<dots> = \<bar>uint x - uint y\<bar>"
    using assms uint_fields [of x] uint_fields [of y] by (simp add: fmag_fields)
  finally have "\<bar>of_int (fnum x) - of_int (fnum y) :: real\<bar> = of_int \<bar>uint x - uint y\<bar>"
    by (metis of_int_abs of_int_diff)
  then show ?thesis
    by (simp add: fval_def q abs_mult flip: left_diff_distrib)
qed

end

interpretation double: ieee_format "TYPE(64)"
  by unfold_locales simp

interpretation single: ieee_format "TYPE(32)"
  by unfold_locales simp

end
