(* ===== verification/FloatBits.thy ===== *)
theory FloatBits
  imports
  Ieee
begin

unbundle bit_operations_syntax

text \<open>
  Between numbers and their bits in \<open>app/src/dataCompression.c\<close>: \<open>floattostr\<close>,
  \<open>doubletostr\<close>, \<open>strtofloat\<close>, \<open>strtodbl\<close>, \<open>getFloatBin\<close> and \<open>getDoubleBin\<close>.  A string
  of \<open>'0'\<close> and \<open>'1'\<close> is a list of booleans, most significant bit first, without
  the terminating NUL.
\<close>

section \<open>The code\<close>

definition floattostr :: "32 word \<Rightarrow> bool list" where
  "floattostr a =
     fst (foldl (\<lambda>(str, c) i. (str[31 - i := bit c 0], drop_bit 1 c))
       (replicate 32 False, a) [0..<32])"

text \<open>\<open>c\<close> is a \<open>long long\<close>: its right shift keeps the sign.\<close>

definition doubletostr :: "64 word \<Rightarrow> bool list" where
  "doubletostr a =
     fst (foldl (\<lambda>(str, c) i. (str[63 - i := bit c 0], signed_drop_bit 1 c))
       (replicate 64 False, a) [0..<64])"

definition strtofloat :: "bool list \<Rightarrow> 32 word" where
  "strtofloat str =
     foldl (\<lambda>flt i. push_bit 1 (flt + of_bool (str ! i))) 0 [0..<31] + of_bool (str ! 31)"

definition strtodbl :: "bool list \<Rightarrow> 64 word" where
  "strtodbl str =
     foldl (\<lambda>dbl i. push_bit 1 (dbl + of_bool (str ! i))) 0 [0..<63] + of_bool (str ! 63)"

text \<open>
  \<open>getFloatBin\<close> masks the pattern with \<open>1 << 31-i\<close>.  \<open>getDoubleBin\<close> reads an \<open>int\<close>, the low
  half of the number, and shifts an \<open>int\<close> by \<open>63-i\<close>.
\<close>

definition int_shift :: "nat \<Rightarrow> 32 word result" where
  "int_shift n = (if n < 32 then Inr (push_bit n 1) else Inl BadShift)"

definition bin_step :: "32 word \<Rightarrow> nat \<Rightarrow> bool list \<Rightarrow> nat \<Rightarrow> bool list result" where
  "bin_step f high bin i = res_bind (int_shift (high - i)) (\<lambda>t. Inr (bin @ [f AND t \<noteq> 0]))"

definition getFloatBin :: "32 word \<Rightarrow> bool list result" where
  "getFloatBin num = res_fold (bin_step num 31) [] [0..<32]"

definition getDoubleBin :: "64 word \<Rightarrow> bool list result" where
  "getDoubleBin num = res_fold (bin_step (ucast num) 63) [] [0..<64]"

section \<open>One description of both\<close>

definition tostr :: "'w::len word \<Rightarrow> bool list" where
  "tostr a = map (\<lambda>i. bit a (LENGTH('w) - 1 - i)) [0..<LENGTH('w)]"

definition strto :: "bool list \<Rightarrow> 'w::len word" where
  "strto str = foldl (\<lambda>v b. 2 * v + of_bool b) 0 str"

lemma length_tostr [simp, bits_simps]: "length (tostr (a :: 'w::len word)) = LENGTH('w)"
  by (simp add: tostr_def)

lemma nth_tostr [simp]:
  "i < LENGTH('w) \<Longrightarrow> tostr (a :: 'w::len word) ! i = bit a (LENGTH('w) - 1 - i)"
  by (simp add: tostr_def)

text \<open>The loops that fill a string from its end.\<close>

lemma tostr_loop:
  assumes "\<And>c n. bit (shift c) n = bit (c :: 'w::len word) (if Suc n < LENGTH('w) then Suc n else f n)"
    and "n \<le> LENGTH('w)" and "length s = LENGTH('w)"
  shows "\<exists>c. foldl (\<lambda>(str, c) i. (str[LENGTH('w) - 1 - i := bit c 0], shift c)) (s, a) [0..<n] =
      (take (LENGTH('w) - n) s @ drop (LENGTH('w) - n) (tostr a), c) \<and>
    (\<forall>m < LENGTH('w) - n. bit c m = bit a (m + n))"
  using assms(2)
proof (induction n)
  case 0
  then show ?case using assms(3) by simp
next
  case (Suc n)
  let ?L = "LENGTH('w)"
  from Suc obtain c where c: "foldl (\<lambda>(str, c) i. (str[?L - 1 - i := bit c 0], shift c)) (s, a) [0..<n] =
      (take (?L - n) s @ drop (?L - n) (tostr a), c)" "\<forall>m < ?L - n. bit c m = bit a (m + n)"
    by auto
  have odd: "bit c 0 = bit a n" using c(2) [rule_format, of 0] Suc.prems by simp
  have "(take (?L - n) s @ drop (?L - n) (tostr a))[?L - 1 - n := bit a n] =
      take (?L - Suc n) s @ drop (?L - Suc n) (tostr a)" (is "?l = ?r")
  proof (rule nth_equalityI)
    show "length ?l = length ?r" using Suc.prems assms(3) by simp
    fix i
    assume "i < length ?l"
    then have "i < ?L" using Suc.prems assms(3) by simp
    then show "?l ! i = ?r ! i"
      using Suc.prems assms(3) by (cases "i = ?L - 1 - n") (auto simp: nth_list_update nth_append)
  qed
  moreover have "bit (shift c) m = bit a (m + Suc n)" if "m < ?L - Suc n" for m
  proof -
    have "Suc m < ?L" "Suc m < ?L - n" using that by linarith+
    then show ?thesis using c(2) assms(1) [of c m] by simp
  qed
  ultimately show ?case using c(1) odd by simp
qed

lemma floattostr_eq: "floattostr a = tostr a"
proof -
  have "bit (drop_bit 1 c) n = bit c (if Suc n < LENGTH(32) then Suc n else 32)" for c :: "32 word" and n
    by (auto simp: bit_drop_bit_eq dest: bit_imp_le_length)
  from tostr_loop [OF this, of 32 "replicate 32 False" a] show ?thesis
    by (auto simp: floattostr_def)
qed

lemma doubletostr_eq: "doubletostr a = tostr a"
proof -
  have "bit (signed_drop_bit 1 c) n = bit c (if Suc n < LENGTH(64) then Suc n else
      if n < 64 then 63 else 64)" for c :: "64 word" and n
    by (auto simp: bit_signed_drop_bit_iff dest: bit_imp_le_length)
  from tostr_loop [OF this, of 64 "replicate 64 False" a] show ?thesis
    by (auto simp: doubletostr_def)
qed

lemma strto_snoc [simp]: "strto (str @ [b]) = 2 * strto str + of_bool b"
  by (simp add: strto_def)

lemma bit_double_add:
  "bit (2 * (v :: 'w::len word) + of_bool b) n \<longleftrightarrow>
     n < LENGTH('w) \<and> (if n = 0 then b else bit v (n - 1))"
proof -
  have "bit (2 * v) n \<and> bit (of_bool b :: 'w word) n \<longleftrightarrow> False" for n
    by (cases n) (auto simp: bit_double_iff bit_0 bit_of_bool_iff)
  then have "2 * v + of_bool b = 2 * v OR of_bool b"
    by (intro disjunctive_add_eq_or bit_eqI) (simp add: bit_and_iff)
  then show ?thesis
    by (cases n) (auto simp: bit_or_iff bit_double_iff bit_of_bool_iff bit_0 even_or_iff)
qed

lemma bit_strto:
  "bit (strto str :: 'w::len word) n \<longleftrightarrow> n < LENGTH('w) \<and> n < length str \<and> str ! (length str - 1 - n)"
proof (induction str arbitrary: n rule: rev_induct)
  case Nil
  then show ?case by (simp add: strto_def)
next
  case (snoc b str)
  show ?case
  proof (cases n)
    case 0
    then show ?thesis by (simp add: bit_double_add)
  next
    case (Suc m)
    then have "(str @ [b]) ! (length (str @ [b]) - 1 - n) = str ! (length str - 1 - m)"
      if "m < length str"
    proof -
      have "length str - Suc m < length str" using that by linarith
      then show ?thesis using Suc by (simp add: nth_append)
    qed
    then show ?thesis using Suc snoc [of m] by (auto simp: bit_double_add)
  qed
qed

lemma strto_loop:
  "n < length str \<Longrightarrow>
   foldl (\<lambda>v i. push_bit 1 (v + of_bool (str ! i))) 0 [0..<n] = 2 * (strto (take n str) :: 'w::len word)"
proof (induction n)
  case 0
  then show ?case by (simp add: strto_def)
next
  case (Suc n)
  then show ?case by (simp add: take_Suc_conv_app_nth push_bit_double mult.commute)
qed

lemma strto_all:
  assumes "length str = Suc n"
  shows "foldl (\<lambda>v i. push_bit 1 (v + of_bool (str ! i))) 0 [0..<n] + of_bool (str ! n) =
    (strto str :: 'w::len word)"
proof -
  have "take n str @ [str ! n] = str"
    using assms by (metis lessI take_Suc_conv_app_nth take_all le_refl)
  then have "strto str = 2 * strto (take n str) + (of_bool (str ! n) :: 'w word)"
    by (metis strto_snoc)
  then show ?thesis using assms strto_loop [of n str] by (metis lessI)
qed

lemma strtofloat_eq: "length str = 32 \<Longrightarrow> strtofloat str = strto str"
  using strto_all [of str 31] by (simp add: strtofloat_def)

lemma strtodbl_eq: "length str = 64 \<Longrightarrow> strtodbl str = strto str"
  using strto_all [of str 63] by (simp add: strtodbl_def)

lemma strto_tostr [simp]: "strto (tostr a) = a"
  by (rule bit_word_eqI) (simp add: bit_strto)

lemma tostr_strto: "length str = LENGTH('w) \<Longrightarrow> tostr (strto str :: 'w::len word) = str"
  by (rule nth_equalityI) (simp_all add: bit_strto)

lemma tostr_fsign: "tostr a ! 0 = fsign a"
  by (simp add: fsign_def)

lemma bin_loop:
  "i \<le> 32 \<Longrightarrow> res_fold (bin_step f 31) [] [0..<i] = Inr (map (\<lambda>i. bit f (31 - i)) [0..<i])"
proof (induction i)
  case 0
  then show ?case by simp
next
  case (Suc i)
  have "f AND push_bit n 1 \<noteq> 0 \<longleftrightarrow> bit f n" for n
  proof -
    have "f AND push_bit n 1 = (if bit f n then push_bit n 1 else 0)"
      by (rule bit_word_eqI) (auto simp: bit_simps)
    moreover have "bit f n \<Longrightarrow> n < 32" using bit_imp_le_length [of f n] by simp
    ultimately show ?thesis by (auto simp: push_bit_eq_0_iff)
  qed
  then show ?case using Suc by (simp add: bin_step_def int_shift_def)
qed

section \<open>Properties\<close>

text \<open>\<open>strtofloat\<close> and \<open>strtodbl\<close> invert \<open>floattostr\<close> and \<open>doubletostr\<close> on every
  pattern, infinities and NaNs included, and conversely on every string of the right
  length; character 0 is the sign.\<close>

theorem float_string_roundtrip:
  "strtofloat (floattostr f) = f \<and> strtodbl (doubletostr d) = d \<and>
   (length s = 32 \<longrightarrow> floattostr (strtofloat s) = s) \<and>
   (length t = 64 \<longrightarrow> doubletostr (strtodbl t) = t) \<and>
   floattostr f ! 0 = fsign f \<and> doubletostr d ! 0 = fsign d"
  by (simp add: floattostr_eq doubletostr_eq strtofloat_eq strtodbl_eq tostr_strto tostr_fsign)

theorem float_string_roundtrip_witness:
  "floattostr (strtofloat (replicate 32 True)) = replicate 32 True \<and>
   doubletostr (strtodbl (replicate 64 True)) = replicate 64 True"
  using float_string_roundtrip [of 0 0 "replicate 32 True" "replicate 64 True"] by simp

text \<open>\<open>getFloatBin\<close> gives the bits of the number; \<open>getDoubleBin\<close> shifts an \<open>int\<close> by
  63 in its first round, whatever the number.\<close>

theorem float_bin_correct_double_bin_undefined:
  "getFloatBin f = Inr (floattostr f) \<and> getDoubleBin d = Inl BadShift"
proof -
  have "getFloatBin f = Inr (floattostr f)"
    using bin_loop [of 32 f] by (simp add: getFloatBin_def floattostr_eq tostr_def)
  moreover have "[0..<64] = 0 # [1..<64]" by (simp add: upt_rec)
  then have "getDoubleBin d = Inl BadShift"
    by (simp add: getDoubleBin_def bin_step_def int_shift_def del: upt_Suc)
  ultimately show ?thesis ..
qed

end
