(* ===== verification/BitCodec.thy ===== *)
theory BitCodec
  imports
  BitBuffer
  FloatBits
begin

unbundle bit_operations_syntax

text \<open>
  The bitwise codecs of \<open>app/src/dataCompression.c\<close>: the truncation of a number to the
  mantissa bits that matter under the absolute error bound, and the decoder's walk over
  the bits, which the codecs with and without prediction (\<open>_np\<close>) share.  The code has each function twice, for
  \<open>double\<close> and for \<open>float\<close>; the two differ in the field widths only, and the definitions
  here take those from the type, the two C functions being instances.  An array and its
  \<open>num\<close> are one list, and so are \<open>data_bits\<close> and \<open>bytes\<close>.
\<close>

section \<open>The error bound\<close>

text \<open>\<open>absErrorBound\<close> of \<open>dataCompression.h\<close>: the double closest to 0.000001.\<close>

definition absErrorBound :: "64 word" where
  "absErrorBound = 0x3EB0C6F7A0B5ED8D"

text \<open>\<open>pow(2, k)\<close>.\<close>

definition pow2 :: "int \<Rightarrow> 'w::len word" where
  "pow2 k = fround False (up k) (up (- k)) 0"

definition to_absErrorBound_binary :: "64 word \<Rightarrow> int result" where
  "to_absErrorBound_binary absErrBound =
     (case find (\<lambda>n. fle (pow2 (- n)) absErrBound) [0..99] of
        None \<Rightarrow> Inl NoReturn | Some n \<Rightarrow> Inr n)"

text \<open>The global starts as -100 and is set on first use, always from \<open>absErrorBound\<close>.\<close>

definition absErrorBound_binary :: int where
  "absErrorBound_binary =
     (case to_absErrorBound_binary absErrorBound of Inl _ \<Rightarrow> - 100 | Inr n \<Rightarrow> n)"

section \<open>Truncating the mantissa\<close>

definition expo_value :: "'w::len itself \<Rightarrow> bool list \<Rightarrow> int" where
  "expo_value T arr =
     foldl (\<lambda>e i. e + of_bool (arr ! i) * 2 ^ (ebits T - i)) 0 [1..<ebits T + 1] - bias T"

definition mantissa_bits_within_error_bound :: "'w::len itself \<Rightarrow> bool list \<Rightarrow> int" where
  "mantissa_bits_within_error_bound T arr =
     (let m = absErrorBound_binary + expo_value T arr
      in if m > int (mbits T) then int (mbits T) else if m < 0 then 0 else m)"

definition put_bits :: "bool list \<Rightarrow> nat list \<Rightarrow> bitbuf \<Rightarrow> bitbuf" where
  "put_bits arr is st = foldl (\<lambda>st i. add_bit_to_bytes st (of_bool (arr ! i))) st is"

definition compress_bitwise :: "bitbuf \<Rightarrow> 'w::len word \<Rightarrow> bitbuf" where
  "compress_bitwise st real_value =
     (let arr = tostr real_value;
          bits_after_compress =
            1 + ebits TYPE('w) + nat (mantissa_bits_within_error_bound TYPE('w) arr)
      in put_bits arr [0..<bits_after_compress] st)"

definition compress_bitwise_double :: "bitbuf \<Rightarrow> 64 word \<Rightarrow> bitbuf" where
  "compress_bitwise_double = compress_bitwise"

definition compress_bitwise_float :: "bitbuf \<Rightarrow> 32 word \<Rightarrow> bitbuf" where
  "compress_bitwise_float = compress_bitwise"

text \<open>The missing mantissa bits are filled with the middle of what they can be.\<close>

definition fill_middle :: "bool list \<Rightarrow> 'w::len word" where
  "fill_middle bits =
     (if length bits = LENGTH('w) then strto bits
      else strto (bits @ [True] @ replicate (LENGTH('w) - (length bits + 1)) False))"

definition decompress_bitwise_double_np :: "bool list \<Rightarrow> 64 word" where
  "decompress_bitwise_double_np = fill_middle"

definition decompress_bitwise_float_np :: "bool list \<Rightarrow> 32 word" where
  "decompress_bitwise_float_np = fill_middle"

section \<open>The decoder's loop\<close>

text \<open>
  The state between two bits: how many bits the current field still has, the bits of the
  current number, what is remembered of earlier numbers (nothing in \<open>_np\<close>), the numbers
  written to \<open>decompressed\<close>.
\<close>

record ('v, 'h) decoder =
  offset_bits :: int
  bits :: "bool list"
  history :: 'h
  decompressed :: "'v list"

text \<open>Write a number: \<open>decompressed\<close> has room for \<open>num\<close>.\<close>

definition store ::
  "(bool list \<Rightarrow> 'h \<Rightarrow> 'v result) \<Rightarrow> ('h \<Rightarrow> 'v \<Rightarrow> 'h) \<Rightarrow> nat \<Rightarrow> ('v, 'h, 'z) decoder_scheme \<Rightarrow>
   ('v, 'h, 'z) decoder_scheme result" where
  "store decompress remember num st =
     res_bind (decompress (bits st) (history st)) (\<lambda>v.
       if length (decompressed st) < num
       then Inr (st\<lparr>bits := [], history := remember (history st) v,
                    decompressed := decompressed st @ [v]\<rparr>)
       else Inl OutOfBounds)"

text \<open>
  One bit.  \<open>start\<close> says what the first bit of a number announces: the length of its first
  field, or a failure.  A number whose first field is sign and exponent has its mantissa
  bits next, if it has any; the decoder only looks when the next bit comes.
\<close>

definition decode_step ::
  "(bool \<Rightarrow> int result) \<Rightarrow> (bool list \<Rightarrow> 'h \<Rightarrow> 'w::len word result) \<Rightarrow> ('h \<Rightarrow> 'w word \<Rightarrow> 'h) \<Rightarrow>
   nat \<Rightarrow> ('w word, 'h) decoder \<Rightarrow> bool \<Rightarrow> ('w word, 'h) decoder result" where
  "decode_step start decompress remember num st b =
     (let begin_number = (\<lambda>st.
            res_bind (start b) (\<lambda>k. Inr (st\<lparr>offset_bits := k, bits := [b]\<rparr>)))
      in res_bind
       (if offset_bits st = 0 then
          if bits st = [] then begin_number st
          else
            (let m = mantissa_bits_within_error_bound TYPE('w) (bits st)
             in if m > 0 then Inr (st\<lparr>offset_bits := m, bits := bits st @ [b]\<rparr>)
                else res_bind (store decompress remember num (st\<lparr>offset_bits := m\<rparr>)) begin_number)
        else Inr (st\<lparr>bits := bits st @ [b]\<rparr>))
       (\<lambda>st.
         let st = st\<lparr>offset_bits := offset_bits st - 1\<rparr>
         in if offset_bits st = 0 \<and> length (bits st) \<noteq> 1 + ebits TYPE('w)
            then store decompress remember num st else Inr st))"

definition new_decoder :: "'h \<Rightarrow> ('v, 'h) decoder" where
  "new_decoder h = \<lparr>offset_bits = 0, bits = [], history = h, decompressed = []\<rparr>"

text \<open>All bits of all bytes; the numbers written are the result.\<close>

definition run_decoder ::
  "(('v, 'h) decoder \<Rightarrow> bool \<Rightarrow> ('v, 'h) decoder result) \<Rightarrow> 'h \<Rightarrow> byte list \<Rightarrow> 'v list result" where
  "run_decoder step h packed =
     res_bind (res_fold step (new_decoder h) (bytes_to_bits packed)) (\<lambda>st. Inr (decompressed st))"

section \<open>What is kept of a number\<close>

lemma absErrorBound_binary_20 [code]: "absErrorBound_binary = 20"
  by code_simp

abbreviation mant :: "'w::len itself \<Rightarrow> bool list \<Rightarrow> int" where
  "mant \<equiv> mantissa_bits_within_error_bound"


lemma foldl_add: "foldl (\<lambda>e i. e + f i) (a :: 'b :: comm_monoid_add) xs = a + sum_list (map f xs)"
  by (induction xs arbitrary: a) (simp_all add: add.assoc)

context ieee_format
begin

lemma expo_value_cong:
  "take (1 + ebits TYPE('w)) arr = take (1 + ebits TYPE('w)) arr' \<Longrightarrow>
     expo_value TYPE('w) arr = expo_value TYPE('w) arr'"
proof -
  assume eq: "take (1 + ebits TYPE('w)) arr = take (1 + ebits TYPE('w)) arr'"
  have "arr ! i = arr' ! i" if "i < 1 + ebits TYPE('w)" for i
    using arg_cong [OF eq, of "\<lambda>xs. xs ! i"] that by simp
  then have "map (\<lambda>i. of_bool (arr ! i) * 2 ^ (ebits TYPE('w) - i)) [1..<ebits TYPE('w) + 1] =
      map (\<lambda>i. of_bool (arr' ! i) * (2 :: int) ^ (ebits TYPE('w) - i)) [1..<ebits TYPE('w) + 1]"
    by (intro map_cong) auto
  then show ?thesis unfolding expo_value_def foldl_add by (simp only:)
qed

lemma expo_value_tostr: "expo_value TYPE('w) (tostr (x :: 'w word)) = fexp x - bias TYPE('w)"
proof -
  let ?e = "ebits TYPE('w)" and ?m = "mbits TYPE('w)"
  have nth: "tostr x ! i = bit x (?m + (?e - i))" if "1 \<le> i" "i < ?e + 1" for i
    using that widths(1) by (simp add: add.commute)
  have "sum_list (map (\<lambda>i. of_bool (tostr x ! i) * (2 :: int) ^ (?e - i)) [1..<?e + 1]) =
      (\<Sum>i\<in>{1..<?e + 1}. of_bool (tostr x ! i) * 2 ^ (?e - i))"
    by (simp only: interv_sum_list_conv_sum_set_nat set_upt)
  also have "\<dots> = (\<Sum>j\<in>{0..<?e}. of_bool (bit (drop_bit ?m (uint x)) j) * 2 ^ j)"
    using nth by (intro sum.reindex_bij_witness [of _ "\<lambda>j. ?e - j" "\<lambda>i. ?e - i"])
      (auto simp: bit_drop_bit_eq bit_uint_iff dest: bit_imp_le_length)
  also have "\<dots> = take_bit ?e (drop_bit ?m (uint x))"
    by (simp flip: horner_sum_bit_eq_take_bit add: horner_sum_eq_sum)
  also have "\<dots> = fexp x"
    by (simp add: fexp_def fmag_def width_less take_bit_drop_bit add.commute
        flip: take_bit_eq_mod drop_bit_eq_div)
  finally show ?thesis unfolding expo_value_def foldl_add by simp
qed

end

text \<open>The number of mantissa bits kept, the bits sent, and the number they are read as.\<close>

definition kept :: "'w::len word \<Rightarrow> nat" where
  "kept x = nat (mant TYPE('w) (tostr x))"

definition code_bits :: "'w::len word \<Rightarrow> bool list" where
  "code_bits x = take (1 + ebits TYPE('w) + kept x) (tostr x)"

definition truncated :: "'w::len word \<Rightarrow> 'w word" where
  "truncated x = fill_middle (code_bits x)"

lemma mant_bounds: "0 \<le> mant T arr" "mant T arr \<le> int (mbits T)"
  by (simp_all add: mantissa_bits_within_error_bound_def Let_def)

lemma put_bits_written:
  assumes "bitbuf_ok st"
  shows "bitbuf_ok (put_bits arr is st) \<and> written (put_bits arr is st) = written st @ map ((!) arr) is"
proof -
  have "put_bits arr is st = foldl add_bit_to_bytes st (map of_bool (map ((!) arr) is))"
    by (simp add: put_bits_def foldl_map)
  then show ?thesis using bb.put_list [OF assms, of "map ((!) arr) is"] by (simp only:)
qed

context ieee_format
begin

lemma length_code_bits: "length (code_bits (x :: 'w word)) = 1 + ebits TYPE('w) + kept x"
proof -
  have "kept x \<le> mbits TYPE('w)" unfolding kept_def
    using mant_bounds(2) [of "TYPE('w)" "tostr x"] by linarith
  then show ?thesis by (simp add: code_bits_def widths(1))
qed

lemma compress_bitwise_written:
  assumes "bitbuf_ok st"
  shows "bitbuf_ok (compress_bitwise st (x :: 'w word)) \<and>
    written (compress_bitwise st x) = written st @ code_bits x"
proof -
  let ?n = "1 + ebits TYPE('w) + nat (mant TYPE('w) (tostr x))"
  have "?n \<le> length (tostr x)" using length_code_bits [of x] by (simp add: code_bits_def kept_def)
  then have "map ((!) (tostr x)) [0..<?n] = code_bits x"
    unfolding code_bits_def kept_def by (rule map_nth_upt)
  then show ?thesis using put_bits_written [OF assms, of "tostr x" "[0..<?n]"]
    by (simp add: compress_bitwise_def Let_def)
qed

lemma take_code_bits:
  "take (1 + ebits TYPE('w)) (code_bits (x :: 'w word)) = take (1 + ebits TYPE('w)) (tostr x)"
  unfolding code_bits_def take_take by (simp only: min.absorb1 le_add1)

lemma mant_cong:
  "take (1 + ebits TYPE('w)) t = take (1 + ebits TYPE('w)) t' \<Longrightarrow> mant TYPE('w) t = mant TYPE('w) t'"
  unfolding mantissa_bits_within_error_bound_def by (drule expo_value_cong) (simp only:)

lemma mant_header:
  assumes "take (1 + ebits TYPE('w)) arr = take (1 + ebits TYPE('w)) (tostr (x :: 'w word))"
  shows "mant TYPE('w) arr = int (kept x)"
proof -
  have "mant TYPE('w) arr = mant TYPE('w) (tostr x)"
    using expo_value_cong [OF assms] by (simp add: mantissa_bits_within_error_bound_def)
  then show ?thesis using mant_bounds(1) [of "TYPE('w)" "tostr x"] by (simp add: kept_def)
qed

lemma nth_code_bits:
  "i < 1 + ebits TYPE('w) + kept (x :: 'w word) \<Longrightarrow> code_bits x ! i = tostr x ! i"
  by (simp add: code_bits_def)

lemma bit_truncated:
  assumes "n < LENGTH('w)" and "kept (x :: 'w word) < mbits TYPE('w)"
  shows "bit (truncated x) n \<longleftrightarrow>
    (if mbits TYPE('w) - kept x \<le> n then bit x n else n = mbits TYPE('w) - kept x - 1)"
proof -
  let ?c = "code_bits x"
  let ?s = "?c @ [True] @ replicate (LENGTH('w) - (length ?c + 1)) False"
  have len: "length ?c = 1 + ebits TYPE('w) + kept x" by (rule length_code_bits)
  have L: "length ?s = LENGTH('w)" and L': "length ?c \<noteq> LENGTH('w)"
    using assms(2) by (auto simp: len widths(1))
  then have "bit (truncated x) n = ?s ! (LENGTH('w) - 1 - n)"
    using assms(1) by (simp add: truncated_def fill_middle_def bit_strto)
  also have "\<dots> = (if mbits TYPE('w) - kept x \<le> n then bit x n else n = mbits TYPE('w) - kept x - 1)"
  proof (cases "mbits TYPE('w) - kept x \<le> n")
    case True
    then have i: "LENGTH('w) - 1 - n < length ?c" using assms by (simp add: len widths(1))
    then have "?s ! (LENGTH('w) - 1 - n) = tostr x ! (LENGTH('w) - 1 - n)"
      by (simp only: nth_append if_True nth_code_bits len)
    then show ?thesis using True assms(1) by simp
  next
    case False
    then have i: "\<not> LENGTH('w) - 1 - n < length ?c" using assms by (simp add: len widths(1))
    have "LENGTH('w) - 1 - n - length ?c = 0 \<longleftrightarrow> n = mbits TYPE('w) - kept x - 1"
      using False assms by (simp add: len widths(1)) linarith
    then show ?thesis using False i assms by (auto simp: nth_append nth_Cons' len widths(1))
  qed
  finally show ?thesis .
qed

lemma uint_truncated:
  assumes "kept (x :: 'w word) < mbits TYPE('w)" and d: "d = mbits TYPE('w) - kept x"
  shows "uint (truncated x) = uint x div 2 ^ d * 2 ^ d + 2 ^ (d - 1)"
proof -
  let ?X = "push_bit d (drop_bit d (uint x))"
  have "0 < d" using assms by simp
  have dis: "?X + 2 ^ (d - 1) = ?X OR 2 ^ (d - 1)"
    using \<open>0 < d\<close> by (intro disjunctive_add_eq_or bit_eqI) (auto simp: bit_and_iff bit_push_bit_iff bit_exp_iff)
  have "uint (truncated x) = ?X OR 2 ^ (d - 1)"
  proof (rule bit_eqI)
    fix n
    show "bit (uint (truncated x)) n = bit (?X OR 2 ^ (d - 1)) n"
    proof (cases "n < LENGTH('w)")
      case True
      then show ?thesis
        using bit_truncated [OF True assms(1)] \<open>0 < d\<close> unfolding d [symmetric]
        by (auto simp: bit_or_iff bit_push_bit_iff bit_drop_bit_eq bit_exp_iff bit_uint_iff)
    next
      case False
      then have "d - 1 < n" using widths(1) d by linarith
      then show ?thesis using False
        by (auto simp: bit_or_iff bit_push_bit_iff bit_drop_bit_eq bit_exp_iff bit_uint_iff)
    qed
  qed
  then show ?thesis unfolding dis [symmetric] by (simp add: push_bit_eq_mult drop_bit_eq_div)
qed

lemma truncated_full: "kept (x :: 'w word) = mbits TYPE('w) \<Longrightarrow> truncated x = x"
  using length_code_bits [of x] by (simp add: truncated_def fill_middle_def code_bits_def widths(1))

lemma truncated_near:
  assumes "kept (x :: 'w word) < mbits TYPE('w)"
  shows "\<bar>uint x - uint (truncated x)\<bar> \<le> 2 ^ (mbits TYPE('w) - kept x - 1)"
    and "uint (truncated x) div 2 ^ mbits TYPE('w) = uint x div 2 ^ mbits TYPE('w)"
proof -
  define d where "d = mbits TYPE('w) - kept x"
  define q r where "q = uint x div 2 ^ d" and "r = uint x mod 2 ^ d"
  have d: "0 < d" "d \<le> mbits TYPE('w)" using assms by (simp_all add: d_def)
  then have half: "(2 :: int) ^ d = 2 * 2 ^ (d - 1)" by (simp flip: power_Suc)
  have x: "uint x = q * 2 ^ d + r" unfolding q_def r_def by (rule div_mult_mod_eq [symmetric])
  have t: "uint (truncated x) = q * 2 ^ d + 2 ^ (d - 1)"
    using uint_truncated [OF assms d_def] by (simp add: q_def)
  have r: "0 \<le> r" "r < 2 ^ d" by (simp_all add: r_def)
  then show "\<bar>uint x - uint (truncated x)\<bar> \<le> 2 ^ (mbits TYPE('w) - kept x - 1)"
    using half unfolding x t d_def [symmetric] by linarith
  have "uint (truncated x) div 2 ^ d = q"
    unfolding t using half by (simp add: div_pos_pos_trivial)
  moreover have "uint y div 2 ^ mbits TYPE('w) = uint y div 2 ^ d div 2 ^ (mbits TYPE('w) - d)"
    for y :: "'w word"
    using d by (simp add: zdiv_zmult2_eq [symmetric] flip: power_add)
  ultimately show "uint (truncated x) div 2 ^ mbits TYPE('w) = uint x div 2 ^ mbits TYPE('w)"
    by (simp add: q_def)
qed

lemma header_of_pattern:
  "uint (x :: 'w word) div 2 ^ mbits TYPE('w) =
     (if fsign x then 2 ^ ebits TYPE('w) else 0) + fexp x"
proof -
  have "uint x = ((if fsign x then 2 ^ ebits TYPE('w) else 0) + fexp x) * 2 ^ mbits TYPE('w) + fman x"
    using uint_fields [of x] by (simp add: fmag_fields power_add algebra_simps)
  then show ?thesis using fman_range [of x] by (simp add: div_pos_pos_trivial)
qed

lemma same_header:
  assumes "uint (x :: 'w word) div 2 ^ mbits TYPE('w) = uint (y :: 'w word) div 2 ^ mbits TYPE('w)"
  shows "fsign x = fsign y" and "fexp x = fexp y"
  using assms fexp_range [of x] fexp_range [of y] by (auto simp: header_of_pattern split: if_splits)

lemma length_code_bits_upto: "length (code_bits (x :: 'w word)) \<le> LENGTH('w)"
  by (simp add: code_bits_def)

lemma truncated_fields:
  shows "fsign (truncated (x :: 'w word)) = fsign x" and "fexp (truncated x) = fexp x"
proof -
  have "kept x \<le> mbits TYPE('w)" unfolding kept_def
    using mant_bounds(2) [of "TYPE('w)" "tostr x"] by linarith
  then consider "kept x = mbits TYPE('w)" | "kept x < mbits TYPE('w)" by linarith
  then have "fsign (truncated x) = fsign x \<and> fexp (truncated x) = fexp x"
    by cases (simp_all add: truncated_full same_header [OF truncated_near(2)])
  then show "fsign (truncated x) = fsign x" "fexp (truncated x) = fexp x" by simp_all
qed

text \<open>Half the error bound, \<open>2 ^ -21\<close>, whatever the number.\<close>

lemma kept_cases:
  "kept (x :: 'w word) = nat (min (mbits TYPE('w)) (max 0 (20 + (fexp x - bias TYPE('w)))))"
  by (simp add: kept_def mantissa_bits_within_error_bound_def absErrorBound_binary_20 expo_value_tostr Let_def)

lemma truncated_error: "\<bar>fval (x :: 'w word) - fval (truncated x)\<bar> \<le> 2 powi (- 21)"
proof (cases "kept x < mbits TYPE('w)")
  case False
  then have "kept x = mbits TYPE('w)" unfolding kept_def
    using mant_bounds(2) [of "TYPE('w)" "tostr x"] by linarith
  then show ?thesis by (simp add: truncated_full)
next
  case True
  have b: "bias TYPE('w) \<ge> 127" using width by (auto simp: bias_def ebits_def)
  have e: "int (mbits TYPE('w) - kept x - 1) + fquant x \<le> - 21"
    using True b fexp_range [of x] unfolding kept_cases fquant_def emin_def
    by (cases "fexp x = 0") (auto simp: min_def max_def split: if_splits)
  have "\<bar>fval x - fval (truncated x)\<bar> = of_int \<bar>uint x - uint (truncated x)\<bar> * 2 powi fquant x"
    using truncated_fields by (intro fval_diff) simp_all
  also have "\<dots> \<le> of_int (2 ^ (mbits TYPE('w) - kept x - 1)) * 2 powi fquant x"
    using truncated_near(1) [OF True] by (intro mult_right_mono of_int_le_iff [THEN iffD2]) simp_all
  also have "\<dots> = 2 powi (int (mbits TYPE('w) - kept x - 1) + fquant x)"
    by (simp add: power_int_add power_int_of_nat flip: of_int_power)
  also have "\<dots> \<le> 2 powi (- 21)" using e by (intro power_int_increasing) simp_all
  finally show ?thesis .
qed

end


section \<open>The decoder's loop reads one number after the other\<close>

text \<open>
  The bits of a number: sign, exponent and as many mantissa bits as the exponent asks for,
  or a single field of another length.
\<close>

definition token :: "'w::len itself \<Rightarrow> (bool \<Rightarrow> int result) \<Rightarrow> bool list \<Rightarrow> bool" where
  "token T start t \<longleftrightarrow> t \<noteq> [] \<and>
     (start (hd t) = Inr (1 + int (ebits T)) \<and> length t = 1 + ebits T + nat (mant T t) \<or>
      start (hd t) = Inr (int (length t)) \<and> 1 < length t \<and> length t \<noteq> 1 + ebits T)"

text \<open>A number without mantissa bits is written only when the bit after it arrives.\<close>

definition lazy :: "'w::len itself \<Rightarrow> bool list \<Rightarrow> bool" where
  "lazy T t \<longleftrightarrow> length t = 1 + ebits T"

locale bit_decoder =
  fixes T :: "'w::len itself"
    and start :: "bool \<Rightarrow> int result"
    and decompress :: "bool list \<Rightarrow> 'h \<Rightarrow> 'w word result"
    and remember :: "'h \<Rightarrow> 'w word \<Rightarrow> 'h"
    and val :: "bool list \<Rightarrow> 'h \<Rightarrow> 'w word"
  assumes ebits_pos: "0 < ebits TYPE('w)"
    and mant_prefix: "take (1 + ebits TYPE('w)) t = take (1 + ebits TYPE('w)) t' \<Longrightarrow>
      mant TYPE('w) t = mant TYPE('w) t'"
    and decompress_val: "token TYPE('w) start t \<Longrightarrow> decompress t h = Inr (val t h)"
begin

abbreviation "step num \<equiv> decode_step start decompress remember num"

fun emitted :: "'h \<Rightarrow> bool list list \<Rightarrow> 'w word list" where
  "emitted h [] = []"
| "emitted h (t # ts) = val t h # emitted (remember h (val t h)) ts"

fun history_after :: "'h \<Rightarrow> bool list list \<Rightarrow> 'h" where
  "history_after h [] = h"
| "history_after h (t # ts) = history_after (remember h (val t h)) ts"

text \<open>Between two numbers; the last one may not have been written yet.\<close>

definition ready :: "'h \<Rightarrow> 'w word list \<Rightarrow> ('w word, 'h) decoder \<Rightarrow> bool" where
  "ready h out st \<longleftrightarrow> offset_bits st = 0 \<and>
     (bits st = [] \<and> history st = h \<and> decompressed st = out \<or>
      lazy TYPE('w) (bits st) \<and> token TYPE('w) start (bits st) \<and>
      h = remember (history st) (val (bits st) (history st)) \<and>
      out = decompressed st @ [val (bits st) (history st)])"

text \<open>The rest of a field.\<close>

lemma collect:
  assumes "xs \<noteq> []" and "offset_bits st = int (length xs)"
  shows "res_fold (step num) st xs =
    (let st' = st\<lparr>offset_bits := 0, bits := bits st @ xs\<rparr>
     in if length (bits st') \<noteq> 1 + ebits TYPE('w) then store decompress remember num st' else Inr st')"
  using assms
proof (induction xs arbitrary: st)
  case Nil
  then show ?case by simp
next
  case (Cons x xs)
  show ?case
  proof (cases "xs = []")
    case True
    then show ?thesis using Cons.prems
      by (cases st) (simp add: decode_step_def Let_def split: sum.split)
  next
    case False
    then have "step num st x = Inr (st\<lparr>offset_bits := int (length xs), bits := bits st @ [x]\<rparr>)"
      using Cons.prems by (simp add: decode_step_def Let_def)
    then show ?thesis using Cons.IH [OF False] by simp
  qed
qed

text \<open>The first bit of a number, whether or not the one before has been written.\<close>

lemma begin_number:
  assumes "ready h out st" and "length out \<le> num" and "start b = Inr k" and "1 < k"
  shows "step num st b = Inr \<lparr>offset_bits = k - 1, bits = [b], history = h, decompressed = out\<rparr>"
  using assms(1) unfolding ready_def
proof (elim conjE disjE)
  assume "offset_bits st = 0" "bits st = []" "history st = h" "decompressed st = out"
  then show ?thesis using assms(3,4) by (cases st) (simp add: decode_step_def Let_def)
next
  assume o: "offset_bits st = 0" and l: "lazy TYPE('w) (bits st)" and t: "token TYPE('w) start (bits st)"
    and h: "h = remember (history st) (val (bits st) (history st))"
    and out: "out = decompressed st @ [val (bits st) (history st)]"
  have "mant TYPE('w) (bits st) = 0"
    using l t mant_bounds(1) [of "TYPE('w)" "bits st"] by (auto simp: lazy_def token_def)
  moreover have "bits st \<noteq> []" using t by (simp add: token_def)
  ultimately show ?thesis using o h out assms(2-4) decompress_val [OF t]
    by (cases st) (simp add: decode_step_def Let_def store_def)
qed

lemma begin_fails:
  assumes "ready h out st" and "length out \<le> num" and "start b = Inl e"
  shows "step num st b = Inl e"
  using assms(1) unfolding ready_def
proof (elim conjE disjE)
  assume "offset_bits st = 0" "bits st = []"
  then show ?thesis using assms(3) by (simp add: decode_step_def Let_def)
next
  assume o: "offset_bits st = 0" and l: "lazy TYPE('w) (bits st)" and t: "token TYPE('w) start (bits st)"
    and out: "out = decompressed st @ [val (bits st) (history st)]"
  have "mant TYPE('w) (bits st) = 0"
    using l t mant_bounds(1) [of "TYPE('w)" "bits st"] by (auto simp: lazy_def token_def)
  moreover have "bits st \<noteq> []" using t by (simp add: token_def)
  ultimately show ?thesis using o out assms(2,3) decompress_val [OF t]
    by (simp add: decode_step_def Let_def store_def)
qed

lemma decode_token:
  assumes r: "ready h out st" and n: "length out < num" and t: "token TYPE('w) start t"
  shows "\<exists>st'. res_fold (step num) st t = Inr st' \<and>
    ready (remember h (val t h)) (out @ [val t h]) st' \<and>
    decompressed st' = (if lazy TYPE('w) t then out else out @ [val t h])"
proof -
  let ?e = "1 + ebits TYPE('w)"
  obtain b xs where t': "t = b # xs" using t by (cases t) (auto simp: token_def)
  from t consider
      (header) "start b = Inr (int ?e)" "length t = ?e + nat (mant TYPE('w) t)"
    | (field) "start b = Inr (int (length t))" "length t \<noteq> ?e" "1 < length t"
    using t' by (auto simp: token_def)
  then show ?thesis
  proof cases
    case header
    let ?hd = "take (ebits TYPE('w)) xs" and ?tl = "drop (ebits TYPE('w)) xs"
    have lenhd: "length ?hd = ebits TYPE('w)" using header(2) t' by simp
    let ?st1 = "\<lparr>offset_bits = int (ebits TYPE('w)), bits = [b], history = h, decompressed = out\<rparr>"
    let ?st2 = "\<lparr>offset_bits = 0, bits = b # ?hd, history = h, decompressed = out\<rparr>"
    have "step num st b = Inr ?st1"
      using begin_number [OF r _ header(1)] n ebits_pos by simp
    moreover have "?hd \<noteq> []" using lenhd ebits_pos by (metis list.size(3) less_not_refl)
    then have "res_fold (step num) ?st1 ?hd = Inr ?st2"
      using collect [of ?hd ?st1 num] lenhd by (simp add: Let_def)
    ultimately have two: "res_fold (step num) st (b # ?hd) = Inr ?st2" by simp
    have mant: "mant TYPE('w) (b # ?hd) = mant TYPE('w) t"
      by (rule mant_prefix) (simp add: t')
    show ?thesis
    proof (cases "?tl = []")
      case True
      then have eq: "t = b # ?hd" using t' append_take_drop_id [of "ebits TYPE('w)" xs] by simp
      have l: "lazy TYPE('w) (b # ?hd)" using lenhd by (simp add: lazy_def)
      have "ready (remember h (val t h)) (out @ [val t h]) ?st2"
        unfolding ready_def using t l eq [symmetric] by simp
      moreover have "res_fold (step num) st t = Inr ?st2" using two eq by simp
      moreover have "decompressed ?st2 = (if lazy TYPE('w) t then out else out @ [val t h])"
        using l eq by simp
      ultimately show ?thesis by blast
    next
      case False
      then obtain x ys where tl: "?tl = x # ys" by (cases ?tl) auto
      have all: "b # ?hd @ x # ys = t" using t' tl append_take_drop_id [of "ebits TYPE('w)" xs] by simp
      have "length t = ?e + length (x # ys)" using lenhd by (simp flip: all)
      then have m: "mant TYPE('w) t = int (length (x # ys))"
        using header(2) mant_bounds(1) [of "TYPE('w)" t] by linarith
      let ?st3 = "?st2\<lparr>offset_bits := int (length (x # ys))\<rparr>"
      have "step num ?st2 x = step num ?st3 x"
        using m mant by (simp add: decode_step_def Let_def)
      then have "res_fold (step num) ?st2 (x # ys) = res_fold (step num) ?st3 (x # ys)"
        by (simp only: res_fold.simps)
      also have "\<dots> = store decompress remember num
          \<lparr>offset_bits = 0, bits = t, history = h, decompressed = out\<rparr>"
        using collect [of "x # ys" ?st3 num] lenhd all by (auto simp: Let_def)
      also have "\<dots> = Inr \<lparr>offset_bits = 0, bits = [], history = remember h (val t h),
          decompressed = out @ [val t h]\<rparr>"
        using n decompress_val [OF t] by (simp add: store_def)
      finally have "res_fold (step num) st ((b # ?hd) @ x # ys) = \<dots>"
        using two res_fold_append_Inr by metis
      moreover have "\<not> lazy TYPE('w) t" using \<open>length t = ?e + length (x # ys)\<close> by (simp add: lazy_def)
      ultimately show ?thesis using all by (auto simp: ready_def)
    qed
  next
    case field
    have "step num st b = Inr \<lparr>offset_bits = int (length xs), bits = [b], history = h, decompressed = out\<rparr>"
      using begin_number [OF r _ field(1)] n field(3) t' by simp
    then have "res_fold (step num) st t = store decompress remember num
        \<lparr>offset_bits = 0, bits = t, history = h, decompressed = out\<rparr>"
      using collect [of xs "\<lparr>offset_bits = int (length xs), bits = [b], history = h, decompressed = out\<rparr>" num]
        field t' by (auto simp: Let_def)
    then show ?thesis using n decompress_val [OF t] field(2) by (auto simp: store_def ready_def lazy_def)
  qed
qed

lemma length_emitted [simp]: "length (emitted h ts) = length ts"
  by (induction ts arbitrary: h) simp_all

lemma emitted_snoc:
  "emitted h (ts @ [t]) = emitted h ts @ [val t (history_after h ts)]"
  "history_after h (ts @ [t]) = remember (history_after h ts) (val t (history_after h ts))"
  by (induction ts arbitrary: h) simp_all

lemma nth_emitted:
  "i < length ts \<Longrightarrow> emitted h ts ! i = val (ts ! i) (history_after h (take i ts))"
proof (induction ts arbitrary: h i)
  case (Cons t ts)
  then show ?case by (cases i) simp_all
qed simp

definition last_pending :: "bool list list \<Rightarrow> bool" where
  "last_pending ts \<longleftrightarrow> ts \<noteq> [] \<and> lazy TYPE('w) (last ts)"

lemma decode_tokens:
  assumes "\<And>t. t \<in> set ts \<Longrightarrow> token TYPE('w) start t" and "length ts \<le> num"
  shows "\<exists>st. res_fold (step num) (new_decoder h) (concat ts) = Inr st \<and>
    ready (history_after h ts) (emitted h ts) st \<and>
    decompressed st = (if last_pending ts then butlast (emitted h ts) else emitted h ts)"
  using assms
proof (induction ts rule: rev_induct)
  case Nil
  then show ?case by (simp add: ready_def new_decoder_def last_pending_def)
next
  case (snoc t ts)
  then obtain st where st: "res_fold (step num) (new_decoder h) (concat ts) = Inr st"
    "ready (history_after h ts) (emitted h ts) st" by auto
  have "length (emitted h ts) < num" "token TYPE('w) start t" using snoc.prems by simp_all
  from decode_token [OF st(2) this] st(1) show ?case
    by (auto simp: emitted_snoc last_pending_def)
qed

text \<open>Bits that follow the last number and are too few for another one.\<close>

lemma fill:
  "int (length xs) < offset_bits st \<Longrightarrow> res_fold (step num) st xs =
     Inr (st\<lparr>offset_bits := offset_bits st - int (length xs), bits := bits st @ xs\<rparr>)"
proof (induction xs arbitrary: st)
  case Nil
  then show ?case by simp
next
  case (Cons x xs)
  then show ?case by (cases st) (simp add: decode_step_def Let_def)
qed

lemma decode_padding:
  assumes "ready h out st" and "length out \<le> num" and "start False = Inr k" and "8 \<le> k" and "n < 8"
  shows "\<exists>st'. res_fold (step num) st (replicate n False) = Inr st' \<and>
    decompressed st' = (if n = 0 then decompressed st else out)"
proof (cases n)
  case (Suc m)
  let ?st1 = "\<lparr>offset_bits = k - 1, bits = [False], history = h, decompressed = out\<rparr>"
  have "step num st False = Inr ?st1" using begin_number [OF assms(1-3)] assms(4) by simp
  moreover have "res_fold (step num) ?st1 (replicate m False) =
      Inr (?st1\<lparr>offset_bits := k - 1 - int m, bits := [False] @ replicate m False\<rparr>)"
    using fill [of "replicate m False" ?st1 num] assms(4,5) Suc by simp
  ultimately show ?thesis using Suc by simp
qed simp

text \<open>
  A stream of numbers padded to whole bytes is read back, except that a last number without
  mantissa bits is lost when no padding bit follows it.
\<close>

theorem run_tokens:
  assumes "\<And>t. t \<in> set ts \<Longrightarrow> token TYPE('w) start t" and "length ts \<le> num"
    and "start False = Inr k" and "8 \<le> k" and "n < 8"
    and "bytes_to_bits packed = concat ts @ replicate n False"
  shows "run_decoder (step num) h packed =
    Inr (if n = 0 \<and> last_pending ts then butlast (emitted h ts) else emitted h ts)"
proof -
  obtain st where st: "res_fold (step num) (new_decoder h) (concat ts) = Inr st"
    "ready (history_after h ts) (emitted h ts) st"
    "decompressed st = (if last_pending ts then butlast (emitted h ts) else emitted h ts)"
    using decode_tokens [OF assms(1,2)] by auto
  have "length (emitted h ts) \<le> num" using assms(2) by simp
  from decode_padding [OF st(2) this assms(3-5)] st show ?thesis
    by (auto simp: run_decoder_def assms(6) res_fold_append)
qed

text \<open>A number that begins with a bit \<open>start\<close> does not take ends the run.\<close>

theorem run_fails:
  assumes "\<And>t. t \<in> set ts \<Longrightarrow> token TYPE('w) start t" and "length ts \<le> num"
    and "start b = Inl e" and "bytes_to_bits packed = concat ts @ b # later"
  shows "run_decoder (step num) h packed = Inl e"
proof -
  obtain st where st: "res_fold (step num) (new_decoder h) (concat ts) = Inr st"
    "ready (history_after h ts) (emitted h ts) st"
    using decode_tokens [OF assms(1,2)] by auto
  have "step num st b = Inl e" using begin_fails [OF st(2) _ assms(3)] assms(2) by simp
  then show ?thesis using st by (simp add: run_decoder_def assms(4) res_fold_append)
qed

end

context ieee_format
begin

lemma hd_code_bits: "code_bits (x :: 'w word) = fsign x # tl (code_bits x)"
proof -
  have "length (code_bits x) \<noteq> 0" by (simp add: length_code_bits)
  then have ne: "code_bits x \<noteq> []" by simp
  have "code_bits x ! 0 = tostr x ! 0" by (rule nth_code_bits) simp
  then show ?thesis using ne tostr_fsign [of x] by (cases "code_bits x") simp_all
qed

lemma token_code_bits:
  assumes "start (fsign x) = Inr (1 + int (ebits TYPE('w)))"
  shows "token TYPE('w) start (code_bits (x :: 'w word))"
proof -
  have "mant TYPE('w) (code_bits x) = int (kept x)" by (rule mant_header [OF take_code_bits])
  moreover have "hd (code_bits x) = fsign x" "code_bits x \<noteq> []"
    by (subst hd_code_bits, simp)+
  ultimately show ?thesis using assms length_code_bits [of x] by (simp add: token_def)
qed

end

end
