(* ===== verification/IeeeFacts.thy ===== *)
theory IeeeFacts
  imports
  Ieee
begin

text \<open>
  What the proofs about the codecs need of IEEE arithmetic: comparisons compare the
  values, a number that fits the format is not changed by rounding, and so a conversion
  from \<open>float\<close> to \<open>double\<close> keeps the value.
\<close>

section \<open>Magnitudes\<close>

context ieee_format
begin

text \<open>The value of a magnitude, in units of the least subnormal number.\<close>

definition mag_units :: "int \<Rightarrow> int" where
  "mag_units m =
     (let e = m div 2 ^ mbits TYPE('w); f = m mod 2 ^ mbits TYPE('w)
      in if e = 0 then f else (f + 2 ^ mbits TYPE('w)) * 2 ^ nat (e - 1))"

lemma fval_units:
  "fval (x :: 'w word) = (if fsign x then - 1 else 1) * of_int (mag_units (fmag x)) * 2 powi emin TYPE('w)"
proof -
  have e: "0 \<le> fexp x" by (rule fexp_range)
  have "mag_units (fmag x) = fsig x * 2 ^ nat (max 0 (fexp x - 1))"
    using e by (auto simp: mag_units_def fsig_def fexp_def fman_def Let_def max_def)
  moreover have "fquant x = int (nat (max 0 (fexp x - 1))) + emin TYPE('w)" by (simp add: fquant_def)
  then have "(2 :: real) powi fquant x = 2 ^ nat (max 0 (fexp x - 1)) * 2 powi emin TYPE('w)"
    by (simp only: power_int_add [OF disjI1] power_int_of_nat zero_neq_numeral not_False_eq_True)
  ultimately show ?thesis by (simp add: fval_def fnum_def)
qed

lemma mag_units_step:
  assumes "0 \<le> m"
  shows "mag_units m < mag_units (m + 1)"
proof -
  let ?M = "2 ^ mbits TYPE('w) :: int"
  define e f where "e = m div ?M" and "f = m mod ?M"
  have m: "m = e * ?M + f" unfolding e_def f_def by (rule div_mult_mod_eq [symmetric])
  have f: "0 \<le> f" "f < ?M" by (simp_all add: f_def)
  have e: "0 \<le> e" using assms by (simp add: e_def pos_imp_zdiv_nonneg_iff)
  show ?thesis
  proof (cases "f + 1 < ?M")
    case True
    then have "(m + 1) div ?M = e" "(m + 1) mod ?M = f + 1"
      using f unfolding m by (simp_all add: div_pos_pos_trivial mod_pos_pos_trivial add.assoc)
    then show ?thesis by (simp add: mag_units_def e_def [symmetric] f_def [symmetric])
  next
    case False
    then have f': "f = ?M - 1" using f by simp
    then have "m + 1 = (e + 1) * ?M" unfolding m by (simp add: algebra_simps)
    then have "(m + 1) div ?M = e + 1" "(m + 1) mod ?M = 0" by simp_all
    moreover have "nat e = Suc (nat (e - 1))" if "e \<noteq> 0" using that e by simp
    ultimately show ?thesis
      using e by (auto simp: mag_units_def Let_def e_def [symmetric] f_def [symmetric] f' algebra_simps)
  qed
qed

lemma mag_units_mono:
  assumes "0 \<le> m" and "m < n"
  shows "mag_units m < mag_units n"
  using assms(2)
proof (induction n rule: int_gr_induct)
  case base
  then show ?case using mag_units_step [OF assms(1)] .
next
  case (step n)
  have "mag_units n < mag_units (n + 1)" using step.hyps assms(1) by (intro mag_units_step) simp
  then show ?case using step.IH by simp
qed

lemma mag_units_0 [simp]: "mag_units 0 = 0"
  by (simp add: mag_units_def)

lemma mag_units_less_iff: "0 \<le> m \<Longrightarrow> 0 \<le> n \<Longrightarrow> mag_units m < mag_units n \<longleftrightarrow> m < n"
  using mag_units_mono [of m n] mag_units_mono [of n m] by (metis less_asym linorder_neqE)

definition key_units :: "int \<Rightarrow> int" where
  "key_units k = (if k < 0 then - mag_units (- k) else mag_units k)"

lemma key_units_less_iff: "key_units j < key_units k \<longleftrightarrow> j < k"
proof -
  have "0 \<le> mag_units m" if "0 \<le> m" for m
    using mag_units_mono [of 0 m] that by (cases "m = 0") auto
  moreover have "0 < mag_units m" if "0 < m" for m using mag_units_mono [of 0 m] that by simp
  ultimately show ?thesis
    by (auto simp: key_units_def mag_units_less_iff) (smt (verit, ccfv_threshold))+
qed

lemma fval_key: "fval (x :: 'w word) = of_int (key_units (fkey x)) * 2 powi emin TYPE('w)"
  using fmag_range(1) [of x] by (auto simp: fval_units fkey_def key_units_def)

text \<open>Comparisons of numbers that are not NaN are comparisons of values.\<close>

lemma fkey_less_iff: "fkey (x :: 'w word) < fkey (y :: 'w word) \<longleftrightarrow> fval x < fval y"
  by (simp add: fval_key key_units_less_iff)

lemma flt_iff: "\<not> is_nan x \<Longrightarrow> \<not> is_nan y \<Longrightarrow> flt (x :: 'w word) y \<longleftrightarrow> fval x < fval y"
  by (simp add: flt_def fkey_less_iff)

lemma fle_iff: "\<not> is_nan x \<Longrightarrow> \<not> is_nan y \<Longrightarrow> fle (x :: 'w word) y \<longleftrightarrow> fval x \<le> fval y"
  by (simp add: fle_def not_less [symmetric] fkey_less_iff)

lemma ffabs_fields: "fsign (ffabs (x :: 'w word)) = False" "fmag (ffabs x) = fmag x"
  by (simp_all add: ffabs_def pack_fields [OF fmag_range])

lemma fval_ffabs: "fval (ffabs (x :: 'w word)) = \<bar>fval x\<bar>"
proof -
  have "0 \<le> mag_units (fmag x)"
    using mag_units_mono [of 0 "fmag x"] fmag_range(1) [of x] by (cases "fmag x = 0") auto
  then show ?thesis by (simp add: fval_units ffabs_fields abs_mult)
qed

lemma is_nan_ffabs [simp]: "is_nan (ffabs (x :: 'w word)) = is_nan x"
  by (simp add: is_nan_def ffabs_fields)

section \<open>Rounding keeps what fits\<close>

lemma units_of_parts:
  assumes "0 \<le> j" and "0 \<le> q" and "q < 2 * 2 ^ mbits TYPE('w)" and "0 < j \<Longrightarrow> 2 ^ mbits TYPE('w) \<le> q"
  shows "mag_units (j * 2 ^ mbits TYPE('w) + q) = q * 2 ^ nat j"
proof -
  let ?M = "2 ^ mbits TYPE('w) :: int"
  show ?thesis
  proof (cases "q < ?M")
    case True
    then have "j = 0" using assms(1,4) by linarith
    then show ?thesis using True assms(2) by (simp add: mag_units_def div_pos_pos_trivial mod_pos_pos_trivial)
  next
    case False
    define f where "f = q - ?M"
    have q: "q = ?M + f" "0 \<le> f" "f < ?M" using False assms(3) by (simp_all add: f_def)
    have "j * ?M + q = f + (j + 1) * ?M" by (simp add: q(1) algebra_simps)
    then have "(j * ?M + q) div ?M = j + 1" "(j * ?M + q) mod ?M = f"
      using q(2,3) by (simp_all add: div_pos_pos_trivial mod_pos_pos_trivial)
    then show ?thesis using assms(1) by (simp add: mag_units_def q(1) add.commute)
  qed
qed

lemma round_even_1 [simp]: "round_even n 1 = n"
  by (simp add: round_even_def)

lemma ratio_len_1: "0 < n \<Longrightarrow> ratio_len n 1 = bitlen n"
proof -
  assume n: "0 < n"
  have "bitlen 1 = 1" by (simp add: bitlen_def floorlog_def)
  moreover have "1 \<le> bitlen n" using bitlen_ge_iff_power [of 1 n] n by simp
  moreover have "2 ^ nat (bitlen n - 1) \<le> n" using bitlen_bounds [OF n] by simp
  ultimately show ?thesis by (simp add: ratio_len_def Let_def)
qed

lemma fround_exact:
  assumes n: "0 \<le> n" "n < 2 * 2 ^ mbits TYPE('w)"
    and e: "emin TYPE('w) \<le> e" "e - emin TYPE('w) + 3 \<le> 2 ^ ebits TYPE('w)"
  shows "fval (fround s n 1 e :: 'w word) = (if s then - 1 else 1) * of_int n * 2 powi e"
    and "is_fin (fround s n 1 e :: 'w word)"
proof -
  let ?b = "mbits TYPE('w)" and ?E = "emin TYPE('w)"
  have inf: "0 < inf_mag TYPE('w)" "inf_mag TYPE('w) \<le> 2 ^ (?b + ebits TYPE('w))"
    using widths(2) by (simp_all add: inf_mag_def power_add algebra_simps)
  have "fval (fround s n 1 e :: 'w word) = (if s then - 1 else 1) * of_int n * 2 powi e \<and>
      is_fin (fround s n 1 e :: 'w word)"
  proof (cases "n = 0")
    case True
    then show ?thesis using inf by (simp add: fround_def pack_fields fval_units is_fin_def)
  next
    case False
    then have n0: "0 < n" using n(1) by simp
    define k where "k = max (bitlen n + e - int ?b - 1) ?E"
    define q where "q = n * 2 ^ nat (e - k)"
    have len: "2 ^ nat (bitlen n - 1) \<le> n" "n < 2 ^ nat (bitlen n)" "1 \<le> bitlen n"
      using bitlen_bounds [OF n0] bitlen_ge_iff_power [of 1 n] n0 by simp_all
    have "bitlen n \<le> int ?b + 1"
      using n by (intro bitlen_le_iff_power [THEN iffD2]) (simp add: nat_add_distrib)
    then have k: "?E \<le> k" "k \<le> e" using e(1) by (simp_all add: k_def)
    have q0: "0 \<le> q" using n0 by (simp add: q_def)
    have q1: "q < 2 * 2 ^ ?b"
    proof -
      have "q < 2 ^ nat (bitlen n) * 2 ^ nat (e - k)" using len(2) by (simp add: q_def)
      also have "\<dots> = 2 ^ nat (bitlen n + (e - k))"
        using len(3) k by (simp add: nat_add_distrib power_add)
      also have "\<dots> \<le> 2 ^ Suc ?b"
      proof (intro power_increasing)
        have "bitlen n + (e - k) \<le> int ?b + 1" by (simp add: k_def)
        then show "nat (bitlen n + (e - k)) \<le> Suc ?b" by linarith
      qed simp
      finally show ?thesis by simp
    qed
    have q2: "2 ^ ?b \<le> q" if "0 < k - ?E"
    proof -
      have "k = bitlen n + e - int ?b - 1" using that by (simp add: k_def max_def split: if_splits)
      then have "?b = nat (bitlen n - 1) + nat (e - k)" using len(3) k(2) by linarith
      then have "(2 :: int) ^ ?b = 2 ^ nat (bitlen n - 1) * 2 ^ nat (e - k)" by (simp only: power_add)
      also have "\<dots> \<le> q" using len(1) by (simp add: q_def)
      finally show ?thesis .
    qed
    define m where "m = (k - ?E) * 2 ^ ?b + q"
    have m0: "0 \<le> m" using k q0 by (simp add: m_def)
    have "m < (k - ?E + 2) * 2 ^ ?b" using q1 by (simp add: m_def algebra_simps)
    also have "\<dots> \<le> inf_mag TYPE('w)"
      using k e(2) unfolding inf_mag_def by (intro mult_right_mono) (linarith, simp)
    finally have m1: "m < inf_mag TYPE('w)" .
    have r: "(fround s n 1 e :: 'w word) = pack s m"
      using False k m1 by (simp add: fround_def Let_def ratio_len_1 n0 k_def [symmetric] q_def [symmetric] m_def [symmetric])
    have "m < 2 ^ (?b + ebits TYPE('w))" using m1 inf(2) by linarith
    note p = pack_fields [OF m0 this]
    have "mag_units m = q * 2 ^ nat (k - ?E)"
      unfolding m_def using k q0 q1 q2 by (intro units_of_parts) simp_all
    moreover have "of_int q * 2 ^ nat (k - ?E) * 2 powi ?E = of_int n * (2 powi e :: real)"
    proof -
      have "(2 :: real) powi e = 2 powi (int (nat (e - k)) + (int (nat (k - ?E)) + ?E))"
        using k by simp
      also have "\<dots> = 2 ^ nat (e - k) * (2 ^ nat (k - ?E) * 2 powi ?E)"
        by (simp only: power_int_add [OF disjI1] power_int_of_nat zero_neq_numeral not_False_eq_True)
      finally show ?thesis by (simp add: q_def)
    qed
    ultimately show ?thesis using m1 p unfolding r by (simp add: fval_units is_fin_def)
  qed
  then show "fval (fround s n 1 e :: 'w word) = (if s then - 1 else 1) * of_int n * 2 powi e"
    "is_fin (fround s n 1 e :: 'w word)" by simp_all
qed

lemma fsig_range: "0 \<le> fsig (x :: 'w word)" "fsig x < 2 * 2 ^ mbits TYPE('w)"
  using fman_range [of x] by (auto simp: fsig_def)

lemma fval_sig: "fval (x :: 'w word) = (if fsign x then - 1 else 1) * of_int (fsig x) * 2 powi fquant x"
  by (simp add: fval_def fnum_def)

lemma is_fin_fexp: "is_fin (x :: 'w word) \<longleftrightarrow> fexp x < 2 ^ ebits TYPE('w) - 1"
proof -
  let ?M = "2 ^ mbits TYPE('w) :: int" and ?I = "2 ^ ebits TYPE('w) - 1 :: int"
  have m: "fmag x = fexp x * ?M + fman x" by (rule fmag_fields)
  have "fexp x * ?M + fman x < ?I * ?M \<longleftrightarrow> fexp x < ?I"
  proof
    assume "fexp x * ?M + fman x < ?I * ?M"
    then have "fexp x * ?M < ?I * ?M" using fman_range(1) [of x] by linarith
    then show "fexp x < ?I" by simp
  next
    assume "fexp x < ?I"
    then have "(fexp x + 1) * ?M \<le> ?I * ?M" by (intro mult_right_mono) simp_all
    then show "fexp x * ?M + fman x < ?I * ?M" using fman_range(2) [of x] by (simp add: algebra_simps)
  qed
  then show ?thesis by (simp add: is_fin_def inf_mag_def m)
qed

end

text \<open>The conversions of finite numbers to \<open>double\<close>.\<close>

lemma fconv_double:
  assumes "is_fin (x :: 64 word)"
  shows "fval (fconv x :: 64 word) = fval x \<and> is_fin (fconv x :: 64 word)"
proof -
  have "0 \<le> fexp x" "fexp x < 2047"
    using assms double.fexp_range by (simp_all add: double.is_fin_fexp ebits_def)
  then have "emin TYPE(64) \<le> fquant x" "fquant x - emin TYPE(64) + 3 \<le> 2 ^ ebits TYPE(64)"
    by (simp_all add: fquant_def emin_def bias_def ebits_def mbits_def max_def)
  note double.fround_exact [OF double.fsig_range this]
  then show ?thesis
    using assms by (simp add: fconv_def is_nan_def is_inf_def is_fin_def double.fval_sig)
qed

lemma fconv_float:
  assumes "is_fin (x :: 32 word)"
  shows "fval (fconv x :: 64 word) = fval x \<and> is_fin (fconv x :: 64 word)"
proof -
  have "0 \<le> fexp x" "fexp x < 255"
    using assms single.fexp_range by (simp_all add: single.is_fin_fexp ebits_def)
  then have "emin TYPE(64) \<le> fquant x" "fquant x - emin TYPE(64) + 3 \<le> 2 ^ ebits TYPE(64)"
    by (simp_all add: fquant_def emin_def bias_def ebits_def mbits_def max_def)
  moreover have "0 \<le> fsig x" "fsig x < 2 * 2 ^ mbits TYPE(64)"
    using single.fsig_range [of x] by (simp_all add: ebits_def mbits_def)
  ultimately show ?thesis using double.fround_exact [of "fsig x" "fquant x"]
    using assms by (simp add: fconv_def is_nan_def is_inf_def is_fin_def single.fval_sig)
qed

end
