(* ===== verification/PredCodec.thy ===== *)
theory PredCodec
  imports
  BitCodec
  IeeeFacts
begin

unbundle bit_operations_syntax

text \<open>
  The codecs with prediction of \<open>app/src/dataCompression.c\<close>.  A number that an
  extrapolation of the numbers before it meets within the error bound is sent as a code of
  three bits; others are truncated (\<open>myCompress_bitwise_double\<close>, \<open>myCompress_bitwise\<close>) or
  sent whole (\<open>_op\<close>).  The encoder's loop is the same but for that, so \<open>raw\<close>, the function
  that sends a number without prediction, is an argument here.
\<close>

section \<open>The code\<close>

text \<open>The last three numbers; -1 stands for none.\<close>

record 'v before =
  before_value1 :: 'v
  before_value2 :: 'v
  before_value3 :: 'v

definition unset :: "'w::len word \<Rightarrow> bool" where
  "unset v \<longleftrightarrow> feq v (fint (- 1))"

definition no_values :: "'w::len word before" where
  "no_values = \<lparr>before_value1 = fint (- 1), before_value2 = fint (- 1), before_value3 = fint (- 1)\<rparr>"

definition push_value :: "'w::len word before \<Rightarrow> 'w word \<Rightarrow> 'w word before" where
  "push_value h v =
     (if unset (before_value3 h) then h\<lparr>before_value3 := v\<rparr>
      else if unset (before_value2 h) then h\<lparr>before_value2 := v\<rparr>
      else if unset (before_value1 h) then h\<lparr>before_value1 := v\<rparr>
      else \<lparr>before_value1 = v, before_value2 = before_value1 h, before_value3 = before_value2 h\<rparr>)"

definition predict_value2 :: "'w::len word before \<Rightarrow> 'w word" where
  "predict_value2 h = fsub (fmul (fint 2) (before_value1 h)) (before_value2 h)"

definition predict_value3 :: "'w::len word before \<Rightarrow> 'w word" where
  "predict_value3 h =
     fadd (fsub (fmul (fint 3) (before_value1 h)) (fmul (fint 3) (before_value2 h))) (before_value3 h)"

text \<open>A comparison with \<open>absErrorBound\<close> is one of doubles.\<close>

definition promote :: "'w::len word \<Rightarrow> 64 word" where
  "promote x = fconv x"

definition negligible :: "'w::len word \<Rightarrow> bool" where
  "negligible x \<longleftrightarrow> flt (ffabs (promote x)) absErrorBound"

text \<open>The best prediction: its distance and its code (101, 110 or 111).\<close>

definition best_prediction :: "'w::len word before \<Rightarrow> 'w word \<Rightarrow> 'w word \<times> bool list" where
  "best_prediction h real_value =
     (let diff1 = ffabs (fsub (before_value1 h) real_value);
          diff2 = ffabs (fsub (predict_value2 h) real_value);
          diff3 = ffabs (fsub (predict_value3 h) real_value);
          (diff_min, code) = (diff1, [True, False, True]);
          (diff_min, code) = (if flt diff2 diff_min then (diff2, [True, True, False]) else (diff_min, code));
          (diff_min, code) = (if flt diff3 diff_min then (diff3, [True, True, True]) else (diff_min, code))
      in (diff_min, code))"

definition put_code :: "bitbuf \<Rightarrow> bool list \<Rightarrow> bitbuf" where
  "put_code st code = foldl (\<lambda>st b. add_bit_to_bytes st (of_bool b)) st code"

definition compress_step ::
  "(bitbuf \<Rightarrow> 'w::len word \<Rightarrow> bitbuf) \<Rightarrow> bitbuf \<times> 'w word before \<Rightarrow> 'w word \<Rightarrow> bitbuf \<times> 'w word before" where
  "compress_step raw s real_value =
     (case s of (st, h) \<Rightarrow>
        (if unset (before_value3 h) \<or> unset (before_value2 h) \<or> unset (before_value1 h)
         then (if negligible real_value then put_code st [True, False, False] else raw st real_value)
         else (case best_prediction h real_value of (diff_min, code) \<Rightarrow>
           if negligible real_value then put_code st [True, False, False]
           else if fle (promote diff_min) absErrorBound then put_code st code
           else raw st real_value),
         push_value h real_value))"

definition myCompress_pred ::
  "(bitbuf \<Rightarrow> 'w::len word \<Rightarrow> bitbuf) \<Rightarrow> 'w word list \<Rightarrow> bitbuf \<Rightarrow> bitbuf" where
  "myCompress_pred raw data st = fst (foldl (compress_step raw) (st, no_values) data)"

definition myCompress_bitwise_double :: "64 word list \<Rightarrow> bitbuf \<Rightarrow> bitbuf" where
  "myCompress_bitwise_double = myCompress_pred compress_bitwise_double"

definition myCompress_bitwise :: "32 word list \<Rightarrow> bitbuf \<Rightarrow> bitbuf" where
  "myCompress_bitwise = myCompress_pred compress_bitwise_float"

text \<open>The \<open>_op\<close> functions send all bits of a number they do not predict.\<close>

definition put_all :: "bitbuf \<Rightarrow> 'w::len word \<Rightarrow> bitbuf" where
  "put_all st real_value = put_bits (tostr real_value) [0..<LENGTH('w)] st"

definition myCompress_bitwise_double_op :: "64 word list \<Rightarrow> bitbuf \<Rightarrow> bitbuf" where
  "myCompress_bitwise_double_op = myCompress_pred put_all"

definition myCompress_bitwise_op :: "32 word list \<Rightarrow> bitbuf \<Rightarrow> bitbuf" where
  "myCompress_bitwise_op = myCompress_pred put_all"

definition decompress_bitwise :: "bool list \<Rightarrow> 'w::len word before \<Rightarrow> 'w word result" where
  "decompress_bitwise arr h =
     (if length arr = 3 then
        if arr ! 0 then
          if \<not> arr ! 1 \<and> \<not> arr ! 2 then Inr (fint 0)
          else if \<not> arr ! 1 \<and> arr ! 2 then Inr (before_value1 h)
          else if arr ! 1 \<and> \<not> arr ! 2 then Inr (predict_value2 h)
          else Inr (predict_value3 h)
        else Inl ExitFailure
      else Inr (fill_middle arr))"

definition decompress_bitwise_double :: "bool list \<Rightarrow> 64 word before \<Rightarrow> 64 word result" where
  "decompress_bitwise_double = decompress_bitwise"

definition decompress_bitwise_float :: "bool list \<Rightarrow> 32 word before \<Rightarrow> 32 word result" where
  "decompress_bitwise_float = decompress_bitwise"

definition start_pred :: "int \<Rightarrow> bool \<Rightarrow> int result" where
  "start_pred field b = Inr (if \<not> b then field else 3)"

definition myDecompress_bitwise_double :: "byte list \<Rightarrow> nat \<Rightarrow> 64 word list result" where
  "myDecompress_bitwise_double packed num =
     run_decoder (decode_step (start_pred (1 + 11)) decompress_bitwise_double push_value num) no_values packed"

definition myDecompress_bitwise :: "byte list \<Rightarrow> nat \<Rightarrow> 32 word list result" where
  "myDecompress_bitwise packed num =
     run_decoder (decode_step (start_pred (1 + 8)) decompress_bitwise_float push_value num) no_values packed"

text \<open>The loop of the \<open>_op\<close> decoders: every field is a whole number or a code.\<close>

definition op_step ::
  "int \<Rightarrow> (bool list \<Rightarrow> 'w::len word before \<Rightarrow> 'w word result) \<Rightarrow> nat \<Rightarrow>
   ('w word, 'w word before) decoder \<Rightarrow> bool \<Rightarrow> ('w word, 'w word before) decoder result" where
  "op_step width decompress num st b =
     (let st = (if offset_bits st = 0
                then st\<lparr>offset_bits := (if \<not> b then width else 3), bits := bits st @ [b]\<rparr>
                else st\<lparr>bits := bits st @ [b]\<rparr>);
          st = st\<lparr>offset_bits := offset_bits st - 1\<rparr>
      in if offset_bits st = 0 then store decompress push_value num st else Inr st)"

definition myDecompress_bitwise_double_op :: "byte list \<Rightarrow> nat \<Rightarrow> 64 word list result" where
  "myDecompress_bitwise_double_op packed num =
     run_decoder (op_step 64 decompress_bitwise_double num) no_values packed"

definition myDecompress_bitwise_op :: "byte list \<Rightarrow> nat \<Rightarrow> 32 word list result" where
  "myDecompress_bitwise_op packed num =
     run_decoder (op_step 32 decompress_bitwise_float num) no_values packed"


section \<open>What the encoder sends\<close>

text \<open>Whether number \<open>x\<close> after the numbers in \<open>h\<close> is predicted, and the bits sent for it.\<close>

definition predicted_after :: "'w::len word before \<Rightarrow> 'w word \<Rightarrow> bool" where
  "predicted_after h x \<longleftrightarrow>
     \<not> (unset (before_value3 h) \<or> unset (before_value2 h) \<or> unset (before_value1 h)) \<and>
     \<not> negligible x \<and> fle (promote (fst (best_prediction h x))) absErrorBound"

definition token_after :: "('w::len word \<Rightarrow> bool list) \<Rightarrow> 'w word before \<Rightarrow> 'w word \<Rightarrow> bool list" where
  "token_after whole h x =
     (if negligible x then [True, False, False]
      else if predicted_after h x then snd (best_prediction h x) else whole x)"

fun tokens_from :: "('w::len word \<Rightarrow> bool list) \<Rightarrow> 'w word before \<Rightarrow> 'w word list \<Rightarrow> bool list list" where
  "tokens_from whole h [] = []"
| "tokens_from whole h (x # xs) = token_after whole h x # tokens_from whole (push_value h x) xs"

definition predicted :: "'w::len word list \<Rightarrow> nat \<Rightarrow> bool" where
  "predicted data i \<longleftrightarrow> predicted_after (foldl push_value no_values (take i data)) (data ! i)"

lemma length_tokens_from [simp]: "length (tokens_from whole h data) = length data"
  by (induction data arbitrary: h) simp_all

lemma nth_tokens_from:
  "i < length data \<Longrightarrow> tokens_from whole h data ! i =
     token_after whole (foldl push_value h (take i data)) (data ! i)"
proof (induction data arbitrary: h i)
  case (Cons x data)
  then show ?case by (cases i) simp_all
qed simp

lemma best_prediction_code:
  "\<exists>b c. snd (best_prediction h x) = [True, b, c] \<and> (b \<or> c)"
  by (auto simp: best_prediction_def Let_def)

lemma put_code_written:
  "bitbuf_ok st \<Longrightarrow> bitbuf_ok (put_code st code) \<and> written (put_code st code) = written st @ code"
  using bb.put_list [of st code] by (simp add: put_code_def foldl_map)

text \<open>What a function that sends a number without prediction promises.\<close>

locale raw_sender =
  fixes raw :: "bitbuf \<Rightarrow> 'w::len word \<Rightarrow> bitbuf"
    and whole :: "'w word \<Rightarrow> bool list"
  assumes raw_written: "bitbuf_ok st \<Longrightarrow> bitbuf_ok (raw st x) \<and> written (raw st x) = written st @ whole x"
begin

lemma compress_step_written:
  assumes "bitbuf_ok st"
  shows "\<exists>st'. compress_step raw (st, h) x = (st', push_value h x) \<and> bitbuf_ok st' \<and>
    written st' = written st @ token_after whole h x"
  using raw_written [OF assms, of x] put_code_written [OF assms]
  by (auto simp: compress_step_def token_after_def predicted_after_def split: prod.split)

lemma compress_loop_written:
  "bitbuf_ok st \<Longrightarrow> \<exists>st'. foldl (compress_step raw) (st, h) data = (st', foldl push_value h data) \<and>
     bitbuf_ok st' \<and> written st' = written st @ concat (tokens_from whole h data)"
proof (induction data arbitrary: st h)
  case (Cons x data)
  from compress_step_written [OF Cons.prems, of h x] obtain st1 where st1:
    "compress_step raw (st, h) x = (st1, push_value h x)" "bitbuf_ok st1"
    "written st1 = written st @ token_after whole h x" by auto
  from Cons.IH [OF st1(2), of "push_value h x"] show ?case by (auto simp: st1(1,3))
qed simp

lemma myCompress_pred_written:
  "bitbuf_ok (myCompress_pred raw data empty_bitbuf) \<and>
   written (myCompress_pred raw data empty_bitbuf) = concat (tokens_from whole no_values data)"
  using compress_loop_written [OF empty_bitbuf_ok, of no_values data]
  by (auto simp: myCompress_pred_def)

end

lemma put_all_written:
  "bitbuf_ok st \<Longrightarrow> bitbuf_ok (put_all st (x :: 'w::len word)) \<and>
     written (put_all st x) = written st @ tostr x"
  using put_bits_written [of st "tostr x" "[0..<LENGTH('w)]"] map_nth_upt [of "LENGTH('w)" "tostr x"]
  by (simp add: put_all_def)

context raw_sender
begin

lemma pred_size:
  assumes "\<And>x. length (whole x) \<le> n" and "3 \<le> n"
  shows "8 * bytes (myCompress_pred raw data empty_bitbuf) \<le> n * length data + 7"
proof -
  let ?st = "myCompress_pred raw data empty_bitbuf"
  have tok: "length (token_after whole h x) \<le> n" for h x
    using assms(1) [of x] assms(2) best_prediction_code [of h x] by (auto simp: token_after_def)
  have "length (concat (tokens_from whole h data)) \<le> n * length data" for h
  proof (induction data arbitrary: h)
    case (Cons x data)
    show ?case using tok [of h x] Cons.IH [of "push_value h x"] by simp
  qed simp
  then have "length (written ?st) \<le> n * length data" using myCompress_pred_written [of data] by simp
  moreover have "bytes ?st = (length (written ?st) + 7) div 8"
    using myCompress_pred_written [of data] by (intro bytes_written) simp
  ultimately show ?thesis by linarith
qed

end

interpretation whole_double: raw_sender "put_all :: bitbuf \<Rightarrow> 64 word \<Rightarrow> bitbuf" tostr
  by unfold_locales (rule put_all_written)

interpretation whole_float: raw_sender "put_all :: bitbuf \<Rightarrow> 32 word \<Rightarrow> bitbuf" tostr
  by unfold_locales (rule put_all_written)

interpretation truncated_double: raw_sender compress_bitwise_double code_bits
  by unfold_locales (simp add: compress_bitwise_double_def double.compress_bitwise_written)

interpretation truncated_float: raw_sender compress_bitwise_float code_bits
  by unfold_locales (simp add: compress_bitwise_float_def single.compress_bitwise_written)

text \<open>The first three numbers are not predicted.\<close>

lemma unset_no_values [simp]: "before_value1 (push_value h v) = before_value1 h"
  if "unset (before_value3 h) \<or> unset (before_value2 h)"
  using that by (auto simp: push_value_def)

lemma not_predicted_first:
  assumes "\<And>v :: 'w::len word. v = fint (- 1) \<Longrightarrow> unset v" and "i < 3" and "i < length (data :: 'w word list)"
  shows "\<not> predicted data i"
proof -
  have u: "unset (fint (- 1) :: 'w word)" by (rule assms(1)) simp
  have one: "unset (before_value1 (push_value no_values v)) \<and>
      (unset (before_value3 (push_value no_values v)) \<or> unset (before_value2 (push_value no_values v)))" for v :: "'w word"
    using u by (simp add: push_value_def no_values_def)
  then have two: "unset (before_value1 (push_value (push_value no_values v) w))" for v w :: "'w word" by simp
  have "unset (before_value1 (foldl push_value no_values (take i data)))"
  proof -
    consider "i = 0" | "i = 1" | "i = 2" using assms(2) by linarith
    then show ?thesis
    proof cases
      case 1
      then show ?thesis using u by (simp add: no_values_def)
    next
      case 2
      then show ?thesis using one assms(3) by (cases data) simp_all
    next
      case 3
      then obtain a b xs where "data = a # b # xs"
        using assms(3) by (cases data; cases "tl data") auto
      then show ?thesis using two 3 by (simp add: numeral_2_eq_2)
    qed
  qed
  then show ?thesis by (simp add: predicted_def predicted_after_def)
qed

section \<open>What the decoder reads\<close>

definition value_pred :: "bool list \<Rightarrow> 'w::len word before \<Rightarrow> 'w word" where
  "value_pred arr h =
     (if length arr = 3 then
        if \<not> arr ! 1 \<and> \<not> arr ! 2 then fint 0
        else if \<not> arr ! 1 then before_value1 h
        else if \<not> arr ! 2 then predict_value2 h
        else predict_value3 h
      else fill_middle arr)"

context ieee_format
begin

lemma ebits_large: "8 \<le> ebits TYPE('w)" "1 + ebits TYPE('w) < LENGTH('w)"
  using width by (auto simp: ebits_def)

lemma decompress_token:
  assumes "token TYPE('w) (start_pred field) t" and "field \<noteq> 3"
  shows "decompress_bitwise t h = Inr (value_pred t (h :: 'w word before))"
proof -
  have "t ! 0" if l: "length t = 3"
  proof -
    have "start_pred field (hd t) = Inr 3" using assms(1) l ebits_large(1) by (auto simp: token_def)
    then have "hd t" using assms(2) by (simp add: start_pred_def split: if_splits)
    then show ?thesis using assms(1) by (simp add: token_def hd_conv_nth)
  qed
  then show ?thesis by (simp add: decompress_bitwise_def value_pred_def)
qed

end

sublocale ieee_format \<subseteq> pred: bit_decoder "TYPE('w)" "start_pred (1 + int (ebits TYPE('w)))"
  decompress_bitwise push_value value_pred
proof
  show "0 < ebits TYPE('w)" using ebits_large(1) by simp
  show "decompress_bitwise t h = Inr (value_pred t h)"
    if "token TYPE('w) (start_pred (1 + int (ebits TYPE('w)))) t" for t and h :: "'w word before"
    using that ebits_large(1) by (intro decompress_token) (assumption, linarith)
qed (rule mant_cong)

sublocale ieee_format \<subseteq> op: bit_decoder "TYPE('w)" "start_pred (int LENGTH('w))"
  decompress_bitwise push_value value_pred
proof
  show "0 < ebits TYPE('w)" using ebits_large(1) by simp
  show "decompress_bitwise t h = Inr (value_pred t h)"
    if "token TYPE('w) (start_pred (int LENGTH('w))) t" for t and h :: "'w word before"
    using that ebits_large by (intro decompress_token) (assumption, linarith)
qed (rule mant_cong)


context ieee_format
begin

lemma code_token: "token TYPE('w) (start_pred field) [True, b, c]"
  using ebits_large(1) by (simp add: token_def start_pred_def)

lemma token_pred:
  "\<not> fsign x \<Longrightarrow> token TYPE('w) (start_pred (1 + int (ebits TYPE('w)))) (token_after code_bits h (x :: 'w word))"
  using best_prediction_code [of h x] code_token token_code_bits [of "start_pred (1 + int (ebits TYPE('w)))" x]
  by (auto simp: token_after_def start_pred_def)

lemma token_op:
  assumes "\<not> fsign x"
  shows "token TYPE('w) (start_pred (int LENGTH('w))) (token_after tostr h (x :: 'w word))"
proof -
  have "hd (tostr x) = fsign x" "tostr x \<noteq> []"
    using tostr_fsign [of x] by (simp_all add: hd_conv_nth flip: length_greater_0_conv)
  then have "token TYPE('w) (start_pred (int LENGTH('w))) (tostr x)"
    using assms ebits_large by (simp add: token_def start_pred_def)
  then show ?thesis
    using best_prediction_code [of h x] code_token by (auto simp: token_after_def)
qed

lemma tokens_from_all:
  assumes "\<And>h x. x \<in> set data \<Longrightarrow> P (token_after whole h (x :: 'w word))"
  shows "\<forall>t \<in> set (tokens_from whole h data). P t"
  using assms by (induction data arbitrary: h) simp_all

definition readings :: "('w word \<Rightarrow> bool list) \<Rightarrow> 'w word list \<Rightarrow> 'w word list" where
  "readings whole data = pred.emitted no_values (tokens_from whole no_values data)"

lemma length_readings [simp]: "length (readings whole data) = length data"
  by (simp add: readings_def)

text \<open>What a number that was not predicted is read as.\<close>

lemma reading_not_predicted:
  assumes "i < length data" and "\<not> predicted data i" and "length (whole (data ! i)) \<noteq> 3"
  shows "readings whole data ! i =
    (if negligible (data ! i) then fint 0 else fill_middle (whole (data ! i)))"
  using assms by (simp add: readings_def pred.nth_emitted nth_tokens_from token_after_def
      value_pred_def predicted_def)

text \<open>What a predicted number is read as: the same extrapolation, of the numbers read before.\<close>

definition lost_last :: "'w word list \<Rightarrow> bool" where
  "lost_last data \<longleftrightarrow> data \<noteq> [] \<and> \<not> negligible (last data) \<and> \<not> predicted data (length data - 1) \<and>
     kept (last data) = 0"

lemma last_pending_pred:
  "pred.last_pending (tokens_from code_bits no_values data) \<longleftrightarrow> lost_last data"
proof (cases "data = []")
  case False
  let ?i = "length data - 1"
  have i: "?i < length data" "last data = data ! ?i" using False by (simp_all add: last_conv_nth)
  have "last (tokens_from code_bits no_values data) =
      token_after code_bits (foldl push_value no_values (take ?i data)) (last data)"
    using i nth_tokens_from [OF i(1)] False
    by (metis last_conv_nth length_tokens_from length_0_conv)
  moreover have "tokens_from code_bits no_values data \<noteq> []" using False by (metis length_tokens_from length_0_conv)
  moreover have "lazy TYPE('w) (token_after code_bits h x) \<longleftrightarrow>
      \<not> negligible x \<and> \<not> predicted_after h x \<and> kept x = 0" for h and x :: "'w word"
    using best_prediction_code [of h x] ebits_large(1)
    by (auto simp: lazy_def token_after_def length_code_bits)
  ultimately show ?thesis using False i(2)
    by (simp only: pred.last_pending_def lost_last_def predicted_def)
qed (simp add: pred.last_pending_def lost_last_def)

lemma pred_result:
  assumes "\<forall>x \<in> set data. \<not> fsign x"
    and st: "bitbuf_ok st" "written st = concat (tokens_from code_bits no_values data)"
  shows "run_decoder (pred.step (length data)) no_values (data_bits st) =
    Inr (if pos st = 8 \<and> lost_last data then butlast (readings code_bits data) else readings code_bits data)"
proof -
  have "unused st = 0 \<longleftrightarrow> pos st = 8" using st(1) by (auto simp: unused_def bitbuf_ok_def)
  moreover have "run_decoder (pred.step (length data)) no_values (data_bits st) =
      Inr (if unused st = 0 \<and> pred.last_pending (tokens_from code_bits no_values data)
        then butlast (pred.emitted no_values (tokens_from code_bits no_values data))
        else pred.emitted no_values (tokens_from code_bits no_values data))"
  proof (rule pred.run_tokens)
    show "start_pred (1 + int (ebits TYPE('w))) False = Inr (1 + int (ebits TYPE('w)))"
      by (simp add: start_pred_def)
    show "8 \<le> 1 + int (ebits TYPE('w))" using ebits_large(1) by linarith
    show "unused st < 8" by (rule unused_less [OF st(1)])
    show "bytes_to_bits (data_bits st) =
        concat (tokens_from code_bits no_values data) @ replicate (unused st) False"
      using written_padded [OF st(1)] st(2) by simp
    show "token TYPE('w) (start_pred (1 + int (ebits TYPE('w)))) t"
      if "t \<in> set (tokens_from code_bits no_values data)" for t
      using tokens_from_all [of data "token TYPE('w) (start_pred (1 + int (ebits TYPE('w))))"]
        token_pred assms(1) that by blast
  qed simp
  ultimately show ?thesis by (simp add: last_pending_pred readings_def)
qed

text \<open>The loop of \<open>_op\<close> is the common loop: it never looks for mantissa bits.\<close>

definition op_state :: "('w word, 'w word before) decoder \<Rightarrow> bool" where
  "op_state st \<longleftrightarrow> offset_bits st = 0 \<and> bits st = [] \<or>
     0 < offset_bits st \<and> int (length (bits st)) + offset_bits st \<in> {3, int LENGTH('w)}"

lemma op_step_eq:
  assumes "op_state st"
  shows "op_step (int LENGTH('w)) decompress_bitwise num st b = op.step num st b"
    and "op.step num st b = Inr st' \<Longrightarrow> op_state st'"
proof -
  have w: "int LENGTH('w) \<noteq> 1 + int (ebits TYPE('w))" "(3 :: int) \<noteq> 1 + int (ebits TYPE('w))" "1 < int LENGTH('w)"
    using ebits_large by linarith+
  show "op_step (int LENGTH('w)) decompress_bitwise num st b = op.step num st b"
    using assms w by (cases st) (auto simp: op_state_def op_step_def decode_step_def start_pred_def Let_def)
  show "op_state st'" if "op.step num st b = Inr st'"
    using assms w that
    by (cases st) (auto simp: op_state_def decode_step_def start_pred_def Let_def store_def res_bind_Inr_iff
        split: if_splits)
qed

lemma op_run_eq:
  "op_state st \<Longrightarrow> res_fold (op_step (int LENGTH('w)) decompress_bitwise num) st bs =
     res_fold (op.step num) st bs"
proof (induction bs arbitrary: st)
  case (Cons b bs)
  then show ?case using op_step_eq [OF Cons.prems] by (auto split: sum.split)
qed simp

lemma op_result:
  assumes "\<forall>x \<in> set data. \<not> fsign x"
    and st: "bitbuf_ok st" "written st = concat (tokens_from tostr no_values data)"
  shows "run_decoder (op_step (int LENGTH('w)) decompress_bitwise (length data)) no_values (data_bits st) =
    Inr (readings tostr data)"
proof -
  let ?ts = "tokens_from tostr no_values data"
  have tok: "\<forall>t \<in> set ?ts. token TYPE('w) (start_pred (int LENGTH('w))) t"
    using tokens_from_all [of data "token TYPE('w) (start_pred (int LENGTH('w)))" tostr] token_op assms(1) by blast
  have "\<not> lazy TYPE('w) t" if "t \<in> set ?ts" for t
    using tok that ebits_large by (auto simp: token_def lazy_def start_pred_def split: if_splits)
  then have notlost: "\<not> op.last_pending ?ts" by (auto simp: op.last_pending_def)
  have "op_state (new_decoder no_values)" by (simp add: op_state_def new_decoder_def)
  then have "run_decoder (op_step (int LENGTH('w)) decompress_bitwise (length data)) no_values (data_bits st) =
      run_decoder (op.step (length data)) no_values (data_bits st)"
    by (simp add: run_decoder_def op_run_eq)
  also have "\<dots> = Inr (if unused st = 0 \<and> op.last_pending ?ts
      then butlast (op.emitted no_values ?ts) else op.emitted no_values ?ts)"
  proof (rule op.run_tokens)
    show "start_pred (int LENGTH('w)) False = Inr (int LENGTH('w))" by (simp add: start_pred_def)
    show "8 \<le> int LENGTH('w)" using width by auto
    show "unused st < 8" by (rule unused_less [OF st(1)])
    show "bytes_to_bits (data_bits st) = concat ?ts @ replicate (unused st) False"
      using written_padded [OF st(1)] st(2) by simp
  qed (use tok in simp_all)
  finally show ?thesis using notlost by (simp add: readings_def)
qed

end


section \<open>The error of numbers that are not predicted\<close>

lemma format_sizes: "ebits TYPE(64) = 11" "ebits TYPE(32) = 8"
  by (simp_all add: ebits_def)

lemma absErrorBound_value: "fval absErrorBound = 4722366482869645 * 2 powi (- 72)"
proof -
  have "fnum absErrorBound = 4722366482869645" "fquant absErrorBound = - 72" by code_simp+
  then show ?thesis by (simp only: fval_def of_int_numeral)
qed

lemma fval_fint_0: "fval (fint 0 :: 64 word) = 0" "fval (fint 0 :: 32 word) = 0"
proof -
  have "fnum (fint 0 :: 64 word) = 0" "fnum (fint 0 :: 32 word) = 0" by code_simp+
  then show "fval (fint 0 :: 64 word) = 0" "fval (fint 0 :: 32 word) = 0" by (simp_all add: fval_def)
qed

lemma negligible_small:
  assumes "negligible x" and "fval (promote x) = v" and "is_fin (promote x)"
  shows "\<bar>v\<bar> < fval absErrorBound"
proof -
  have "\<not> is_nan (promote x)" using assms(3) by (simp add: is_fin_def is_nan_def)
  moreover have "\<not> is_nan absErrorBound" by code_simp
  ultimately show ?thesis
    using assms(1,2) by (simp add: negligible_def double.flt_iff double.fval_ffabs)
qed

lemma negligible_double: "negligible (x :: 64 word) \<Longrightarrow> is_fin x \<Longrightarrow> \<bar>fval x\<bar> < fval absErrorBound"
  using negligible_small [of x "fval x"] fconv_double [of x] by (simp add: promote_def)

lemma negligible_float: "negligible (x :: 32 word) \<Longrightarrow> is_fin x \<Longrightarrow> \<bar>fval x\<bar> < fval absErrorBound"
  using negligible_small [of x "fval x"] fconv_float [of x] by (simp add: promote_def)

lemma half_bound: "2 powi (- 21) \<le> fval absErrorBound"
proof -
  have "(2 :: real) powi (- 21) = 2 powi (51 + (- 72))" by simp
  also have "\<dots> = 2 powi 51 * 2 powi (- 72)" by (rule power_int_add) simp
  also have "\<dots> \<le> 4722366482869645 * 2 powi (- 72)" by (intro mult_right_mono) simp_all
  finally show ?thesis unfolding absErrorBound_value .
qed

lemma not_predicted_start:
  "i < 3 \<Longrightarrow> i < length ds \<Longrightarrow> \<not> predicted (ds :: 64 word list) i"
  "i < 3 \<Longrightarrow> i < length fs \<Longrightarrow> \<not> predicted (fs :: 32 word list) i"
proof -
  have "unset (fint (- 1) :: 64 word)" "unset (fint (- 1) :: 32 word)" by code_simp+
  then show "i < 3 \<Longrightarrow> i < length ds \<Longrightarrow> \<not> predicted ds i" "i < 3 \<Longrightarrow> i < length fs \<Longrightarrow> \<not> predicted fs i"
    using not_predicted_first by blast+
qed

lemmas pred_functions =
  myCompress_bitwise_double_def myCompress_bitwise_def
  myCompress_bitwise_double_op_def myCompress_bitwise_op_def
  myDecompress_bitwise_double_def myDecompress_bitwise_def
  myDecompress_bitwise_double_op_def myDecompress_bitwise_op_def
  decompress_bitwise_double_def decompress_bitwise_float_def

lemma pred_double_result:
  assumes "\<forall>x \<in> set data. \<not> fsign x" and "st = myCompress_bitwise_double data empty_bitbuf"
  shows "myDecompress_bitwise_double (data_bits st) (length data) =
    Inr (if pos st = 8 \<and> double.lost_last data then butlast (double.readings code_bits data)
         else double.readings code_bits data)"
  using double.pred_result [OF assms(1), of st] truncated_double.myCompress_pred_written [of data] assms(2)
  by (simp add: pred_functions format_sizes)

lemma pred_float_result:
  assumes "\<forall>x \<in> set data. \<not> fsign x" and "st = myCompress_bitwise data empty_bitbuf"
  shows "myDecompress_bitwise (data_bits st) (length data) =
    Inr (if pos st = 8 \<and> single.lost_last data then butlast (single.readings code_bits data)
         else single.readings code_bits data)"
  using single.pred_result [OF assms(1), of st] truncated_float.myCompress_pred_written [of data] assms(2)
  by (simp add: pred_functions format_sizes)

lemma pred_double_error:
  assumes "\<forall>x \<in> set data. is_fin x" and "i < length data" and "\<not> predicted data i"
  shows "\<bar>fval (data ! i) - fval (double.readings code_bits data ! i)\<bar> \<le> fval absErrorBound"
proof (cases "negligible (data ! i)")
  case True
  then show ?thesis
    using assms double.length_code_bits negligible_double [of "data ! i"]
    by (simp add: double.reading_not_predicted format_sizes fval_fint_0)
next
  case False
  then show ?thesis
    using assms double.length_code_bits double.truncated_error [of "data ! i"] half_bound
    by (simp add: double.reading_not_predicted format_sizes flip: truncated_def)
qed

lemma pred_float_error:
  assumes "\<forall>x \<in> set data. is_fin x" and "i < length data" and "\<not> predicted data i"
  shows "\<bar>fval (data ! i) - fval (single.readings code_bits data ! i)\<bar> \<le> fval absErrorBound"
proof (cases "negligible (data ! i)")
  case True
  then show ?thesis
    using assms single.length_code_bits negligible_float [of "data ! i"]
    by (simp add: single.reading_not_predicted format_sizes fval_fint_0)
next
  case False
  then show ?thesis
    using assms single.length_code_bits single.truncated_error [of "data ! i"] half_bound
    by (simp add: single.reading_not_predicted format_sizes flip: truncated_def)
qed

section \<open>Properties\<close>

text \<open>C4: Finite doubles without a sign bit: the decoder writes exactly \<open>num\<close> numbers, unless
  the bits end with a whole byte and the last number keeps no mantissa bits; each number
  that was not predicted, among them the first three, is within the error bound.\<close>

theorem pred_double_roundtrip:
  assumes "\<forall>x \<in> set data. is_fin x \<and> \<not> fsign x"
    and "st = myCompress_bitwise_double data empty_bitbuf"
    and "pos st \<noteq> 8 \<or> kept (last data) \<noteq> 0"
  shows "\<exists>out. myDecompress_bitwise_double (data_bits st) (length data) = Inr out \<and>
    length out = length data \<and>
    (\<forall>i < length data. i < 3 \<or> \<not> predicted data i \<longrightarrow>
       \<bar>fval (data ! i) - fval (out ! i)\<bar> \<le> fval absErrorBound)"
proof (intro exI conjI allI impI)
  show "myDecompress_bitwise_double (data_bits st) (length data) = Inr (double.readings code_bits data)"
    using assms pred_double_result [of data st] by (auto simp: double.lost_last_def)
  show "\<bar>fval (data ! i) - fval (double.readings code_bits data ! i)\<bar> \<le> fval absErrorBound"
    if "i < length data" "i < 3 \<or> \<not> predicted data i" for i
    using that not_predicted_start(1) assms(1) by (intro pred_double_error) auto
qed simp

theorem pred_double_roundtrip_witness:
  "\<exists>out. myDecompress_bitwise_double
      (data_bits (myCompress_bitwise_double [0x3FF8000000000001, 0x3FF8000000000001] empty_bitbuf))
      (length [0x3FF8000000000001, 0x3FF8000000000001 :: 64 word]) = Inr out \<and>
    length out = length [0x3FF8000000000001, 0x3FF8000000000001 :: 64 word] \<and>
    (\<forall>i < length [0x3FF8000000000001, 0x3FF8000000000001 :: 64 word].
       i < 3 \<or> \<not> predicted [0x3FF8000000000001, 0x3FF8000000000001 :: 64 word] i \<longrightarrow>
       \<bar>fval ([0x3FF8000000000001, 0x3FF8000000000001 :: 64 word] ! i) - fval (out ! i)\<bar> \<le> fval absErrorBound)"
proof (rule pred_double_roundtrip [OF _ refl])
  show "\<forall>x \<in> set [0x3FF8000000000001, 0x3FF8000000000001 :: 64 word]. is_fin x \<and> \<not> fsign x" by code_simp
  have "kept (last [0x3FF8000000000001, 0x3FF8000000000001 :: 64 word]) \<noteq> 0" by code_simp
  then show "pos (myCompress_bitwise_double [0x3FF8000000000001, 0x3FF8000000000001] empty_bitbuf) \<noteq> 8 \<or>
    kept (last [0x3FF8000000000001, 0x3FF8000000000001 :: 64 word]) \<noteq> 0" ..
qed

text \<open>The same for the \<open>float\<close> functions.\<close>

theorem pred_float_roundtrip:
  assumes "\<forall>x \<in> set data. is_fin x \<and> \<not> fsign x"
    and "st = myCompress_bitwise data empty_bitbuf"
    and "pos st \<noteq> 8 \<or> kept (last data) \<noteq> 0"
  shows "\<exists>out. myDecompress_bitwise (data_bits st) (length data) = Inr out \<and>
    length out = length data \<and>
    (\<forall>i < length data. i < 3 \<or> \<not> predicted data i \<longrightarrow>
       \<bar>fval (data ! i) - fval (out ! i)\<bar> \<le> fval absErrorBound)"
proof (intro exI conjI allI impI)
  show "myDecompress_bitwise (data_bits st) (length data) = Inr (single.readings code_bits data)"
    using assms pred_float_result [of data st] by (auto simp: single.lost_last_def)
  show "\<bar>fval (data ! i) - fval (single.readings code_bits data ! i)\<bar> \<le> fval absErrorBound"
    if "i < length data" "i < 3 \<or> \<not> predicted data i" for i
    using that not_predicted_start(2) assms(1) by (intro pred_float_error) auto
qed simp

theorem pred_float_roundtrip_witness:
  "\<exists>out. myDecompress_bitwise
      (data_bits (myCompress_bitwise [0x3F800001, 0x3F800001] empty_bitbuf))
      (length [0x3F800001, 0x3F800001 :: 32 word]) = Inr out \<and>
    length out = length [0x3F800001, 0x3F800001 :: 32 word] \<and>
    (\<forall>i < length [0x3F800001, 0x3F800001 :: 32 word].
       i < 3 \<or> \<not> predicted [0x3F800001, 0x3F800001 :: 32 word] i \<longrightarrow>
       \<bar>fval ([0x3F800001, 0x3F800001 :: 32 word] ! i) - fval (out ! i)\<bar> \<le> fval absErrorBound)"
proof (rule pred_float_roundtrip [OF _ refl])
  show "\<forall>x \<in> set [0x3F800001, 0x3F800001 :: 32 word]. is_fin x \<and> \<not> fsign x" by code_simp
  have "kept (last [0x3F800001, 0x3F800001 :: 32 word]) \<noteq> 0" by code_simp
  then show "pos (myCompress_bitwise [0x3F800001, 0x3F800001] empty_bitbuf) \<noteq> 8 \<or>
    kept (last [0x3F800001, 0x3F800001 :: 32 word]) \<noteq> 0" ..
qed

text \<open>The \<open>_op\<close> codecs return exactly \<open>num\<close> numbers, whatever the bit position the stream
  ends at, and every number that was not predicted comes back unchanged, or as 0 when it is
  smaller than the error bound.\<close>

theorem op_roundtrip:
  assumes "\<forall>x \<in> set ds. \<not> fsign x" and "\<forall>x \<in> set fs. \<not> fsign x"
  shows "(\<exists>out. myDecompress_bitwise_double_op
        (data_bits (myCompress_bitwise_double_op ds empty_bitbuf)) (length ds) = Inr out \<and>
      length out = length ds \<and> (\<forall>i < length ds. i < 3 \<or> \<not> predicted ds i \<longrightarrow>
        out ! i = (if negligible (ds ! i) then fint 0 else ds ! i))) \<and>
    (\<exists>out. myDecompress_bitwise_op
        (data_bits (myCompress_bitwise_op fs empty_bitbuf)) (length fs) = Inr out \<and>
      length out = length fs \<and> (\<forall>i < length fs. i < 3 \<or> \<not> predicted fs i \<longrightarrow>
        out ! i = (if negligible (fs ! i) then fint 0 else fs ! i)))"
proof -
  have d: "myDecompress_bitwise_double_op
      (data_bits (myCompress_bitwise_double_op ds empty_bitbuf)) (length ds) = Inr (double.readings tostr ds)"
    using double.op_result [OF assms(1)] whole_double.myCompress_pred_written [of ds]
    by (simp add: pred_functions)
  have f: "myDecompress_bitwise_op
      (data_bits (myCompress_bitwise_op fs empty_bitbuf)) (length fs) = Inr (single.readings tostr fs)"
    using single.op_result [OF assms(2)] whole_float.myCompress_pred_written [of fs]
    by (simp add: pred_functions)
  have "double.readings tostr ds ! i = (if negligible (ds ! i) then fint 0 else ds ! i)"
    if "i < length ds" "i < 3 \<or> \<not> predicted ds i" for i
    using that not_predicted_start(1) by (auto simp: double.reading_not_predicted fill_middle_def)
  moreover have "single.readings tostr fs ! i = (if negligible (fs ! i) then fint 0 else fs ! i)"
    if "i < length fs" "i < 3 \<or> \<not> predicted fs i" for i
    using that not_predicted_start(2) by (auto simp: single.reading_not_predicted fill_middle_def)
  ultimately show ?thesis using d f by simp
qed

theorem op_roundtrip_witness:
  "\<exists>out. myDecompress_bitwise_double_op
      (data_bits (myCompress_bitwise_double_op [0x3FF8000000000001] empty_bitbuf))
      (length [0x3FF8000000000001 :: 64 word]) = Inr out"
proof -
  have "\<forall>x \<in> set [0x3FF8000000000001 :: 64 word]. \<not> fsign x" "\<forall>x \<in> set ([] :: 32 word list). \<not> fsign x"
    by code_simp+
  from op_roundtrip [OF this] show ?thesis by blast
qed

text \<open>When the stream ends with a whole byte and the last number is sent without mantissa
  bits, the decoders with prediction never write the last number either.\<close>

theorem pred_loses_last:
  assumes "\<forall>x \<in> set ds. \<not> fsign x" and "ds \<noteq> []"
    and "\<not> negligible (last ds)" and "\<not> predicted ds (length ds - 1)" and "kept (last ds) = 0"
    and "st = myCompress_bitwise_double ds empty_bitbuf" and "pos st = 8"
  shows "\<exists>out. myDecompress_bitwise_double (data_bits st) (length ds) = Inr out \<and>
    length out = length ds - 1"
  using pred_double_result [OF assms(1,6)] assms by (simp add: double.lost_last_def)

theorem pred_loses_last_witness:
  "\<exists>out. myDecompress_bitwise_double
      (data_bits (myCompress_bitwise_double [0x3EB92A737110E454, 0x3EB92A737110E454] empty_bitbuf))
      (length [0x3EB92A737110E454, 0x3EB92A737110E454 :: 64 word]) = Inr out \<and>
    length out = length [0x3EB92A737110E454, 0x3EB92A737110E454 :: 64 word] - 1"
proof (rule pred_loses_last [OF _ _ _ _ _ refl])
  show "\<not> predicted [0x3EB92A737110E454, 0x3EB92A737110E454 :: 64 word]
      (length [0x3EB92A737110E454, 0x3EB92A737110E454 :: 64 word] - 1)"
    by (rule not_predicted_start(1)) simp_all
  show "\<forall>x \<in> set [0x3EB92A737110E454, 0x3EB92A737110E454 :: 64 word]. \<not> fsign x"
    "\<not> negligible (last [0x3EB92A737110E454, 0x3EB92A737110E454 :: 64 word])"
    "kept (last [0x3EB92A737110E454, 0x3EB92A737110E454 :: 64 word]) = 0"
    "pos (myCompress_bitwise_double [0x3EB92A737110E454, 0x3EB92A737110E454] empty_bitbuf) = 8"
    by code_simp+
qed simp

text \<open>The encoder predicts from the numbers themselves, the decoder from what it has read.
  The errors add up: of these four numbers the last one, predicted without error by the
  encoder, comes back with more than three times the error bound.\<close>

theorem pred_errors_add_up:
  "\<exists>out. myDecompress_bitwise_double (data_bits (myCompress_bitwise_double
      [0x3FD0000000000000, 0x3FF00000FFFFF000, 0x4000000000000000, 0x4009FFFE80001800] empty_bitbuf)) 4 = Inr out \<and>
    fval (out ! 3) - fval (0x4009FFFE80001800 :: 64 word) > 3 * fval absErrorBound"
proof -
  have out: "myDecompress_bitwise_double (data_bits (myCompress_bitwise_double
      [0x3FD0000000000000, 0x3FF00000FFFFF000, 0x4000000000000000, 0x4009FFFE80001800] empty_bitbuf)) 4 =
      Inr [0x3FD0000200000000, 0x3FF0000080000000, 0x4000000040000000, 0x400A000040000000]" by code_simp
  have "fnum (0x400A000040000000 :: 64 word) = 7318350468218880" "fquant (0x400A000040000000 :: 64 word) = - 51"
    "fnum (0x4009FFFE80001800 :: 64 word) = 7318342952032256" "fquant (0x4009FFFE80001800 :: 64 word) = - 51"
    by code_simp+
  then have "fval (0x400A000040000000 :: 64 word) - fval (0x4009FFFE80001800 :: 64 word) = 7516186624 * 2 powi (- 51)"
    by (simp only: fval_def of_int_numeral flip: left_diff_distrib) simp
  moreover have "(2 :: real) powi (- 51) = 2 powi 21 * 2 powi (- 72)"
    using power_int_add [of "2 :: real" 21 "- 72"] by simp
  ultimately have "fval (0x400A000040000000 :: 64 word) - fval (0x4009FFFE80001800 :: 64 word) > 3 * fval absErrorBound"
    unfolding absErrorBound_value by (simp only: mult.assoc [symmetric], intro mult_strict_right_mono) simp_all
  then show ?thesis using out by simp
qed

text \<open>A number with a sign bit begins with the bit of a prediction code; the decoder loses
  step and, here, writes past the end of its array.\<close>

theorem pred_sign_overflows:
  "myDecompress_bitwise_double (data_bits (myCompress_bitwise_double [0xBFF0000000000000] empty_bitbuf)) 1 =
     Inl OutOfBounds"
  by code_simp

text \<open>The compressed data of the codecs with prediction is never longer than the data.\<close>

theorem pred_never_expands:
  "bytes (myCompress_bitwise_double ds empty_bitbuf) \<le> 8 * length ds \<and>
   bytes (myCompress_bitwise fs empty_bitbuf) \<le> 4 * length fs \<and>
   bytes (myCompress_bitwise_double_op ds empty_bitbuf) \<le> 8 * length ds \<and>
   bytes (myCompress_bitwise_op fs empty_bitbuf) \<le> 4 * length fs"
proof -
  have d: "8 * bytes (myCompress_bitwise_double ds empty_bitbuf) \<le> 64 * length ds + 7"
    using truncated_double.pred_size [of 64 ds] double.length_code_bits_upto by (simp add: pred_functions)
  have f: "8 * bytes (myCompress_bitwise fs empty_bitbuf) \<le> 32 * length fs + 7"
    using truncated_float.pred_size [of 32 fs] single.length_code_bits_upto by (simp add: pred_functions)
  have "8 * bytes (myCompress_bitwise_double_op ds empty_bitbuf) \<le> 64 * length ds + 7"
    "8 * bytes (myCompress_bitwise_op fs empty_bitbuf) \<le> 32 * length fs + 7"
    using whole_double.pred_size [of 64 ds] whole_float.pred_size [of 32 fs] by (simp_all add: pred_functions)
  with d f show ?thesis by linarith
qed

end
