(* ===== verification/MaskCodec.thy ===== *)
theory MaskCodec
  imports
  PredCodec
begin

unbundle bit_operations_syntax

text \<open>
  The bitmask codec of \<open>app/src/dataCompression.c\<close> (the functions whose names end in
  \<open>_mask\<close>).  The mask is the sign, the exponent and eight mantissa bits of a typical number
  of the data; a number that agrees with it in sign and exponent is sent with a short
  prefix instead of them: a 0, \<open>type\<close> times a 1, and a bit that says whether the eight
  mantissa bits are left out too.
\<close>

section \<open>The code\<close>

definition mask_length :: "'w::len itself \<Rightarrow> nat" where
  "mask_length T = 1 + ebits T + 8"

definition put_prefix :: "nat \<Rightarrow> bool \<Rightarrow> bitbuf \<Rightarrow> bitbuf" where
  "put_prefix type b st =
     add_bit_to_bytes (foldl (\<lambda>st _. add_bit_to_bytes st 1) (add_bit_to_bytes st 0) [0..<type]) (of_bool b)"

definition compress_bitwise_mask :: "nat \<Rightarrow> bool list \<Rightarrow> bitbuf \<Rightarrow> 'w::len word \<Rightarrow> bitbuf" where
  "compress_bitwise_mask type msk st real_value =
     (let arr = tostr real_value;
          bits_after_compress =
            1 + ebits TYPE('w) + nat (mantissa_bits_within_error_bound TYPE('w) arr);
          masked = list_all (\<lambda>i. arr ! i = msk ! i) [0..<1 + ebits TYPE('w)];
          error = \<not> list_all (\<lambda>i. arr ! i = msk ! i) [1 + ebits TYPE('w)..<mask_length TYPE('w)]
      in if masked then
           (if \<not> error then put_bits arr [mask_length TYPE('w)..<bits_after_compress] (put_prefix type False st)
            else put_bits arr [1 + ebits TYPE('w)..<bits_after_compress] (put_prefix type True st))
         else put_bits arr [0..<bits_after_compress] st)"

definition compress_bitwise_double_mask :: "nat \<Rightarrow> bool list \<Rightarrow> bitbuf \<Rightarrow> 64 word \<Rightarrow> bitbuf" where
  "compress_bitwise_double_mask = compress_bitwise_mask"

definition compress_bitwise_float_mask :: "nat \<Rightarrow> bool list \<Rightarrow> bitbuf \<Rightarrow> 32 word \<Rightarrow> bitbuf" where
  "compress_bitwise_float_mask = compress_bitwise_mask"

definition myCompress_bitwise_double_mask ::
  "64 word list \<Rightarrow> nat \<Rightarrow> bool list \<Rightarrow> bitbuf \<Rightarrow> bitbuf" where
  "myCompress_bitwise_double_mask data type msk st =
     myCompress_pred (compress_bitwise_double_mask type msk) data st"

definition myCompress_bitwise_mask :: "32 word list \<Rightarrow> nat \<Rightarrow> bool list \<Rightarrow> bitbuf \<Rightarrow> bitbuf" where
  "myCompress_bitwise_mask data type msk st =
     myCompress_pred (compress_bitwise_float_mask type msk) data st"

text \<open>
  The number is put together in an array of as many characters as it has bits; the 1 that
  follows the bits received is written without asking whether it still fits.
\<close>

definition patch :: "bool list \<Rightarrow> 'w::len word result" where
  "patch arr =
     (if length arr < LENGTH('w)
      then Inr (strto (arr @ [True] @ replicate (LENGTH('w) - (length arr + 1)) False))
      else Inl OutOfBounds)"

definition decompress_bitwise_mask ::
  "nat \<Rightarrow> bool list \<Rightarrow> bool list \<Rightarrow> 'w::len word before \<Rightarrow> 'w word result" where
  "decompress_bitwise_mask type msk arr h =
     (if length arr = 3 \<and> arr ! 0 then
        if \<not> arr ! 1 \<and> \<not> arr ! 2 then Inr (fint 0)
        else if \<not> arr ! 1 \<and> arr ! 2 then Inr (before_value1 h)
        else if arr ! 1 \<and> \<not> arr ! 2 then Inr (predict_value2 h)
        else Inr (predict_value3 h)
      else if length arr = LENGTH('w) then Inr (strto arr)
      else if list_all (\<lambda>n. arr ! n) [1..<type + 1] then
        patch ((if \<not> arr ! (type + 1) then take (mask_length TYPE('w)) msk
                else take (1 + ebits TYPE('w)) msk) @ drop (1 + type + 1) arr)
      else patch arr)"

definition decompress_bitwise_double_mask ::
  "nat \<Rightarrow> bool list \<Rightarrow> bool list \<Rightarrow> 64 word before \<Rightarrow> 64 word result" where
  "decompress_bitwise_double_mask = decompress_bitwise_mask"

definition decompress_bitwise_float_mask ::
  "nat \<Rightarrow> bool list \<Rightarrow> bool list \<Rightarrow> 32 word before \<Rightarrow> 32 word result" where
  "decompress_bitwise_float_mask = decompress_bitwise_mask"

text \<open>The decoder remembers that it has to look whether a prefix is the one of the mask.\<close>

record ('v, 'h) mask_decoder = "('v, 'h) decoder" +
  pending :: bool

definition mask_begin ::
  "nat \<Rightarrow> ('w::len word, 'w word before) mask_decoder \<Rightarrow> bool \<Rightarrow> ('w word, 'w word before) mask_decoder" where
  "mask_begin type st b =
     (if \<not> b then st\<lparr>pending := True, offset_bits := 1 + int type\<rparr> else st\<lparr>offset_bits := 3\<rparr>)"

definition mask_field ::
  "(bool list \<Rightarrow> 'w::len word before \<Rightarrow> 'w word result) \<Rightarrow> nat \<Rightarrow> bool list \<Rightarrow> nat \<Rightarrow>
   ('w word, 'w word before) mask_decoder \<Rightarrow> bool \<Rightarrow> ('w word, 'w word before) mask_decoder result" where
  "mask_field decompress type msk num st b =
     (let bits_num = length (bits st); E = 1 + ebits TYPE('w) in
      if bits_num = 0 then Inr (mask_begin type st b)
      else if pending st then
        Inr (st\<lparr>pending := False,
                offset_bits := (if list_all (\<lambda>n. bits st ! n) [1..<type + 1] then 1
                                else int (ebits TYPE('w)) - int type)\<rparr>)
      else if bits_num = E \<or> bits_num = 1 + type + 1 then
        (let m = mantissa_bits_within_error_bound TYPE('w) (if bits_num = E then bits st else msk)
         in if m > 0 then
              Inr (st\<lparr>offset_bits :=
                     (if bits_num = 1 + type + 1 \<and> \<not> bits st ! (bits_num - 1) then m - 8 else m)\<rparr>)
            else res_bind (store decompress push_value num (st\<lparr>offset_bits := m\<rparr>))
              (\<lambda>st. Inr (mask_begin type (st\<lparr>pending := False\<rparr>) b)))
      else Inl ExitFailure)"

definition mask_step ::
  "(bool list \<Rightarrow> 'w::len word before \<Rightarrow> 'w word result) \<Rightarrow> nat \<Rightarrow> bool list \<Rightarrow> nat \<Rightarrow>
   ('w word, 'w word before) mask_decoder \<Rightarrow> bool \<Rightarrow> ('w word, 'w word before) mask_decoder result" where
  "mask_step decompress type msk num st b =
     res_bind (if offset_bits st = 0 then mask_field decompress type msk num st b else Inr st) (\<lambda>st.
       let st = st\<lparr>bits := bits st @ [b], offset_bits := offset_bits st - 1\<rparr>
       in if offset_bits st = 0 \<and> length (bits st) \<noteq> 1 + ebits TYPE('w) \<and>
             length (bits st) \<noteq> 1 + type + 1 \<and> \<not> pending st
          then store decompress push_value num st
          else Inr st)"

definition new_mask_decoder :: "('w::len word, 'w word before) mask_decoder" where
  "new_mask_decoder =
     \<lparr>offset_bits = 0, bits = [], history = no_values, decompressed = [], pending = False\<rparr>"

definition run_mask_decoder ::
  "(('w::len word, 'w word before) mask_decoder \<Rightarrow> bool \<Rightarrow> ('w word, 'w word before) mask_decoder result) \<Rightarrow>
   byte list \<Rightarrow> 'w word list result" where
  "run_mask_decoder step packed =
     res_bind (res_fold step new_mask_decoder (bytes_to_bits packed)) (\<lambda>st. Inr (decompressed st))"

definition myDecompress_bitwise_double_mask ::
  "byte list \<Rightarrow> nat \<Rightarrow> nat \<Rightarrow> bool list \<Rightarrow> 64 word list result" where
  "myDecompress_bitwise_double_mask packed num type msk =
     run_mask_decoder (mask_step (decompress_bitwise_double_mask type msk) type msk num) packed"

definition myDecompress_bitwise_mask ::
  "byte list \<Rightarrow> nat \<Rightarrow> nat \<Rightarrow> bool list \<Rightarrow> 32 word list result" where
  "myDecompress_bitwise_mask packed num type msk =
     run_mask_decoder (mask_step (decompress_bitwise_float_mask type msk) type msk num) packed"

section \<open>What the encoder sends\<close>

definition masked_by :: "bool list \<Rightarrow> 'w::len word \<Rightarrow> bool" where
  "masked_by msk x \<longleftrightarrow> take (1 + ebits TYPE('w)) (tostr x) = take (1 + ebits TYPE('w)) msk"

definition full_match :: "bool list \<Rightarrow> 'w::len word \<Rightarrow> bool" where
  "full_match msk x \<longleftrightarrow> take (mask_length TYPE('w)) (tostr x) = take (mask_length TYPE('w)) msk"

definition mask_bits :: "nat \<Rightarrow> bool list \<Rightarrow> 'w::len word \<Rightarrow> bool list" where
  "mask_bits type msk x =
     (if \<not> masked_by msk x then code_bits x
      else if full_match msk x
      then False # replicate type True @ False # drop (mask_length TYPE('w)) (code_bits x)
      else False # replicate type True @ True # drop (1 + ebits TYPE('w)) (code_bits x))"

lemma put_prefix_written:
  assumes "bitbuf_ok st"
  shows "bitbuf_ok (put_prefix type b st) \<and>
    written (put_prefix type b st) = written st @ False # replicate type True @ [b]"
proof -
  have "foldl (\<lambda>st _. add_bit_to_bytes st 1) st' [0..<type] =
      foldl (\<lambda>st b. add_bit_to_bytes st (of_bool b)) st' (replicate type True)" for st'
    by (induction type) (simp_all add: replicate_append_same [symmetric])
  then have "put_prefix type b st = put_code st (False # replicate type True @ [b])"
    by (simp only: put_prefix_def put_code_def foldl_Cons foldl_append foldl_Nil of_bool_eq)
  then show ?thesis using put_code_written [OF assms] by simp
qed

lemma take_eq_nth:
  assumes "n \<le> length xs" and "n \<le> length ys"
  shows "take n xs = take n ys \<longleftrightarrow> list_all (\<lambda>i. xs ! i = ys ! i) [0..<n]"
  using assms by (auto simp: list_all_iff list_eq_iff_nth_eq)

context ieee_format
begin

lemma mask_length_le: "mask_length TYPE('w) \<le> LENGTH('w)"
  using width by (auto simp: mask_length_def ebits_def)

lemma put_rest_written:
  assumes "bitbuf_ok st" and "n \<le> LENGTH('w)"
  shows "bitbuf_ok (put_bits (tostr x) [n..<1 + ebits TYPE('w) + kept x] st) \<and>
    written (put_bits (tostr x) [n..<1 + ebits TYPE('w) + kept x] st) =
      written st @ drop n (code_bits (x :: 'w word))"
proof -
  have "map ((!) (tostr x)) [n..<1 + ebits TYPE('w) + kept x] = drop n (code_bits x)"
    by (rule nth_equalityI) (simp_all add: length_code_bits nth_code_bits del: upt_Suc)
  then show ?thesis using put_bits_written [OF assms(1), of "tostr x"] by simp
qed

lemma masked_by_nth:
  assumes "length msk = mask_length TYPE('w)"
  shows "list_all (\<lambda>i. tostr (x :: 'w word) ! i = msk ! i) [0..<1 + ebits TYPE('w)] \<longleftrightarrow> masked_by msk x"
    and "masked_by msk x \<Longrightarrow>
      list_all (\<lambda>i. tostr x ! i = msk ! i) [1 + ebits TYPE('w)..<mask_length TYPE('w)] \<longleftrightarrow> full_match msk x"
proof -
  have le: "1 + ebits TYPE('w) \<le> mask_length TYPE('w)" by (simp add: mask_length_def)
  show m: "list_all (\<lambda>i. tostr x ! i = msk ! i) [0..<1 + ebits TYPE('w)] \<longleftrightarrow> masked_by msk x"
    unfolding masked_by_def using assms le mask_length_le by (intro take_eq_nth [symmetric]) simp_all
  have f: "full_match msk x \<longleftrightarrow> list_all (\<lambda>i. tostr x ! i = msk ! i) [0..<mask_length TYPE('w)]"
    unfolding full_match_def using assms mask_length_le by (intro take_eq_nth) simp_all
  show "list_all (\<lambda>i. tostr x ! i = msk ! i) [1 + ebits TYPE('w)..<mask_length TYPE('w)] \<longleftrightarrow> full_match msk x"
    if "masked_by msk x"
    using that unfolding f m [symmetric] mask_length_def upt_add_eq_append [OF le0] by simp
qed

lemma compress_bitwise_mask_written:
  assumes "length msk = mask_length TYPE('w)" and "bitbuf_ok st"
  shows "bitbuf_ok (compress_bitwise_mask type msk st (x :: 'w word)) \<and>
    written (compress_bitwise_mask type msk st x) = written st @ mask_bits type msk x"
proof -
  have le: "1 + ebits TYPE('w) \<le> LENGTH('w)" using mask_length_le by (simp add: mask_length_def)
  have eq: "compress_bitwise_mask type msk st x =
      (if masked_by msk x then
         (if full_match msk x
          then put_bits (tostr x) [mask_length TYPE('w)..<1 + ebits TYPE('w) + kept x] (put_prefix type False st)
          else put_bits (tostr x) [1 + ebits TYPE('w)..<1 + ebits TYPE('w) + kept x] (put_prefix type True st))
       else put_bits (tostr x) [0..<1 + ebits TYPE('w) + kept x] st)"
    unfolding compress_bitwise_mask_def Let_def kept_def [symmetric]
    using masked_by_nth [OF assms(1), of x] by (simp only: not_not cong: if_cong)
  note p = put_prefix_written [OF assms(2), of type]
  show ?thesis
    unfolding eq mask_bits_def
    using put_rest_written [OF assms(2), of 0 x]
      put_rest_written [OF conjunct1 [OF p [of False]] mask_length_le, of x]
      put_rest_written [OF conjunct1 [OF p [of True]] le, of x] p by simp
qed

end

section \<open>The decoder reads one number after the other\<close>

text \<open>
  What \<open>type\<close> and the mask have to meet for the prefix to be told apart from the other
  codes: a prefix is longer than a prediction code and shorter than sign and exponent; the
  bits after it are neither none nor so many that the whole has the length of sign and
  exponent, and there is room for the bit written after them.
\<close>

definition mask_fits :: "'w::len itself \<Rightarrow> nat \<Rightarrow> bool list \<Rightarrow> bool" where
  "mask_fits T type msk \<longleftrightarrow> 2 \<le> type \<and> type + 2 \<le> ebits T \<and> length msk = mask_length T \<and>
     9 \<le> mant T msk \<and> mant T msk < int (mbits T) \<and>
     int type + 1 + mant T msk \<noteq> int (ebits T) \<and> int type + mant T msk \<noteq> 7 + int (ebits T)"

definition all_ones :: "nat \<Rightarrow> bool list \<Rightarrow> bool" where
  "all_ones type arr = list_all (\<lambda>n. arr ! n) [1..<type + 1]"

definition mask_ready ::
  "nat \<Rightarrow> bool list \<Rightarrow> 'w::len word before \<Rightarrow> 'w word list \<Rightarrow> ('w word, 'w word before) mask_decoder \<Rightarrow> bool" where
  "mask_ready type msk h out st \<longleftrightarrow> offset_bits st = 0 \<and> \<not> pending st \<and>
     (bits st = [] \<and> history st = h \<and> decompressed st = out \<or>
      length (bits st) = 1 + ebits TYPE('w) \<and> mant TYPE('w) (bits st) = 0 \<and>
      (\<exists>v. decompress_bitwise_mask type msk (bits st) (history st) = Inr v \<and>
         h = push_value (history st) v \<and> out = decompressed st @ [v]))"

definition header_state ::
  "nat \<Rightarrow> 'w::len word before \<Rightarrow> 'w word list \<Rightarrow> bool list \<Rightarrow> ('w word, 'w word before) mask_decoder" where
  "header_state type h out bs =
     \<lparr>offset_bits = (if length bs \<le> 1 + type then 1 + int type else 1 + int (ebits TYPE('w))) - int (length bs),
      bits = bs, history = h, decompressed = out, pending = (length bs \<le> 1 + type)\<rparr>"

context ieee_format
begin

abbreviation "mstep type msk num \<equiv> mask_step (decompress_bitwise_mask type msk) type msk num"

lemma mask_first_bit:
  fixes h :: "'w word before"
  assumes "mask_fits TYPE('w) type msk" and "mask_ready type msk h out st" and "length out \<le> num"
  shows "mstep type msk num st b = Inr (if b
    then \<lparr>offset_bits = 2, bits = [True], history = h, decompressed = out, pending = False\<rparr>
    else header_state type h out [False])"
proof -
  have t: "2 \<le> type" "type + 2 \<le> ebits TYPE('w)" using assms(1) by (simp_all add: mask_fits_def)
  from assms(2) consider
      (clean) "offset_bits st = 0" "\<not> pending st" "bits st = []" "history st = h" "decompressed st = out"
    | (lazy) v where "offset_bits st = 0" "\<not> pending st" "length (bits st) = 1 + ebits TYPE('w)"
        "mant TYPE('w) (bits st) = 0" "decompress_bitwise_mask type msk (bits st) (history st) = Inr v"
        "h = push_value (history st) v" "out = decompressed st @ [v]"
    by (auto simp: mask_ready_def)
  then show ?thesis
  proof cases
    case clean
    then show ?thesis using t
      by (cases st) (auto simp: mask_step_def mask_field_def mask_begin_def header_state_def Let_def)
  next
    case lazy
    have "mask_field (decompress_bitwise_mask type msk) type msk num st b =
        Inr (mask_begin type (st\<lparr>bits := [], history := h, decompressed := out, pending := False, offset_bits := 0\<rparr>) b)"
      using lazy assms(3) by (cases st) (auto simp: mask_field_def store_def Let_def)
    then show ?thesis using t lazy(1)
      by (cases st) (auto simp: mask_step_def mask_begin_def header_state_def Let_def)
  qed
qed

lemma all_ones_append: "type < length xs \<Longrightarrow> all_ones type (xs @ ys) = all_ones type xs"
  by (auto simp: all_ones_def list_all_iff nth_append)

lemma mask_header:
  fixes h :: "'w word before"
  assumes "mask_fits TYPE('w) type msk" and "mask_ready type msk h out st" and "length out \<le> num"
    and "length bs \<le> ebits TYPE('w)" and "length bs \<le> type \<or> \<not> all_ones type (False # bs)"
  shows "res_fold (mstep type msk num) st (False # bs) = Inr (header_state type h out (False # bs))"
  using assms(4,5)
proof (induction bs rule: rev_induct)
  case Nil
  show ?case using mask_first_bit [OF assms(1-3), of False] by simp
next
  case (snoc b bs)
  have t: "2 \<le> type" "type + 2 \<le> ebits TYPE('w)" using assms(1) by (simp_all add: mask_fits_def)
  have ones: "length bs \<le> type \<or> \<not> all_ones type (False # bs)" and
    here: "length bs = type \<Longrightarrow> \<not> all_ones type (False # bs)"
    using snoc.prems(2) all_ones_append [of type "False # bs" "[b]"] by auto
  have IH: "res_fold (mstep type msk num) st (False # bs) = Inr (header_state type h out (False # bs))"
    using snoc.IH snoc.prems ones by simp
  have "mstep type msk num (header_state type h out (False # bs)) b =
      Inr (header_state type h out (False # bs @ [b]))"
  proof (cases "length bs = type")
    case True
    then show ?thesis using t here
      by (auto simp: header_state_def mask_step_def mask_field_def Let_def all_ones_def)
  next
    case False
    then show ?thesis using t snoc.prems(1)
      by (auto simp: header_state_def mask_step_def Let_def)
  qed
  then show ?case using IH res_fold_append_Inr [OF IH, of "[b]"] by simp
qed

lemma mask_collect:
  assumes "xs \<noteq> []" and "offset_bits st = int (length xs)" and "\<not> pending st"
    and "length (bits st) + length xs \<noteq> 1 + ebits TYPE('w)" and "length (bits st) + length xs \<noteq> type + 2"
  shows "res_fold (mstep type msk num) (st :: ('w word, 'w word before) mask_decoder) xs =
    store (decompress_bitwise_mask type msk) push_value num (st\<lparr>offset_bits := 0, bits := bits st @ xs\<rparr>)"
  using assms
proof (induction xs arbitrary: st)
  case (Cons x xs)
  show ?case
  proof (cases "xs = []")
    case True
    then show ?thesis using Cons.prems
      by (cases st) (auto simp: mask_step_def Let_def split: sum.split)
  next
    case False
    then have "mstep type msk num st x = Inr (st\<lparr>offset_bits := int (length xs), bits := bits st @ [x]\<rparr>)"
      using Cons.prems by (simp add: mask_step_def Let_def)
    then show ?thesis using Cons.IH [OF False] Cons.prems by simp
  qed
qed simp

text \<open>The mantissa bits, whose number is only asked for when the first of them arrives.\<close>

lemma mask_rest:
  fixes h :: "'w word before"
  assumes "xs \<noteq> []" and "length (arr @ xs) \<noteq> 1 + ebits TYPE('w)" and "length (arr @ xs) \<noteq> type + 2"
    and "mask_field (decompress_bitwise_mask type msk) type msk num
      \<lparr>offset_bits = 0, bits = arr, history = h, decompressed = out, pending = False\<rparr> (hd xs) =
      Inr \<lparr>offset_bits = int (length xs), bits = arr, history = h, decompressed = out, pending = False\<rparr>"
    and "decompress_bitwise_mask type msk (arr @ xs) h = Inr v" and "length out < num"
  shows "res_fold (mstep type msk num)
      \<lparr>offset_bits = 0, bits = arr, history = h, decompressed = out, pending = False\<rparr> xs =
    Inr \<lparr>offset_bits = 0, bits = [], history = push_value h v, decompressed = out @ [v], pending = False\<rparr>"
    (is "res_fold _ ?st xs = _")
proof -
  obtain x ys where xs: "xs = x # ys" using assms(1) by (cases xs) auto
  let ?st' = "?st\<lparr>offset_bits := int (length xs)\<rparr>"
  have "mstep type msk num ?st x = mstep type msk num ?st' x"
    using assms(4) by (simp add: mask_step_def xs)
  then have "res_fold (mstep type msk num) ?st xs = res_fold (mstep type msk num) ?st' xs"
    by (simp only: xs res_fold.simps)
  also have "\<dots> = store (decompress_bitwise_mask type msk) push_value num (?st'\<lparr>offset_bits := 0, bits := arr @ xs\<rparr>)"
    using mask_collect [of xs ?st' type msk num] assms(1-3) by simp
  also have "\<dots> = Inr \<lparr>offset_bits = 0, bits = [], history = push_value h v, decompressed = out @ [v], pending = False\<rparr>"
    using assms(5,6) by (simp add: store_def)
  finally show ?thesis .
qed

lemma patch_code_bits:
  "kept x < mbits TYPE('w) \<Longrightarrow> patch (code_bits x) = Inr (truncated (x :: 'w word))"
  using length_code_bits [of x] widths(1) by (simp add: patch_def truncated_def fill_middle_def)

lemma mask_code:
  fixes h :: "'w word before"
  assumes "mask_fits TYPE('w) type msk" and "mask_ready type msk h out st" and "length out < num"
  shows "res_fold (mstep type msk num) st [True, b, c] =
    Inr \<lparr>offset_bits = 0, bits = [], history = push_value h (value_pred [True, b, c] h),
      decompressed = out @ [value_pred [True, b, c] h], pending = False\<rparr>"
proof -
  have t: "2 \<le> type" using assms(1) by (simp add: mask_fits_def)
  have "mstep type msk num st True =
      Inr \<lparr>offset_bits = 2, bits = [True], history = h, decompressed = out, pending = False\<rparr>"
    using mask_first_bit [OF assms(1,2)] assms(3) by simp
  moreover have "decompress_bitwise_mask type msk [True, b, c] h = Inr (value_pred [True, b, c] h)"
    by (simp add: decompress_bitwise_mask_def value_pred_def)
  ultimately show ?thesis
    using mask_collect [of "[b, c]" "\<lparr>offset_bits = 2, bits = [True], history = h, decompressed = out, pending = False\<rparr>"]
      t ebits_large(1) assms(3) by (simp add: store_def)
qed

lemma all_ones_code_bits:
  "type \<le> ebits TYPE('w) \<Longrightarrow> all_ones type (code_bits x) = all_ones type (tostr (x :: 'w word))"
  by (auto simp: all_ones_def list_all_iff nth_code_bits)

lemma decompress_raw:
  assumes "mask_fits TYPE('w) type msk" and "\<not> all_ones type (tostr (x :: 'w word))"
  shows "decompress_bitwise_mask type msk (code_bits x) h = Inr (truncated x)"
proof -
  have t: "type \<le> ebits TYPE('w)" using assms(1) by (simp add: mask_fits_def)
  have k: "kept x \<le> mbits TYPE('w)" unfolding kept_def
    using mant_bounds(2) [of "TYPE('w)" "tostr x"] by linarith
  have no: "\<not> all_ones type (code_bits x)" using all_ones_code_bits [OF t] assms(2) by simp
  show ?thesis
  proof (cases "kept x = mbits TYPE('w)")
    case True
    then show ?thesis using length_code_bits [of x] ebits_large
      by (simp add: decompress_bitwise_mask_def truncated_def fill_middle_def widths(1))
  next
    case False
    then have "length (code_bits x) \<noteq> LENGTH('w)" "length (code_bits x) \<noteq> 3"
      using length_code_bits [of x] k ebits_large(1) widths(1) by linarith+
    then have "decompress_bitwise_mask type msk (code_bits x) h = patch (code_bits x)"
      using no by (simp add: decompress_bitwise_mask_def all_ones_def)
    then show ?thesis using patch_code_bits [of x] False k by simp
  qed
qed

definition token_read ::
  "nat \<Rightarrow> bool list \<Rightarrow> 'w word before \<Rightarrow> 'w word list \<Rightarrow> 'w word \<Rightarrow> bool \<Rightarrow>
   ('w word, 'w word before) mask_decoder result \<Rightarrow> bool" where
  "token_read type msk h out v now r \<longleftrightarrow>
     (\<exists>st. r = Inr st \<and> mask_ready type msk (push_value h v) (out @ [v]) st \<and>
       (now \<longrightarrow> decompressed st = out @ [v]))"

lemma mask_raw:
  fixes h :: "'w word before"
  assumes fits: "mask_fits TYPE('w) type msk" and r: "mask_ready type msk h out st" and n: "length out < num"
    and x: "\<not> fsign x" "\<not> all_ones type (tostr x)"
  shows "token_read type msk h out (truncated x) (kept x \<noteq> 0) (res_fold (mstep type msk num) st (code_bits x))"
proof -
  have t: "2 \<le> type" "type + 2 \<le> ebits TYPE('w)" using fits by (simp_all add: mask_fits_def)
  define hd' where "hd' = take (1 + ebits TYPE('w)) (code_bits x)"
  define xs where "xs = drop (1 + ebits TYPE('w)) (code_bits x)"
  have split: "code_bits x = hd' @ xs" and len: "length hd' = 1 + ebits TYPE('w)" "length xs = kept x"
    by (simp_all add: hd'_def xs_def length_code_bits)
  have "hd' = False # take (ebits TYPE('w)) (tl (code_bits x))"
    unfolding hd'_def by (subst hd_code_bits) (simp add: x(1))
  then obtain bs where hd': "hd' = False # bs" "length bs = ebits TYPE('w)" using len(1) by simp
  have "\<not> all_ones type hd'"
    using all_ones_code_bits [of type x] all_ones_append [of type hd' xs] x(2) t len(1) by (simp add: split)
  then have header: "res_fold (mstep type msk num) st hd' = Inr
      \<lparr>offset_bits = 0, bits = hd', history = h, decompressed = out, pending = False\<rparr>"
    using mask_header [OF fits r, of num bs] n hd' t by (simp add: header_state_def)
  have mant: "mant TYPE('w) hd' = int (kept x)"
    using take_code_bits [of x] by (intro mant_header) (simp add: hd'_def)
  have val: "decompress_bitwise_mask type msk (hd' @ xs) h = Inr (truncated x)"
    using decompress_raw [OF fits x(2), of h] by (simp add: split)
  show ?thesis
  proof (cases "xs = []")
    case True
    then show ?thesis using header val mant len
      by (simp add: token_read_def split mask_ready_def)
  next
    case False
    then have "0 < kept x" by (simp flip: len(2))
    then have "res_fold (mstep type msk num)
        \<lparr>offset_bits = 0, bits = hd', history = h, decompressed = out, pending = False\<rparr> xs =
      Inr \<lparr>offset_bits = 0, bits = [], history = push_value h (truncated x),
        decompressed = out @ [truncated x], pending = False\<rparr>"
      using False len mant t val n
      by (intro mask_rest) (auto simp: mask_field_def Let_def)
    then show ?thesis using header by (simp add: token_read_def split mask_ready_def)
  qed
qed

lemma mask_masked:
  fixes h :: "'w word before"
  assumes fits: "mask_fits TYPE('w) type msk" and r: "mask_ready type msk h out st" and n: "length out < num"
    and e: "take skip (tostr x) = take skip msk"
    and skip: "skip = (if e then 1 + ebits TYPE('w) else mask_length TYPE('w))"
  shows "token_read type msk h out (truncated x) True
    (res_fold (mstep type msk num) st (False # replicate type True @ e # drop skip (code_bits x)))"
proof -
  have t: "2 \<le> type" "type + 2 \<le> ebits TYPE('w)" using fits by (simp_all add: mask_fits_def)
  have le: "1 + ebits TYPE('w) \<le> skip" by (simp add: skip mask_length_def)
  then have "take (1 + ebits TYPE('w)) (tostr x) = take (1 + ebits TYPE('w)) msk"
    using arg_cong [OF e, of "take (1 + ebits TYPE('w))"] by (simp add: min_absorb1)
  then have "mant TYPE('w) msk = int (kept x)" by (intro mant_header) simp
  then have m: "mant TYPE('w) msk = int (kept x)" "9 \<le> kept x" "kept x < mbits TYPE('w)"
    "type + 1 + kept x \<noteq> ebits TYPE('w)" "type + kept x \<noteq> 7 + ebits TYPE('w)"
    using fits unfolding mask_fits_def by auto
  define xs where "xs = drop skip (code_bits x)"
  let ?arr = "False # replicate type True @ [e]"
  have len: "length xs = (if e then kept x else kept x - 8)"
    by (simp add: xs_def length_code_bits skip mask_length_def)
  then have "0 < length xs" using m(2) by simp
  then have ne: "xs \<noteq> []" by simp
  have ones: "all_ones type (False # replicate type True @ ys)" for ys
    by (auto simp: all_ones_def list_all_iff nth_append nth_Cons')
  have pre: "res_fold (mstep type msk num) st (False # replicate type True) =
      Inr (header_state type h out (False # replicate type True))"
    using mask_header [OF fits r, of num "replicate type True"] n t by simp
  have one: "mstep type msk num (header_state type h out (False # replicate type True)) e = Inr
      \<lparr>offset_bits = 0, bits = ?arr, history = h, decompressed = out, pending = False\<rparr>"
    using ones [of "[]"] by (simp add: header_state_def mask_step_def mask_field_def Let_def all_ones_def)
  have "?arr = (False # replicate type True) @ [e]" by simp
  then have arr: "res_fold (mstep type msk num) st ?arr = Inr
      \<lparr>offset_bits = 0, bits = ?arr, history = h, decompressed = out, pending = False\<rparr>"
    using res_fold_append_Inr [OF pre, of "[e]"] one by simp
  have "take skip msk @ drop skip (code_bits x) = code_bits x"
  proof -
    have "skip \<le> 1 + ebits TYPE('w) + kept x" using m(2) by (simp add: skip mask_length_def)
    then have "take skip (code_bits x) = take skip (tostr x)" by (simp add: code_bits_def min_absorb1)
    then show ?thesis using e append_take_drop_id [of skip "code_bits x"] by simp
  qed
  moreover have "length (?arr @ xs) \<noteq> 3" "length (?arr @ xs) \<noteq> LENGTH('w)"
    using t m(2,3) len widths(1) by (auto split: if_splits)
  moreover have "(?arr @ xs) ! (type + 1) = e" "drop (1 + type + 1) (?arr @ xs) = xs"
    by (simp_all add: nth_append)
  ultimately have "decompress_bitwise_mask type msk (?arr @ xs) h = patch (code_bits x)"
    using ones [of "[e] @ xs"]
    by (simp add: decompress_bitwise_mask_def all_ones_def skip xs_def split: if_splits)
  then have val: "decompress_bitwise_mask type msk (?arr @ xs) h = Inr (truncated x)"
    using patch_code_bits m(3) by simp
  have "res_fold (mstep type msk num)
      \<lparr>offset_bits = 0, bits = ?arr, history = h, decompressed = out, pending = False\<rparr> xs =
    Inr \<lparr>offset_bits = 0, bits = [], history = push_value h (truncated x),
      decompressed = out @ [truncated x], pending = False\<rparr>"
    using ne len m t val n
    by (intro mask_rest) (auto simp: mask_field_def Let_def nth_append)
  then show ?thesis
    using res_fold_append_Inr [OF arr, of xs] by (simp add: token_read_def mask_ready_def xs_def)
qed

definition separable :: "nat \<Rightarrow> bool list \<Rightarrow> 'w word \<Rightarrow> bool" where
  "separable type msk x \<longleftrightarrow> \<not> fsign x \<and> (masked_by msk x \<or> \<not> all_ones type (tostr x))"

lemma mask_whole:
  fixes h :: "'w word before"
  assumes "mask_fits TYPE('w) type msk" and "mask_ready type msk h out st" and "length out < num"
    and "separable type msk x"
  shows "token_read type msk h out (truncated x) (kept x \<noteq> 0) (res_fold (mstep type msk num) st (mask_bits type msk x))"
proof (cases "masked_by msk x")
  case True
  have full: "full_match msk x \<Longrightarrow> take (mask_length TYPE('w)) (tostr x) = take (mask_length TYPE('w)) msk"
    by (simp add: full_match_def)
  have part: "take (1 + ebits TYPE('w)) (tostr x) = take (1 + ebits TYPE('w)) msk"
    using True by (simp add: masked_by_def)
  have "token_read type msk h out (truncated x) True (res_fold (mstep type msk num) st (mask_bits type msk x))"
    using mask_masked [OF assms(1-3) part, of True] mask_masked [OF assms(1-3) full, of False] True
    by (simp add: mask_bits_def)
  then show ?thesis by (auto simp: token_read_def)
next
  case False
  then show ?thesis using mask_raw [OF assms(1-3), of x] assms(4)
    by (simp add: mask_bits_def separable_def)
qed

lemma mask_token:
  fixes h h' :: "'w word before"
  assumes "mask_fits TYPE('w) type msk" and "mask_ready type msk h out st" and "length out < num"
    and "separable type msk x"
  shows "token_read type msk h out (value_pred (token_after code_bits h' x) h) (kept x \<noteq> 0)
    (res_fold (mstep type msk num) st (token_after (mask_bits type msk) h' x))"
proof -
  have whole: "value_pred (code_bits x) h = truncated x"
    using length_code_bits [of x] ebits_large(1) by (simp add: value_pred_def truncated_def)
  have code: "token_read type msk h out (value_pred [True, b, c] h) (kept x \<noteq> 0)
      (res_fold (mstep type msk num) st [True, b, c])" for b c
    unfolding mask_code [OF assms(1-3)] by (simp add: token_read_def mask_ready_def)
  obtain b c where "snd (best_prediction h' x) = [True, b, c]" using best_prediction_code by blast
  then show ?thesis using mask_whole [OF assms] whole code [of False False] code [of b c]
    by (simp only: token_after_def split: if_split) blast
qed

lemma mask_tokens:
  fixes h h' :: "'w word before"
  assumes "mask_fits TYPE('w) type msk" and "\<forall>x \<in> set data. separable type msk x"
    and "mask_ready type msk h out st" and "length out + length data \<le> num"
  defines "ts \<equiv> \<lambda>h'. tokens_from code_bits h' data"
  shows "\<exists>st'. res_fold (mstep type msk num) st (concat (tokens_from (mask_bits type msk) h' data)) = Inr st' \<and>
    mask_ready type msk (pred.history_after h (ts h')) (out @ pred.emitted h (ts h')) st' \<and>
    (data \<noteq> [] \<and> kept (last data) \<noteq> 0 \<longrightarrow> decompressed st' = out @ pred.emitted h (ts h'))"
  using assms(2-4) unfolding ts_def
proof (induction data arbitrary: h h' out st)
  case (Cons x data)
  let ?v = "value_pred (token_after code_bits h' x) h"
  have "token_read type msk h out ?v (kept x \<noteq> 0) (res_fold (mstep type msk num) st (token_after (mask_bits type msk) h' x))"
    using mask_token [OF assms(1) Cons.prems(2)] Cons.prems(1,3) by simp
  then obtain st1 where st1: "res_fold (mstep type msk num) st (token_after (mask_bits type msk) h' x) = Inr st1"
    "mask_ready type msk (push_value h ?v) (out @ [?v]) st1" "kept x \<noteq> 0 \<longrightarrow> decompressed st1 = out @ [?v]"
    by (auto simp: token_read_def)
  from Cons.IH [OF _ st1(2), of "push_value h' x"] Cons.prems obtain st2 where st2:
    "res_fold (mstep type msk num) st1 (concat (tokens_from (mask_bits type msk) (push_value h' x) data)) = Inr st2"
    "mask_ready type msk (pred.history_after (push_value h ?v) (tokens_from code_bits (push_value h' x) data))
      ((out @ [?v]) @ pred.emitted (push_value h ?v) (tokens_from code_bits (push_value h' x) data)) st2"
    "data \<noteq> [] \<and> kept (last data) \<noteq> 0 \<longrightarrow>
      decompressed st2 = (out @ [?v]) @ pred.emitted (push_value h ?v) (tokens_from code_bits (push_value h' x) data)"
    by auto
  then show ?case using st1 res_fold_append_Inr [OF st1(1)]
    by (cases "data = []") auto
qed simp

lemma mask_padding:
  fixes h :: "'w word before"
  assumes "mask_fits TYPE('w) type msk" and "mask_ready type msk h out st" and "length out \<le> num" and "n < 8"
  shows "\<exists>st'. res_fold (mstep type msk num) st (replicate n False) = Inr st' \<and>
    decompressed st' = (if n = 0 then decompressed st else out)"
proof (cases n)
  case (Suc m)
  have "length (replicate m False) \<le> type \<or> \<not> all_ones type (False # replicate m False)"
    using assms(1) by (auto simp: all_ones_def list_all_iff mask_fits_def intro!: bexI [of _ 1])
  then show ?thesis
    using mask_header [OF assms(1-3), of "replicate m False"] Suc assms(4) ebits_large(1)
    by (simp add: header_state_def)
qed simp

lemma mask_result:
  assumes fits: "mask_fits TYPE('w) type msk" and sep: "\<forall>x \<in> set data. separable type msk x"
    and st: "bitbuf_ok st" "written st = concat (tokens_from (mask_bits type msk) no_values data)"
    and last: "pos st \<noteq> 8 \<or> kept (last data) \<noteq> 0"
  shows "run_mask_decoder (mstep type msk (length data)) (data_bits st) = Inr (readings code_bits data)"
proof -
  have un: "unused st = 0 \<longleftrightarrow> pos st = 8" using st(1) by (auto simp: unused_def bitbuf_ok_def)
  have new: "mask_ready type msk no_values [] (new_mask_decoder :: ('w word, 'w word before) mask_decoder)"
    by (simp add: mask_ready_def new_mask_decoder_def)
  from mask_tokens [OF fits sep new, of "length data" no_values] obtain st1 where st1:
    "res_fold (mstep type msk (length data)) new_mask_decoder (written st) = Inr st1"
    "mask_ready type msk (pred.history_after no_values (tokens_from code_bits no_values data)) (readings code_bits data) st1"
    "data \<noteq> [] \<and> kept (last data) \<noteq> 0 \<longrightarrow> decompressed st1 = readings code_bits data"
    by (auto simp: st(2) readings_def)
  from mask_padding [OF fits st1(2) _ unused_less [OF st(1)]] obtain st2 where st2:
    "res_fold (mstep type msk (length data)) st1 (replicate (unused st) False) = Inr st2"
    "decompressed st2 = (if unused st = 0 then decompressed st1 else readings code_bits data)"
    by (metis length_readings order_refl)
  have "decompressed st2 = readings code_bits data"
  proof (cases "data = []")
    case True
    then have "st1 = new_mask_decoder" using st1(1) st(2) by simp
    then show ?thesis using st2(2) True by (simp add: new_mask_decoder_def readings_def)
  next
    case False
    then show ?thesis using st1(3) st2(2) last un by auto
  qed
  then show ?thesis
    using st1(1) st2(1) written_padded [OF st(1)] by (simp add: run_mask_decoder_def res_fold_append)
qed

end

section \<open>The two formats\<close>

lemma mask_sizes: "mask_length TYPE(64) = 20" "mask_length TYPE(32) = 17"
  by (simp_all add: mask_length_def format_sizes)

text \<open>The mask is the argument \<open>mask[1+11+8]\<close> (\<open>mask[1+8+8]\<close>) of the C functions.\<close>

interpretation masked_double: raw_sender "compress_bitwise_double_mask type (take 20 (tostr (typical :: 64 word)))"
  "mask_bits type (take 20 (tostr typical))" for type typical
  by unfold_locales
    (simp add: compress_bitwise_double_mask_def double.compress_bitwise_mask_written mask_sizes)

interpretation masked_float: raw_sender "compress_bitwise_float_mask type (take 17 (tostr (typical :: 32 word)))"
  "mask_bits type (take 17 (tostr typical))" for type typical
  by unfold_locales
    (simp add: compress_bitwise_float_mask_def single.compress_bitwise_mask_written mask_sizes)

lemmas mask_functions =
  myCompress_bitwise_double_mask_def myCompress_bitwise_mask_def
  myDecompress_bitwise_double_mask_def myDecompress_bitwise_mask_def
  decompress_bitwise_double_mask_def decompress_bitwise_float_mask_def

section \<open>Properties\<close>



text \<open>The same for the \<open>float\<close> functions.\<close>

theorem mask_float_equivalence:
  assumes "mask_fits TYPE(32) type msk" and "msk = take 17 (floattostr typical)"
    and "\<forall>x \<in> set data. \<not> fsign x \<and> (masked_by msk x \<or> \<not> all_ones type (tostr x))"
    and "data \<noteq> []" and "kept (last data) \<noteq> 0"
  shows "\<exists>out. myDecompress_bitwise_mask
        (data_bits (myCompress_bitwise_mask data type msk empty_bitbuf)) (length data) type msk = Inr out \<and>
      myDecompress_bitwise (data_bits (myCompress_bitwise data empty_bitbuf)) (length data) = Inr out \<and>
      length out = length data"
proof -
  have "myDecompress_bitwise (data_bits (myCompress_bitwise data empty_bitbuf)) (length data) =
      Inr (single.readings code_bits data)"
    using pred_float_result [OF _ refl] assms(3,5) by (simp add: single.lost_last_def)
  moreover have "myDecompress_bitwise_mask
      (data_bits (myCompress_bitwise_mask data type msk empty_bitbuf)) (length data) type msk =
      Inr (single.readings code_bits data)"
    using single.mask_result [OF assms(1)] masked_float.myCompress_pred_written assms(2,3,5)
    by (simp add: mask_functions single.separable_def floattostr_eq)
  ultimately show ?thesis by simp
qed

theorem mask_float_equivalence_witness:
  "\<exists>out. myDecompress_bitwise_mask
        (data_bits (myCompress_bitwise_mask [0x3FC00001, 0x3F400001] 2 (take 17 (floattostr 0x3FC00000)) empty_bitbuf))
        (length [0x3FC00001, 0x3F400001 :: 32 word]) 2 (take 17 (floattostr 0x3FC00000)) = Inr out \<and>
      myDecompress_bitwise (data_bits (myCompress_bitwise [0x3FC00001, 0x3F400001] empty_bitbuf))
        (length [0x3FC00001, 0x3F400001 :: 32 word]) = Inr out \<and>
      length out = length [0x3FC00001, 0x3F400001 :: 32 word]"
proof (rule mask_float_equivalence [OF _ refl])
  show "mask_fits TYPE(32) 2 (take 17 (floattostr 0x3FC00000))" unfolding floattostr_eq by code_simp
  show "\<forall>x \<in> set [0x3FC00001, 0x3F400001 :: 32 word]. \<not> fsign x \<and>
      (masked_by (take 17 (floattostr 0x3FC00000)) x \<or> \<not> all_ones 2 (tostr x))"
    unfolding doubletostr_eq floattostr_eq by code_simp
  show "kept (last [0x3FC00001, 0x3F400001 :: 32 word]) \<noteq> 0" by code_simp
qed simp

text \<open>The compressed data of the bitmask codec is never longer than the data, as long as a
  prefix is not longer than sign and exponent.\<close>

theorem mask_never_expands:
  assumes "type + 2 \<le> 9"
  shows "bytes (myCompress_bitwise_double_mask ds type (take 20 (doubletostr d)) empty_bitbuf) \<le> 8 * length ds \<and>
    bytes (myCompress_bitwise_mask fs type (take 17 (floattostr f)) empty_bitbuf) \<le> 4 * length fs"
proof -
  have "length (mask_bits type msk x) \<le> 64" for msk and x :: "64 word"
    using double.length_code_bits_upto [of x] double.length_code_bits [of x] assms
    by (auto simp: mask_bits_def mask_sizes format_sizes)
  then have "8 * bytes (myCompress_bitwise_double_mask ds type (take 20 (doubletostr d)) empty_bitbuf) \<le> 64 * length ds + 7"
    unfolding mask_functions doubletostr_eq by (intro masked_double.pred_size) simp_all
  moreover have "length (mask_bits type msk x) \<le> 32" for msk and x :: "32 word"
    using single.length_code_bits_upto [of x] single.length_code_bits [of x] assms
    by (auto simp: mask_bits_def mask_sizes format_sizes)
  then have "8 * bytes (myCompress_bitwise_mask fs type (take 17 (floattostr f)) empty_bitbuf) \<le> 32 * length fs + 7"
    unfolding mask_functions floattostr_eq by (intro masked_float.pred_size) simp_all
  ultimately show ?thesis by linarith
qed

theorem mask_never_expands_witness:
  "bytes (myCompress_bitwise_double_mask [1, 2] 2 (take 20 (doubletostr 3)) empty_bitbuf) \<le> 8 * length [1, 2 :: 64 word]"
proof -
  have "(2 :: nat) + 2 \<le> 9" by simp
  from mask_never_expands [OF this, of "[1, 2]" 3] show ?thesis by blast
qed

end
