(* ===== verification/Dataset.thy ===== *)
theory Dataset
  imports
  MaskCodec
begin

text \<open>
  What \<open>app/src/dataCompression.c\<close> does to a data set before it compresses it:
  \<open>toSmallDataset_double\<close> and \<open>toSmallDataset_float\<close> subtract the least number, so that no
  sign bit is left, and \<open>med_dataset_double\<close> and \<open>med_dataset_float\<close> compute the mean and
  the prefix length of the bitmask codec.
\<close>

section \<open>The code\<close>

definition least_of :: "'w::len word \<Rightarrow> 'w word \<Rightarrow> 'w word" where
  "least_of low x = (if flt x low then x else low)"

definition greatest_of :: "'w::len word \<Rightarrow> 'w word \<Rightarrow> 'w word" where
  "greatest_of high x = (if flt high x then x else high)"

definition above :: "'w::len word \<Rightarrow> 'w word \<Rightarrow> 'w word" where
  "above low x = fsub x low"

text \<open>\<open>data[0]\<close> is read whatever \<open>num\<close> is.\<close>

definition toSmallDataset :: "'w::len word list \<Rightarrow> ('w word \<times> 'w word list) result" where
  "toSmallDataset data =
     (if data = [] then Inl OutOfBounds
      else let low = foldl least_of (data ! 0) (drop 1 data)
           in Inr (low, map (above low) data))"

definition toSmallDataset_double :: "64 word list \<Rightarrow> (64 word \<times> 64 word list) result" where
  "toSmallDataset_double = toSmallDataset"

definition toSmallDataset_float :: "32 word list \<Rightarrow> (32 word \<times> 32 word list) result" where
  "toSmallDataset_float = toSmallDataset"

text \<open>The loop over \<open>i\<close>; \<open>type\<close> keeps its value when no power of two exceeds the maximum.\<close>

fun med_type :: "'w::len word \<Rightarrow> nat \<Rightarrow> int \<Rightarrow> nat list \<Rightarrow> nat" where
  "med_type high type add [] = type"
| "med_type high type add (i # is) =
     (if flt (promote high) (pow2 (add + 2 ^ i - bias TYPE('w))) then ebits TYPE('w) - i
      else med_type high type (add + 2 ^ i) is)"

definition med_dataset :: "'w::len word list \<Rightarrow> nat \<Rightarrow> ('w word \<times> nat) result" where
  "med_dataset data type =
     (if data = [] then Inl OutOfBounds
      else let total = foldl fadd (fint 0) data;
               high = foldl greatest_of (data ! 0) data
           in Inr (fdiv total (fint (int (length data))),
                   med_type high type 0 (rev [1..<ebits TYPE('w)])))"

definition med_dataset_double :: "64 word list \<Rightarrow> nat \<Rightarrow> (64 word \<times> nat) result" where
  "med_dataset_double = med_dataset"

definition med_dataset_float :: "32 word list \<Rightarrow> nat \<Rightarrow> (32 word \<times> nat) result" where
  "med_dataset_float = med_dataset"

section \<open>The sign of a sum\<close>

context ieee_format
begin

lemma round_even_nonneg: "0 \<le> n \<Longrightarrow> 0 < d \<Longrightarrow> 0 \<le> round_even n d"
  by (simp add: round_even_def Let_def pos_imp_zdiv_nonneg_iff)

lemma fsign_fround:
  assumes "0 \<le> n" and "0 < d"
  shows "fsign (fround s n d e :: 'w word) = s"
proof -
  define k where "k = max (ratio_len n d + e - int (mbits TYPE('w)) - 1) (emin TYPE('w))"
  define q where "q = round_even (n * 2 ^ nat (e - k)) (d * 2 ^ nat (k - e))"
  define m where "m = (if n = 0 then 0 else min (inf_mag TYPE('w)) ((k - emin TYPE('w)) * 2 ^ mbits TYPE('w) + q))"
  have "0 \<le> q" using assms by (simp add: q_def round_even_nonneg)
  moreover have "0 \<le> k - emin TYPE('w)" by (simp add: k_def)
  moreover have inf: "0 \<le> inf_mag TYPE('w)" "inf_mag TYPE('w) < 2 ^ (mbits TYPE('w) + ebits TYPE('w))"
    by (simp_all add: inf_mag_def power_add algebra_simps)
  ultimately have "0 \<le> m" "m < 2 ^ (mbits TYPE('w) + ebits TYPE('w))"
    by (simp_all add: m_def min_def)
  moreover have "(fround s n d e :: 'w word) = pack s m"
    unfolding fround_def Let_def m_def q_def k_def ..
  ultimately show ?thesis by (simp add: pack_fields)
qed

lemma fneg_fields:
  "fsign (fneg (x :: 'w word)) = (\<not> fsign x)" "fmag (fneg x) = fmag x" "fquant (fneg x) = fquant x"
  "fnum (fneg x) = - fnum x" "is_nan (fneg x) = is_nan x" "is_inf (fneg x) = is_inf x"
proof -
  show s: "fsign (fneg x) = (\<not> fsign x)" and m: "fmag (fneg x) = fmag x"
    by (simp_all add: fneg_def pack_fields [OF fmag_range])
  show "fquant (fneg x) = fquant x" "fnum (fneg x) = - fnum x" "is_nan (fneg x) = is_nan x"
    "is_inf (fneg x) = is_inf x"
    by (simp_all add: fquant_def fnum_def fsig_def fexp_def fman_def is_nan_def is_inf_def s m)
qed

lemma scaled_sum:
  fixes x y :: "'w word"
  defines "e \<equiv> min (fquant x) (fquant y)"
  shows "of_int (fnum x * 2 ^ nat (fquant x - e) + fnum y * 2 ^ nat (fquant y - e)) * 2 powi e = fval x + fval y"
proof -
  have "(2 :: real) powi fquant z = 2 ^ nat (fquant z - e) * 2 powi e" if "e \<le> fquant z" for z :: "'w word"
  proof -
    have "fquant z = int (nat (fquant z - e)) + e" using that by simp
    then have "(2 :: real) powi fquant z = 2 powi (int (nat (fquant z - e)) + e)" by simp
    then show ?thesis
      by (simp only: power_int_add [OF disjI1] power_int_of_nat zero_neq_numeral not_False_eq_True)
  qed
  from this [of x] this [of y] show ?thesis by (simp add: e_def fval_def algebra_simps)
qed

lemma fval_zero_iff: "fval (x :: 'w word) = 0 \<longleftrightarrow> is_zero x"
proof -
  have "0 \<le> fexp x" "0 \<le> fman x" using fexp_range fman_range by blast+
  then have "fsig x = 0 \<longleftrightarrow> fexp x = 0 \<and> fman x = 0"
    by (auto simp: fsig_def) (smt (verit, best) zero_less_power)
  also have "\<dots> \<longleftrightarrow> fmag x = 0"
    using fmag_fields [of x] \<open>0 \<le> fman x\<close> \<open>0 \<le> fexp x\<close> by (auto simp: add_nonneg_eq_0_iff fexp_def fman_def)
  finally show ?thesis by (simp add: fval_sig is_zero_def)
qed

text \<open>A difference that is not negative has no sign bit, unless it is \<open>-0 - 0\<close>.\<close>

lemma fsign_fsub:
  assumes "is_fin x" and "is_fin y" and "fval (y :: 'w word) \<le> fval x" and "\<not> (fsign x \<and> is_zero x)"
  shows "\<not> fsign (fsub x y)"
proof -
  define e where "e = min (fquant x) (fquant (fneg y))"
  define n where "n = fnum x * 2 ^ nat (fquant x - e) + fnum (fneg y) * 2 ^ nat (fquant (fneg y) - e)"
  have fin: "\<not> is_nan x" "\<not> is_nan y" "\<not> is_inf x" "\<not> is_inf y"
    using assms(1,2) by (simp_all add: is_fin_def is_nan_def is_inf_def)
  have v: "of_int n * 2 powi e = fval x - fval y"
    using scaled_sum [of x "fneg y"] by (simp add: n_def e_def fval_def fneg_fields)
  then have n: "0 \<le> n" "n = 0 \<longleftrightarrow> fval x = fval y"
    using assms(3) by (auto simp: zero_le_mult_iff not_less [symmetric] zero_less_power_int)
      (smt (verit, ccfv_SIG) mult_less_0_iff of_int_less_0_iff zero_less_power_int)
  have sub: "fsub x y = (if n = 0 then pack (fsign x \<and> \<not> fsign y) 0 else fround (n < 0) \<bar>n\<bar> 1 e)"
    using fin by (simp add: fsub_def fadd_def Let_def fneg_fields n_def e_def)
  show ?thesis
  proof (cases "n = 0")
    case True
    have "\<not> (fsign x \<and> \<not> fsign y)"
    proof
      assume s: "fsign x \<and> \<not> fsign y"
      have "0 \<le> fval y" "fval x \<le> 0"
        using s fsig_range(1) [of x] fsig_range(1) [of y] by (simp_all add: fval_sig mult_nonneg_nonneg)
      then have "fval x = 0" using True n(2) by simp
      then have "is_zero x" by (simp add: fval_zero_iff)
      then show False using s assms(4) by simp
    qed
    then show ?thesis using True by (simp add: sub pack_fields)
  next
    case False
    then show ?thesis using n(1) by (simp add: sub fsign_fround)
  qed
qed

end


lemma small_differences: "toSmallDataset data = Inr (low, small) \<Longrightarrow> small = map (\<lambda>x. fsub x low) data"
  by (auto simp: toSmallDataset_def Let_def above_def split: if_splits)

text \<open>The running minimum.\<close>

context ieee_format
begin

lemma least_of_fold:
  assumes "\<forall>x \<in> set (a # data). is_fin (x :: 'w word)"
  shows "foldl least_of a data \<in> set (a # data) \<and>
    (\<forall>x \<in> set (a # data). fval (foldl least_of a data) \<le> fval x)"
  using assms
proof (induction data arbitrary: a)
  case (Cons x data)
  have nan: "\<not> is_nan a" "\<not> is_nan x" using Cons.prems by (auto simp: is_fin_def is_nan_def)
  have m: "least_of a x \<in> {a, x}" "fval (least_of a x) \<le> fval a" "fval (least_of a x) \<le> fval x"
    using nan by (auto simp: least_of_def flt_iff)
  then have "\<forall>y \<in> set (least_of a x # data). is_fin y" using Cons.prems by auto
  from Cons.IH [OF this] m show ?case by (auto intro: order_trans)
qed simp

lemma small_nonneg:
  assumes "toSmallDataset data = Inr (low, small)"
    and "\<forall>x \<in> set data. is_fin (x :: 'w word) \<and> \<not> (fsign x \<and> is_zero x)"
  shows "length small = length data \<and> (\<forall>x \<in> set small. \<not> fsign x) \<and> low \<in> set data \<and>
    (\<forall>x \<in> set data. fval low \<le> fval x)"
proof -
  obtain a rest where data: "data = a # rest" using assms(1) by (cases data) (auto simp: toSmallDataset_def)
  then have low: "low = foldl least_of a rest" "small = map (above low) data"
    using assms(1) by (auto simp: toSmallDataset_def Let_def)
  then have l: "low \<in> set data" "\<forall>x \<in> set data. fval low \<le> fval x"
    using least_of_fold [of a rest] assms(2) unfolding data by auto
  then have "\<forall>x \<in> set data. \<not> fsign (fsub x low)" using fsign_fsub assms(2) by blast
  with l show ?thesis by (simp add: low(2) above_def)
qed

end


section \<open>The prefix length and the exponents\<close>

lemma pow2_pack:
  assumes "0 \<le> k" and "k \<le> 1023"
  shows "(pow2 k :: 64 word) = pack False ((k + 1023) * 2 ^ 52)"
proof -
  have "bitlen (2 ^ nat k) = k + 1"
    using bitlen_pow2 [of 1 "nat k"] assms(1) by (simp add: bitlen_def floorlog_def)
  then have len: "ratio_len (2 ^ nat k) 1 + 0 - int (mbits TYPE(64)) - 1 = k - 52"
    by (simp add: double.ratio_len_1 mbits_def ebits_def)
  have mx: "max (k - 52) (emin TYPE(64)) = k - 52"
    using assms(1) by (simp add: emin_def bias_def ebits_def mbits_def)
  have q: "round_even (2 ^ nat k * 2 ^ nat (0 - (k - 52))) (1 * 2 ^ nat (k - 52 - 0)) = 2 ^ 52"
  proof (cases "52 \<le> k")
    case True
    then have "nat k = nat (k - 52) + 52" by simp
    then have "(2 :: int) ^ nat k = 2 ^ nat (k - 52) * 2 ^ 52" by (simp only: power_add)
    then show ?thesis using True by (simp add: round_even_def Let_def)
  next
    case False
    then have "nat k + nat (52 - k) = 52" using assms(1) by simp
    then have "(2 :: int) ^ nat k * 2 ^ nat (52 - k) = 2 ^ 52" by (simp only: power_add [symmetric])
    then show ?thesis using False by simp
  qed
  have m: "min (inf_mag TYPE(64)) ((k - 52 - emin TYPE(64)) * 2 ^ mbits TYPE(64) + 2 ^ 52) = (k + 1023) * 2 ^ 52"
    using assms by (simp add: inf_mag_def emin_def bias_def ebits_def mbits_def)
  have "(2 :: int) ^ nat (- k) = 1" using assms(1) by simp
  then show ?thesis unfolding pow2_def fround_def Let_def by (simp only: len mx q m) simp
qed

lemma pow2_value:
  assumes "0 \<le> k" and "k \<le> 1023"
  shows "fval (pow2 k :: 64 word) = 2 powi k" and "\<not> is_nan (pow2 k :: 64 word)"
proof -
  define n :: int where "n = (k + 1023) * 2 ^ 52"
  have n: "0 \<le> n" "n < 2047 * 2 ^ 52" "n div 2 ^ 52 = k + 1023" "n mod 2 ^ 52 = 0"
    using assms by (simp_all add: n_def)
  have p: "(pow2 k :: 64 word) = pack False n" unfolding n_def by (rule pow2_pack [OF assms])
  have "n < 2 ^ (mbits TYPE(64) + ebits TYPE(64))" using n(2) by (simp add: mbits_def ebits_def)
  note f = double.pack_fields [OF n(1) this, of False, folded p]
  have e: "fexp (pow2 k :: 64 word) = k + 1023" "fman (pow2 k :: 64 word) = 0"
    using n(3,4) by (simp_all add: fexp_def fman_def f mbits_def ebits_def)
  have "(2 :: real) powi (k + (- 52)) = 2 powi k * 2 powi (- 52)" by (rule power_int_add) simp
  moreover have "fquant (pow2 k :: 64 word) = k + (- 52)" "fsig (pow2 k :: 64 word) = 2 ^ 52"
    using assms(1) by (simp_all add: fquant_def fsig_def e emin_def bias_def mbits_def ebits_def)
  ultimately show "fval (pow2 k :: 64 word) = 2 powi k" by (simp add: double.fval_sig f)
  show "\<not> is_nan (pow2 k :: 64 word)"
    using n(2) by (simp add: is_nan_def f inf_mag_def mbits_def ebits_def)
qed

context ieee_format
begin

lemma fval_less_power:
  assumes "\<not> fsign x" and "1 \<le> E"
  shows "fval (x :: 'w word) < 2 powi (E - bias TYPE('w)) \<longleftrightarrow> fexp x < E"
proof -
  let ?m = "mbits TYPE('w)"
  have v: "fval x = of_int (fsig x) * 2 powi fquant x" using assms(1) by (simp add: fval_sig)
  have pow: "2 ^ a * 2 powi b = (2 :: real) powi (int a + b)" for a b
    by (simp only: power_int_add [OF disjI1] power_int_of_nat zero_neq_numeral not_False_eq_True)
  show ?thesis
  proof (cases "fexp x < E")
    case True
    define a where "a = (if fexp x = 0 then ?m else ?m + 1)"
    have "fsig x < 2 ^ a" using fman_range [of x] by (simp add: fsig_def a_def)
    then have "of_int (fsig x) < (2 :: real) ^ a" by (metis of_int_less_iff of_int_numeral of_int_power)
    then have "fval x < 2 ^ a * 2 powi fquant x" unfolding v by (intro mult_strict_right_mono) simp_all
    also have "\<dots> = 2 powi (int a + fquant x)" by (rule pow)
    also have "\<dots> \<le> 2 powi (E - bias TYPE('w))"
      using True assms(2) fexp_range [of x]
      by (intro power_int_increasing) (auto simp: a_def fquant_def emin_def)
    finally show ?thesis using True by simp
  next
    case False
    then have e: "1 \<le> fexp x" using assms(2) by simp
    have "(2 :: real) powi (E - bias TYPE('w)) \<le> 2 powi (int ?m + fquant x)"
      using False e by (intro power_int_increasing) (simp_all add: fquant_def emin_def)
    also have "\<dots> = 2 ^ ?m * 2 powi fquant x" by (rule pow [symmetric])
    also have "\<dots> \<le> fval x"
    proof -
      have "2 ^ ?m \<le> fsig x" using e fman_range [of x] by (simp add: fsig_def)
      then have "(2 :: real) ^ ?m \<le> of_int (fsig x)" by (metis of_int_le_iff of_int_numeral of_int_power)
      then show ?thesis unfolding v by (intro mult_right_mono) simp_all
    qed
    finally show ?thesis using False by simp
  qed
qed

lemma greatest_of_fold:
  assumes "\<forall>x \<in> set (a # data). is_fin (x :: 'w word)"
  shows "foldl greatest_of a data \<in> set (a # data) \<and>
    (\<forall>x \<in> set (a # data). fval x \<le> fval (foldl greatest_of a data))"
  using assms
proof (induction data arbitrary: a)
  case (Cons x data)
  have nan: "\<not> is_nan a" "\<not> is_nan x" using Cons.prems by (auto simp: is_fin_def is_nan_def)
  have m: "greatest_of a x \<in> {a, x}" "fval a \<le> fval (greatest_of a x)" "fval x \<le> fval (greatest_of a x)"
    using nan by (auto simp: greatest_of_def flt_iff)
  then have "\<forall>y \<in> set (greatest_of a x # data). is_fin y" using Cons.prems by auto
  from Cons.IH [OF this] m show ?case by (auto intro: order_trans)
qed simp

lemma all_ones_exponent:
  assumes "all_ones type (tostr (x :: 'w word))" and "type \<le> ebits TYPE('w)"
  shows "2 ^ ebits TYPE('w) - 2 ^ (ebits TYPE('w) - type) \<le> fexp x"
proof -
  let ?e = "ebits TYPE('w)" and ?m = "mbits TYPE('w)"
  have fexp: "fexp x = take_bit ?e (drop_bit ?m (uint x))"
    by (simp add: fexp_def fmag_def width_less take_bit_drop_bit add.commute
        flip: take_bit_eq_mod drop_bit_eq_div)
  have "drop_bit (?e - type) (fexp x) = Bit_Operations.mask type"
  proof (rule bit_eqI)
    fix n
    have "bit x (?m + (?e - type + n))" if "n < type"
    proof -
      have "type - n \<in> set [1..<type + 1]"
        using that by (simp only: set_upt atLeastLessThan_iff) linarith
      then have "tostr x ! (type - n)" using assms(1) by (simp only: all_ones_def list_all_iff)
      moreover have "LENGTH('w) - 1 - (type - n) = ?m + (?e - type + n)" "type - n < LENGTH('w)"
        using that assms(2) widths(1) by simp_all
      ultimately show ?thesis by simp
    qed
    then show "bit (drop_bit (?e - type) (fexp x)) n = bit (Bit_Operations.mask type :: int) n"
      using assms(2) by (auto simp: fexp bit_simps)
  qed
  then have d: "fexp x div 2 ^ (?e - type) = 2 ^ type - 1" by (simp add: drop_bit_eq_div mask_eq_exp_minus_1)
  have "0 \<le> fexp x mod 2 ^ (?e - type)" by simp
  then have "(2 ^ type - 1) * 2 ^ (?e - type) \<le> fexp x"
    using div_mult_mod_eq [of "fexp x" "2 ^ (?e - type)"] unfolding d by linarith
  then show ?thesis using assms(2) by (simp add: left_diff_distrib flip: power_add)
qed

text \<open>
  The loop has passed the powers of two for \<open>i > n\<close>; \<open>high\<close> has an exponent below the
  greatest two.
\<close>

lemma med_type_exponent:
  assumes "fval (promote (high :: 'w word)) = fval high" and "\<not> is_nan (promote high)"
    and "\<not> fsign high" and "fexp high < 2 ^ ebits TYPE('w) - 2"
    and "n < ebits TYPE('w)" and "2 ^ ebits TYPE('w) - 2 ^ (n + 1) \<le> fexp high"
    and "k = med_type high type (2 ^ ebits TYPE('w) - 2 ^ (n + 1)) (rev [1..<n + 1])"
  shows "1 \<le> k \<and> k < ebits TYPE('w) \<and> fexp high < 2 ^ ebits TYPE('w) - 2 ^ (ebits TYPE('w) - k)"
  using assms(5-7)
proof (induction n)
  case 0
  then show ?case using assms(4) by simp
next
  case (Suc n)
  let ?e = "ebits TYPE('w)"
  let ?E = "2 ^ ?e - 2 ^ (n + 1) :: int"
  have b: "bias TYPE('w) = 2 ^ (?e - 1) - 1" "?e - 1 \<le> 10" by (simp_all add: bias_def ebits_def)
  have "(2 :: int) ^ (n + 1) \<le> 2 ^ (?e - 1)" using Suc.prems(1) by (intro power_increasing) simp_all
  moreover have e: "(2 :: int) ^ ?e = 2 * 2 ^ (?e - 1)" using ebits_large(1) by (simp flip: power_Suc)
  moreover have "(2 :: int) ^ (?e - 1) \<le> 1024" using power_increasing [OF b(2), of "2 :: int"] by simp
  moreover have "(2 :: int) \<le> 2 ^ (n + 1)"
    using power_increasing [of 1 "n + 1" "2 :: int"] by (simp only: power_one_right)
  ultimately have k: "1 \<le> ?E" "0 \<le> ?E - bias TYPE('w)" "?E - bias TYPE('w) \<le> 1023"
    unfolding b(1) e by linarith+
  have step: "flt (promote high) (pow2 (?E - bias TYPE('w))) \<longleftrightarrow> fexp high < ?E"
    using assms(1,2) pow2_value [OF k(2,3)] fval_less_power [OF assms(3) k(1)]
    by (simp add: double.flt_iff)
  have add: "2 ^ ?e - 2 ^ (Suc n + 1) + 2 ^ Suc n = ?E" by simp
  have rev: "rev [1..<Suc n + 1] = Suc n # rev [1..<n + 1]" by simp
  have eq: "k = (if fexp high < ?E then ?e - Suc n else med_type high type ?E (rev [1..<n + 1]))"
    unfolding Suc.prems(3) rev med_type.simps add step ..
  show ?case
  proof (cases "fexp high < ?E")
    case True
    then show ?thesis using Suc.prems(1) by (simp add: eq)
  next
    case False
    then show ?thesis using Suc.IH Suc.prems(1) eq by simp
  qed
qed

lemma med_dataset_prefix:
  assumes "med_dataset data type = Inr (med, k)"
    and "\<forall>x \<in> set data. is_fin (x :: 'w word) \<and> \<not> fsign x \<and> fexp x < 2 ^ ebits TYPE('w) - 2"
    and promote: "\<And>x :: 'w word. is_fin x \<Longrightarrow> fval (promote x) = fval x \<and> is_fin (promote x)"
  shows "1 \<le> k \<and> k < ebits TYPE('w) \<and> (\<forall>x \<in> set data. \<not> all_ones k (tostr x))"
proof -
  let ?e = "ebits TYPE('w)"
  obtain a rest where data: "data = a # rest" using assms(1) by (cases data) (auto simp: med_dataset_def)
  define high where "high = foldl greatest_of (data ! 0) data"
  have "high \<in> set data" and all: "\<forall>x \<in> set data. fval x \<le> fval high"
    using greatest_of_fold [of a data] assms(2) by (auto simp: high_def data)
  then have high: "is_fin high" "\<not> fsign high" "fexp high < 2 ^ ?e - 2" using assms(2) by auto
  have p: "fval (promote high) = fval high" "\<not> is_nan (promote high)"
    using promote [OF high(1)] by (auto simp: is_fin_def is_nan_def)
  have e: "?e - 1 < ?e" "?e - 1 + 1 = ?e" using ebits_large(1) by simp_all
  have "k = med_type high type 0 (rev [1..<?e])"
    using assms(1) by (simp add: med_dataset_def data high_def Let_def)
  then have k: "1 \<le> k" "k < ?e" "fexp high < 2 ^ ?e - 2 ^ (?e - k)"
    using med_type_exponent [OF p high(2,3) e(1), of k type] fexp_range(1) [of high] unfolding e(2) by simp_all
  have E: "1 \<le> (2 :: int) ^ ?e - 2 ^ (?e - k)" using k(3) fexp_range(1) [of high] by linarith
  have "\<not> all_ones k (tostr x)" if x: "x \<in> set data" for x
  proof
    assume "all_ones k (tostr x)"
    then have "\<not> fexp x < 2 ^ ?e - 2 ^ (?e - k)" using all_ones_exponent [of k x] k(2) by simp
    moreover have "\<not> fsign x" "fval x \<le> fval high" using assms(2) all x by auto
    ultimately show False
      using fval_less_power [OF _ E, of x] fval_less_power [OF high(2) E] k(3) by simp
  qed
  with k show ?thesis by simp
qed

end

section \<open>Properties\<close>

text \<open>C40: For finite numbers without a negative zero, \<open>toSmallDataset\<close> returns the least number and,
  number by number, the differences from it, none of which has a sign bit: what the codecs ask
  for.\<close>

theorem small_dataset_unsigned:
  assumes "toSmallDataset_double ds = Inr (dlow, dsmall)" and "\<forall>x \<in> set ds. is_fin x \<and> \<not> (fsign x \<and> is_zero x)"
    and "toSmallDataset_float fs = Inr (flow, fsmall)" and "\<forall>x \<in> set fs. is_fin x \<and> \<not> (fsign x \<and> is_zero x)"
  shows "dlow \<in> set ds \<and> (\<forall>x \<in> set ds. fval dlow \<le> fval x) \<and>
    dsmall = map (\<lambda>x. fsub x dlow) ds \<and> (\<forall>x \<in> set dsmall. \<not> fsign x) \<and>
    flow \<in> set fs \<and> (\<forall>x \<in> set fs. fval flow \<le> fval x) \<and>
    fsmall = map (\<lambda>x. fsub x flow) fs \<and> (\<forall>x \<in> set fsmall. \<not> fsign x)"
  using double.small_nonneg [of ds dlow dsmall] single.small_nonneg [of fs flow fsmall]
    small_differences [of ds dlow dsmall] small_differences [of fs flow fsmall] assms
  by (simp add: toSmallDataset_double_def toSmallDataset_float_def)

theorem small_dataset_unsigned_witness:
  "\<not> fsign (0x4010000000000000 :: 64 word) \<and> fsub 0x4008000000000000 0xBFF0000000000000 = (0x4010000000000000 :: 64 word) \<and>
   \<not> fsign (0x40800000 :: 32 word) \<and> fsub 0x40400000 0xBF800000 = (0x40800000 :: 32 word)"
proof -
  have d: "toSmallDataset_double [0x4008000000000000, 0xBFF0000000000000] =
      Inr (0xBFF0000000000000, [0x4010000000000000, 0])"
    and f: "toSmallDataset_float [0x40400000, 0xBF800000] = Inr (0xBF800000, [0x40800000, 0])" by code_simp+
  have "\<forall>x \<in> set [0x4008000000000000, 0xBFF0000000000000 :: 64 word]. is_fin x \<and> \<not> (fsign x \<and> is_zero x)"
    "\<forall>x \<in> set [0x40400000, 0xBF800000 :: 32 word]. is_fin x \<and> \<not> (fsign x \<and> is_zero x)" by code_simp+
  from small_dataset_unsigned [OF d this(1) f this(2)] show ?thesis by simp
qed

text \<open>C37: The prefix length \<open>med_dataset\<close> computes keeps prefixes apart from numbers: for finite
  numbers without a sign bit below the greatest power of two it is at least 1 and smaller
  than the exponent's length, and no number's exponent begins with as many ones.\<close>

theorem med_dataset_separates:
  assumes "med_dataset_double ds t = Inr (dmed, dtype)"
    and "\<forall>x \<in> set ds. is_fin x \<and> \<not> fsign x \<and> fexp x < 2 ^ 11 - 2"
    and "med_dataset_float fs u = Inr (fmed, ftype)"
    and "\<forall>x \<in> set fs. is_fin x \<and> \<not> fsign x \<and> fexp x < 2 ^ 8 - 2"
  shows "1 \<le> dtype \<and> dtype < 11 \<and> (\<forall>x \<in> set ds. \<not> all_ones dtype (doubletostr x)) \<and>
    1 \<le> ftype \<and> ftype < 8 \<and> (\<forall>x \<in> set fs. \<not> all_ones ftype (floattostr x))"
  using double.med_dataset_prefix [of ds t dmed dtype] single.med_dataset_prefix [of fs u fmed ftype]
    fconv_double fconv_float assms
  by (simp add: med_dataset_double_def med_dataset_float_def format_sizes doubletostr_eq floattostr_eq promote_def)

theorem med_dataset_separates_witness:
  "\<not> all_ones 2 (doubletostr 0x4008000000000000) \<and> \<not> all_ones 2 (floattostr 0x40400000)"
proof -
  have d: "med_dataset_double [0x4008000000000000, 0] 0 = Inr (0x3FF8000000000000, 2)"
    and f: "med_dataset_float [0x40400000, 0] 0 = Inr (0x3FC00000, 2)" by code_simp+
  have "\<forall>x \<in> set [0x4008000000000000, 0 :: 64 word]. is_fin x \<and> \<not> fsign x \<and> fexp x < 2 ^ 11 - 2"
    "\<forall>x \<in> set [0x40400000, 0 :: 32 word]. is_fin x \<and> \<not> fsign x \<and> fexp x < 2 ^ 8 - 2" by code_simp+
  from med_dataset_separates [OF d this(1) f this(2)] show ?thesis by simp
qed

text \<open>The conditions on mask and prefix length are needed, and the callers do not check them:
  for the data 0, 1, 1 \<open>med_dataset\<close> computes prefix length 1, the prefix has the length
  of a prediction code, and the decoder writes past its array.  A mean of 1/16 gives short
  codes with the length of sign and exponent, and the decoder loses step; a mean of
  \<open>2 ^ 32\<close> leaves no room for the bit that follows, and it is written past the array.\<close>

theorem mask_conditions_needed:
  "toSmallDataset_double [0, 0x3FF0000000000000, 0x3FF0000000000000] =
     Inr (0, [0, 0x3FF0000000000000, 0x3FF0000000000000]) \<and>
   med_dataset_double [0, 0x3FF0000000000000, 0x3FF0000000000000] 0 = Inr (0x3FE5555555555555, 1) \<and>
   myDecompress_bitwise_double_mask (data_bits (myCompress_bitwise_double_mask
       [0, 0x3FF0000000000000, 0x3FF0000000000000] 1 (take 20 (doubletostr 0x3FE5555555555555)) empty_bitbuf))
     3 1 (take 20 (doubletostr 0x3FE5555555555555)) = Inl OutOfBounds \<and>
   myDecompress_bitwise_double_mask (data_bits (myCompress_bitwise_double_mask
       [0x3FB0000000000000, 0x4000000000000000, 0x4008000000000000] 2 (take 20 (doubletostr 0x3FB0000000000000)) empty_bitbuf))
     3 2 (take 20 (doubletostr 0x3FB0000000000000)) = Inr [0x6004000000020040, 0x0008000000000000] \<and>
   myDecompress_bitwise_double_mask (data_bits (myCompress_bitwise_double_mask
       [0x41F0000000000000] 2 (take 20 (doubletostr 0x41F0000000000000)) empty_bitbuf))
     1 2 (take 20 (doubletostr 0x41F0000000000000)) = Inl OutOfBounds"
proof (intro conjI)
  have m: "take 20 (doubletostr 0x3FE5555555555555) =
      [False, False, True, True, True, True, True, True, True, True, True, False,
       False, True, False, True, False, True, False, True]"
    "take 20 (doubletostr 0x3FB0000000000000) =
      [False, False, True, True, True, True, True, True, True, False, True, True,
       False, False, False, False, False, False, False, False]"
    "take 20 (doubletostr 0x41F0000000000000) =
      [False, True, False, False, False, False, False, True, True, True, True, True,
       False, False, False, False, False, False, False, False]" unfolding doubletostr_eq by code_simp+
  have p1: "data_bits (myCompress_bitwise_double_mask
      [0, 0x3FF0000000000000, 0x3FF0000000000000] 1 (take 20 (doubletostr 0x3FE5555555555555)) empty_bitbuf) = [135, 254, 0, 0, 7, 254, 0, 0, 0]" unfolding m by code_simp
  have p2: "data_bits (myCompress_bitwise_double_mask
      [0x3FB0000000000000, 0x4000000000000000, 0x4008000000000000] 2 (take 20 (doubletostr 0x3FB0000000000000)) empty_bitbuf) = [96, 4, 0, 0, 0, 2, 0, 64, 0, 0]" unfolding m by code_simp
  have p3: "data_bits (myCompress_bitwise_double_mask
      [0x41F0000000000000] 2 (take 20 (doubletostr 0x41F0000000000000)) empty_bitbuf) = [96, 0, 0, 0, 0, 0]" unfolding m by code_simp
  show "toSmallDataset_double [0, 0x3FF0000000000000, 0x3FF0000000000000] =
     Inr (0, [0, 0x3FF0000000000000, 0x3FF0000000000000])" by code_simp
  show "med_dataset_double [0, 0x3FF0000000000000, 0x3FF0000000000000] 0 = Inr (0x3FE5555555555555, 1)"
    by code_simp
  show "myDecompress_bitwise_double_mask (data_bits (myCompress_bitwise_double_mask
       [0, 0x3FF0000000000000, 0x3FF0000000000000] 1 (take 20 (doubletostr 0x3FE5555555555555)) empty_bitbuf))
     3 1 (take 20 (doubletostr 0x3FE5555555555555)) = Inl OutOfBounds" unfolding p1 m by code_simp
  show "myDecompress_bitwise_double_mask (data_bits (myCompress_bitwise_double_mask
       [0x3FB0000000000000, 0x4000000000000000, 0x4008000000000000] 2 (take 20 (doubletostr 0x3FB0000000000000)) empty_bitbuf))
     3 2 (take 20 (doubletostr 0x3FB0000000000000)) = Inr [0x6004000000020040, 0x0008000000000000]"
    unfolding p2 m by code_simp
  show "myDecompress_bitwise_double_mask (data_bits (myCompress_bitwise_double_mask
       [0x41F0000000000000] 2 (take 20 (doubletostr 0x41F0000000000000)) empty_bitbuf))
     1 2 (take 20 (doubletostr 0x41F0000000000000)) = Inl OutOfBounds" unfolding p3 m by code_simp
qed

end
