(* ===== verification/NpCodec.thy ===== *)
theory NpCodec
  imports
  BitCodec
begin

text \<open>
  The bitwise codec without prediction of \<open>app/src/dataCompression.c\<close> (the functions whose
  names end in \<open>_np\<close>): every number is sent as its sign, exponent and leading mantissa bits.
\<close>

section \<open>The code\<close>

definition start_np :: "'w::len itself \<Rightarrow> bool \<Rightarrow> int result" where
  "start_np T b = (if \<not> b then Inr (1 + int (ebits T)) else Inl ExitFailure)"

definition value_np :: "bool list \<Rightarrow> unit \<Rightarrow> 'w::len word result" where
  "value_np arr h = Inr (fill_middle arr)"

definition remember_np :: "unit \<Rightarrow> 'w::len word \<Rightarrow> unit" where
  "remember_np h v = ()"

definition myDecompress_np :: "byte list \<Rightarrow> nat \<Rightarrow> 'w::len word list result" where
  "myDecompress_np packed num =
     run_decoder (decode_step (start_np TYPE('w)) value_np remember_np num) () packed"

definition myDecompress_bitwise_double_np :: "byte list \<Rightarrow> nat \<Rightarrow> 64 word list result" where
  "myDecompress_bitwise_double_np = myDecompress_np"

definition myDecompress_bitwise_np :: "byte list \<Rightarrow> nat \<Rightarrow> 32 word list result" where
  "myDecompress_bitwise_np = myDecompress_np"

definition myCompress_np :: "'w::len word list \<Rightarrow> bitbuf \<Rightarrow> bitbuf" where
  "myCompress_np data st = foldl compress_bitwise st data"

definition myCompress_bitwise_double_np :: "64 word list \<Rightarrow> bitbuf \<Rightarrow> bitbuf" where
  "myCompress_bitwise_double_np data st =
     foldl compress_bitwise_double st data"

definition myCompress_bitwise_np :: "32 word list \<Rightarrow> bitbuf \<Rightarrow> bitbuf" where
  "myCompress_bitwise_np data st =
     foldl compress_bitwise_float st data"


section \<open>Reading back what was written\<close>

sublocale ieee_format \<subseteq> np: bit_decoder "TYPE('w)" "start_np TYPE('w)"
  value_np remember_np "\<lambda>bits _. fill_middle bits"
proof
  show "0 < ebits TYPE('w)" by (rule widths(2))
qed (rule mant_cong value_np_def; assumption?)+

context ieee_format
begin

lemma myCompress_np_written:
  "bitbuf_ok st \<Longrightarrow> bitbuf_ok (myCompress_np (data :: 'w word list) st) \<and>
     written (myCompress_np data st) = written st @ concat (map code_bits data)"
  unfolding myCompress_np_def by (rule bb.put_loop) (simp_all add: compress_bitwise_written)

lemma emitted_np: "np.emitted h (map code_bits data) = map truncated (data :: 'w word list)"
  by (induction data arbitrary: h) (simp_all only: np.emitted.simps list.map truncated_def)

lemma np_result:
  assumes "\<forall>x \<in> set (data :: 'w word list). \<not> fsign x" and "st = myCompress_np data empty_bitbuf"
  shows "myDecompress_np (data_bits st) (length data) =
    Inr (map truncated (if pos st = 8 \<and> data \<noteq> [] \<and> kept (last data) = 0 then butlast data else data))"
proof -
  have st: "bitbuf_ok st" "written st = concat (map code_bits data)"
    using myCompress_np_written [of empty_bitbuf data] assms(2) by simp_all
  have "np.last_pending (map code_bits data) \<longleftrightarrow> data \<noteq> [] \<and> kept (last data) = 0"
    by (auto simp: np.last_pending_def last_map lazy_def length_code_bits)
  moreover have "unused st = 0 \<longleftrightarrow> pos st = 8" using st(1) by (auto simp: unused_def bitbuf_ok_def)
  moreover have "run_decoder (np.step (length data)) () (data_bits st) =
      Inr (if unused st = 0 \<and> np.last_pending (map code_bits data)
        then butlast (np.emitted () (map code_bits data)) else np.emitted () (map code_bits data))"
  proof (rule np.run_tokens)
    show "start_np TYPE('w) False = Inr (1 + int (ebits TYPE('w)))" by (simp add: start_np_def)
    show "8 \<le> 1 + int (ebits TYPE('w))" using width by (auto simp: ebits_def)
    show "unused st < 8" by (rule unused_less [OF st(1)])
    show "bytes_to_bits (data_bits st) = concat (map code_bits data) @ replicate (unused st) False"
      using written_padded [OF st(1)] st(2) by simp
  qed (use assms(1) in \<open>auto intro!: token_code_bits simp: start_np_def\<close>)
  ultimately show ?thesis by (simp add: myDecompress_np_def emitted_np map_butlast)
qed

lemma near_truncated:
  assumes "r = Inr (map truncated (data :: 'w word list))"
  shows "\<exists>out. r = Inr out \<and> length out = length data \<and>
    (\<forall>i < length data. \<bar>fval (data ! i) - fval (out ! i)\<bar> \<le> 2 powi (- 21))"
proof (intro exI conjI allI impI)
  show "r = Inr (map truncated data)" by (rule assms)
  show "\<bar>fval (data ! i) - fval (map truncated data ! i)\<bar> \<le> 2 powi (- 21)" if "i < length data" for i
    using truncated_error [of "data ! i"] that by (simp only: nth_map)
qed simp

lemma np_negative:
  assumes "x \<in> set (data :: 'w word list)" and "fsign x" and "st = myCompress_np data empty_bitbuf"
  shows "(myDecompress_np (data_bits st) (length data) :: 'w word list result) = Inl ExitFailure"
proof -
  obtain ys y zs where split: "data = ys @ y # zs" "fsign y" "\<forall>z \<in> set ys. \<not> fsign z"
    using split_list_first_prop [of data fsign] assms(1,2) by blast
  have st: "bitbuf_ok st" "written st = concat (map code_bits data)"
    using myCompress_np_written [of empty_bitbuf data] assms(3) by simp_all
  have "code_bits y = True # tl (code_bits y)" using hd_code_bits [of y] split(2) by simp
  then have stream: "bytes_to_bits (data_bits st) = concat (map code_bits ys) @ True #
      (tl (code_bits y) @ concat (map code_bits zs) @ replicate (unused st) False)"
    using written_padded [OF st(1)] st(2) split(1) by (metis append.assoc append_Cons concat.simps(2) concat_append list.simps(9) map_append)
  have "run_decoder (np.step (length data)) () (data_bits st) = Inl ExitFailure"
    by (rule np.run_fails [OF _ _ _ stream])
      (use split(3) in \<open>auto intro!: token_code_bits simp: start_np_def split(1)\<close>)
  then show ?thesis by (simp add: myDecompress_np_def)
qed

lemma np_size:
  "8 * bytes (myCompress_np (data :: 'w word list) empty_bitbuf) \<le> LENGTH('w) * length data"
proof -
  let ?st = "myCompress_np data empty_bitbuf"
  have st: "bitbuf_ok ?st" "written ?st = concat (map code_bits data)"
    using myCompress_np_written [of empty_bitbuf data] by simp_all
  have "length (concat (map code_bits data)) \<le> LENGTH('w) * length data"
  proof (induction data)
    case (Cons x data)
    have "length (code_bits x) \<le> LENGTH('w)" by (simp add: code_bits_def)
    then show ?case using Cons by simp
  qed simp
  moreover obtain m where "LENGTH('w) = 8 * m" using width that [of 4] that [of 8] by auto
  ultimately have "length (written ?st) \<le> 8 * (m * length data)" using st(2) by (simp add: mult.assoc)
  then have "bytes ?st \<le> m * length data" using bytes_written [OF st(1)] by linarith
  then show ?thesis using \<open>LENGTH('w) = 8 * m\<close> by simp
qed

end

lemmas np_functions =
  myCompress_bitwise_double_np_def myCompress_bitwise_np_def
  myDecompress_bitwise_double_np_def myDecompress_bitwise_np_def
  compress_bitwise_double_def compress_bitwise_float_def
  myCompress_np_def [symmetric]

section \<open>Properties\<close>

text \<open>C10: Numbers without a sign bit come back from the codec without prediction within half
  the error bound, all of them, if the compressed bits do not end with a whole byte or the
  last number keeps some mantissa bits.\<close>

theorem np_double_roundtrip:
  assumes "\<forall>x \<in> set data. \<not> fsign x" and "st = myCompress_bitwise_double_np data empty_bitbuf"
    and "pos st \<noteq> 8 \<or> kept (last data) \<noteq> 0"
  shows "\<exists>out. myDecompress_bitwise_double_np (data_bits st) (length data) = Inr out \<and>
    length out = length data \<and> (\<forall>i < length data. \<bar>fval (data ! i) - fval (out ! i)\<bar> \<le> 2 powi (- 21))"
proof -
  have "myDecompress_bitwise_double_np (data_bits st) (length data) = Inr (map truncated data)"
    using double.np_result [OF assms(1), of st] assms(2,3) by (auto simp: np_functions)
  then show ?thesis by (rule double.near_truncated)
qed

theorem np_double_roundtrip_witness:
  "\<exists>out. myDecompress_bitwise_double_np
      (data_bits (myCompress_bitwise_double_np [0x3FF8000000000001, 0] empty_bitbuf))
      (length [0x3FF8000000000001, 0 :: 64 word]) = Inr out \<and>
    length out = length [0x3FF8000000000001, 0 :: 64 word] \<and>
    (\<forall>i < length [0x3FF8000000000001, 0 :: 64 word]. \<bar>fval ([0x3FF8000000000001, 0 :: 64 word] ! i) - fval (out ! i)\<bar> \<le> 2 powi (- 21))"
proof -
  have pos: "pos (myCompress_bitwise_double_np [0x3FF8000000000001, 0] empty_bitbuf) \<noteq> 8" by code_simp
  have "\<forall>x \<in> set [0x3FF8000000000001, 0 :: 64 word]. \<not> fsign x" by code_simp
  from np_double_roundtrip [OF this refl disjI1 [OF pos]] show ?thesis .
qed

text \<open>The same for the \<open>float\<close> functions.\<close>

theorem np_float_roundtrip:
  assumes "\<forall>x \<in> set data. \<not> fsign x" and "st = myCompress_bitwise_np data empty_bitbuf"
    and "pos st \<noteq> 8 \<or> kept (last data) \<noteq> 0"
  shows "\<exists>out. myDecompress_bitwise_np (data_bits st) (length data) = Inr out \<and>
    length out = length data \<and> (\<forall>i < length data. \<bar>fval (data ! i) - fval (out ! i)\<bar> \<le> 2 powi (- 21))"
proof -
  have "myDecompress_bitwise_np (data_bits st) (length data) = Inr (map truncated data)"
    using single.np_result [OF assms(1), of st] assms(2,3) by (auto simp: np_functions)
  then show ?thesis by (rule single.near_truncated)
qed

theorem np_float_roundtrip_witness:
  "\<exists>out. myDecompress_bitwise_np
      (data_bits (myCompress_bitwise_np [0x3F800001, 0] empty_bitbuf))
      (length [0x3F800001, 0 :: 32 word]) = Inr out \<and>
    length out = length [0x3F800001, 0 :: 32 word] \<and>
    (\<forall>i < length [0x3F800001, 0 :: 32 word]. \<bar>fval ([0x3F800001, 0 :: 32 word] ! i) - fval (out ! i)\<bar> \<le> 2 powi (- 21))"
proof -
  have pos: "pos (myCompress_bitwise_np [0x3F800001, 0] empty_bitbuf) \<noteq> 8" by code_simp
  have "\<forall>x \<in> set [0x3F800001, 0 :: 32 word]. \<not> fsign x" by code_simp
  from np_float_roundtrip [OF this refl disjI1 [OF pos]] show ?thesis .
qed

text \<open>When the bits of all numbers fill whole bytes and the last number keeps no mantissa
  bits, the decoder never writes the last number, in either format.\<close>

theorem np_loses_last:
  assumes "\<forall>x \<in> set ds. \<not> fsign x" and "ds \<noteq> []" and "kept (last ds) = 0"
    and "sd = myCompress_bitwise_double_np ds empty_bitbuf" and "pos sd = 8"
    and "\<forall>x \<in> set fs. \<not> fsign x" and "fs \<noteq> []" and "kept (last fs) = 0"
    and "sf = myCompress_bitwise_np fs empty_bitbuf" and "pos sf = 8"
  shows "(\<exists>out. myDecompress_bitwise_double_np (data_bits sd) (length ds) = Inr out \<and>
      length out = length ds - 1) \<and>
    (\<exists>out. myDecompress_bitwise_np (data_bits sf) (length fs) = Inr out \<and>
      length out = length fs - 1)"
proof -
  have "myDecompress_bitwise_double_np (data_bits sd) (length ds) = Inr (map truncated (butlast ds))"
    using double.np_result [OF assms(1), of sd] assms(2-5) by (simp add: np_functions)
  moreover have "myDecompress_bitwise_np (data_bits sf) (length fs) = Inr (map truncated (butlast fs))"
    using single.np_result [OF assms(6), of sf] assms(7-10) by (simp add: np_functions)
  ultimately show ?thesis by simp
qed

theorem np_loses_last_witness:
  "(\<exists>out. myDecompress_bitwise_double_np
      (data_bits (myCompress_bitwise_double_np [0, 0] empty_bitbuf)) (length [0, 0 :: 64 word]) = Inr out \<and>
    length out = length [0, 0 :: 64 word] - 1) \<and>
   (\<exists>out. myDecompress_bitwise_np
      (data_bits (myCompress_bitwise_np [0, 0, 0, 0, 0, 0, 0, 0] empty_bitbuf))
      (length [0, 0, 0, 0, 0, 0, 0, 0 :: 32 word]) = Inr out \<and>
    length out = length [0, 0, 0, 0, 0, 0, 0, 0 :: 32 word] - 1)"
proof (rule np_loses_last)
  show "pos (myCompress_bitwise_double_np [0, 0] empty_bitbuf) = 8"
    "pos (myCompress_bitwise_np [0, 0, 0, 0, 0, 0, 0, 0] empty_bitbuf) = 8" by code_simp+
  show "\<forall>x \<in> set [0, 0 :: 64 word]. \<not> fsign x" "\<forall>x \<in> set [0, 0, 0, 0, 0, 0, 0, 0 :: 32 word]. \<not> fsign x"
    by code_simp+
  show "kept (last [0, 0 :: 64 word]) = 0" "kept (last [0, 0, 0, 0, 0, 0, 0, 0 :: 32 word]) = 0" by code_simp+
qed (rule refl list.distinct(2))+

text \<open>A number with a sign bit, even a negative zero, ends the receiver: the decoder takes
  the sign for a wrong leading bit and exits.\<close>

theorem np_exits_on_sign:
  assumes "x \<in> set ds" and "fsign x" and "y \<in> set fs" and "fsign y"
  shows "myDecompress_bitwise_double_np
      (data_bits (myCompress_bitwise_double_np ds empty_bitbuf)) (length ds) = Inl ExitFailure \<and>
    myDecompress_bitwise_np
      (data_bits (myCompress_bitwise_np fs empty_bitbuf)) (length fs) = Inl ExitFailure"
  using double.np_negative [OF assms(1,2) refl] single.np_negative [OF assms(3,4) refl]
  by (simp add: np_functions)

theorem np_exits_on_sign_witness:
  "myDecompress_bitwise_double_np
     (data_bits (myCompress_bitwise_double_np [1, 0x8000000000000000] empty_bitbuf))
     (length [1, 0x8000000000000000 :: 64 word]) = Inl ExitFailure"
proof -
  have "fsign (0x8000000000000000 :: 64 word)" "fsign (0x80000000 :: 32 word)" by code_simp+
  moreover have "0x8000000000000000 \<in> set [1, 0x8000000000000000 :: 64 word]"
    "0x80000000 \<in> set [0x80000000 :: 32 word]" by simp_all
  ultimately show ?thesis using np_exits_on_sign by blast
qed

text \<open>The compressed data of the codec without prediction is never longer than the data.\<close>

theorem np_never_expands:
  "bytes (myCompress_bitwise_double_np ds empty_bitbuf) \<le> 8 * length ds \<and>
   bytes (myCompress_bitwise_np fs empty_bitbuf) \<le> 4 * length fs"
  using double.np_size [of ds] single.np_size [of fs] by (simp add: np_functions)

end
