(* ===== verification/Hamming.thy ===== *)
theory Hamming
  imports Prelude
begin

unbundle bit_operations_syntax

text \<open>
  The Hamming SECDED code of \<open>app/src/abft.c\<close> (the same functions are repeated in
  \<open>app/src/dataCompression.c\<close>, which adds \<open>hamming_verify\<close>, \<open>hamming_rectify\<close> and
  \<open>hamming_print\<close> on \<open>char\<close> arrays).  Check bit \<open>i\<close> is stored apart from the data, in
  \<open>c[i]\<close>, but covers the data as if check and data bits were interleaved at positions
  \<open>1, 2, \<dots>, r+k\<close> with the check bits at the powers of two.  The loops find that
  interleaving with two counters; here it is computed once, as the \<open>layout\<close>.
\<close>

section \<open>The code\<close>

definition cast_bits_to_char :: "byte list \<Rightarrow> nat \<Rightarrow> bool list" where
  "cast_bits_to_char bits bytes =
     concat (map (\<lambda>i. map (\<lambda>j. bit (bits ! i) (7 - j)) [0..<8]) [0..<bytes])"

text \<open>The loop of \<open>hmLength\<close>; it returns the final \<open>r\<close>, one past the answer.\<close>

function hmLength_loop :: "nat \<Rightarrow> nat \<Rightarrow> nat" where
  "hmLength_loop k r =
     (if 2 ^ r - 1 - int r - int k < 0 then hmLength_loop k (r + 1) else r + 1)"
  by pat_completeness auto
termination
proof (relation "measure (\<lambda>(k, r). Suc k - r)")
  fix k r :: nat
  assume "2 ^ r - 1 - int r - int k < 0"
  moreover have "2 * int r \<le> 2 ^ r"
  proof (cases r)
    case (Suc n)
    have "Suc n \<le> 2 ^ n" by (rule Suc_leI) (rule less_exp)
    then have "int (Suc n) \<le> int (2 ^ n)" by (simp only: of_nat_le_iff)
    then show ?thesis by (simp add: Suc)
  qed simp
  ultimately have "r < Suc k" by linarith
  then show "((k, r + 1), k, r) \<in> measure (\<lambda>(k, r). Suc k - r)" by simp
qed simp

declare hmLength_loop.simps [simp del]

definition hmLength :: "nat \<Rightarrow> nat" where
  "hmLength k = hmLength_loop k 0 - 1"

text \<open>One round of the inner loop over \<open>j\<close>: the state is \<open>(sm, dnum, cnum)\<close> and \<open>get\<close>
  reads data bit \<open>dnum\<close>, from the \<open>char\<close> array or from the packed bytes.\<close>

definition check_step :: "(nat \<Rightarrow> bool) \<Rightarrow> nat \<Rightarrow> nat \<times> nat \<times> nat \<Rightarrow> nat \<Rightarrow> nat \<times> nat \<times> nat" where
  "check_step get i s j =
     (case s of (sm, dnum, cnum) \<Rightarrow>
        if j = 2 ^ cnum then (sm, dnum, cnum + 1)
        else let x = 2 ^ i; y = j mod (x * 2); x = y div x
             in (sm + of_bool (get dnum) * x, dnum + 1, cnum))"

definition check_sum :: "(nat \<Rightarrow> bool) \<Rightarrow> nat \<Rightarrow> nat \<Rightarrow> nat \<Rightarrow> nat" where
  "check_sum get k r i = fst (foldl (check_step get i) (0, 0, 0) [1..<r + k + 1])"

definition hamming_code :: "bool list \<Rightarrow> nat \<Rightarrow> nat \<Rightarrow> bool list" where
  "hamming_code data k r =
     (let c = map (\<lambda>i. check_sum (\<lambda>d. data ! d) k r i mod 2 \<noteq> 0) [0..<r];
          sm = sum_list (map (\<lambda>i. of_bool (data ! i)) [0..<k])
              + sum_list (map (\<lambda>i. of_bool (c ! i)) [0..<r])
      in c @ [(sm :: nat) mod 2 = 1])"

definition hamming_verify :: "bool list \<Rightarrow> bool list \<Rightarrow> nat \<Rightarrow> nat \<Rightarrow> bool list" where
  "hamming_verify data c k r =
     (let sm = sum_list (map (\<lambda>i. of_bool (data ! i)) [0..<k])
              + sum_list (map (\<lambda>i. of_bool (c ! i)) [0..<r])
      in map (\<lambda>i. check_sum (\<lambda>d. data ! d) k r i mod 2 \<noteq> of_bool (c ! i)) [0..<r]
         @ [(sm :: nat) mod 2 \<noteq> of_bool (c ! r)])"

definition hamming_verify_bit :: "byte list \<Rightarrow> bool list \<Rightarrow> nat \<Rightarrow> nat \<Rightarrow> bool list" where
  "hamming_verify_bit bits c bytes r =
     (let get = (\<lambda>bnum. bit (bits ! (bnum div 8)) (7 - bnum mod 8));
          sm = sum_list (map (\<lambda>i. sum_list (map (\<lambda>j. of_bool (bit (bits ! i) j)) [0..<8])) [0..<bytes])
              + sum_list (map (\<lambda>i. of_bool (c ! i)) [0..<r])
      in map (\<lambda>i. check_sum get (bytes * 8) r i mod 2 \<noteq> of_bool (c ! i)) [0..<r]
         @ [(sm :: nat) mod 2 \<noteq> of_bool (c ! r)])"

text \<open>\<open>error_bit_pos\<close> is added to, not set; the result is the type and the new position.\<close>

definition error_info :: "bool list \<Rightarrow> nat \<Rightarrow> nat \<Rightarrow> nat \<times> nat" where
  "error_info v r error_bit_pos =
     (let p = foldl (\<lambda>p i. p + of_bool (v ! i) * 2 ^ i) error_bit_pos [0..<r]
      in (if p > 0 \<and> \<not> v ! r then 1
          else if p = 0 \<and> v ! r then 2
          else if p > 0 \<and> v ! r then 3
          else 0, p))"

fun rectify_bit_loop ::
  "nat \<Rightarrow> byte list \<Rightarrow> bool list \<Rightarrow> nat \<Rightarrow> nat \<Rightarrow> nat list \<Rightarrow> byte list \<times> bool list" where
  "rectify_bit_loop e bits c bnum cnum [] = (bits, c)"
| "rectify_bit_loop e bits c bnum cnum (j # js) =
     (if j = 2 ^ cnum then
        if j = e then (bits, c[cnum := \<not> c ! cnum])
        else rectify_bit_loop e bits c bnum (cnum + 1) js
      else
        if j = e then
          (bits[bnum div 8 := bits ! (bnum div 8) XOR push_bit (7 - bnum mod 8) 1], c)
        else rectify_bit_loop e bits c (bnum + 1) cnum js)"

definition hamming_rectify_bit ::
  "byte list \<Rightarrow> bool list \<Rightarrow> nat \<Rightarrow> nat \<Rightarrow> nat \<Rightarrow> byte list \<times> bool list" where
  "hamming_rectify_bit bits c bytes r error_bit_pos =
     rectify_bit_loop error_bit_pos bits c 0 0 [1..<r + bytes * 8 + 1]"

fun rectify_loop ::
  "nat \<Rightarrow> bool list \<Rightarrow> bool list \<Rightarrow> nat \<Rightarrow> nat \<Rightarrow> nat list \<Rightarrow> bool list \<times> bool list" where
  "rectify_loop e data c dnum cnum [] = (data, c)"
| "rectify_loop e data c dnum cnum (j # js) =
     (if j = 2 ^ cnum then
        if j = e then (data, c[cnum := \<not> c ! cnum])
        else rectify_loop e data c dnum (cnum + 1) js
      else
        if j = e then (data[dnum := \<not> data ! dnum], c)
        else rectify_loop e data c (dnum + 1) cnum js)"

definition hamming_rectify ::
  "bool list \<Rightarrow> bool list \<Rightarrow> nat \<Rightarrow> nat \<Rightarrow> nat \<Rightarrow> bool list \<times> bool list" where
  "hamming_rectify data c k r error_bit_pos =
     rectify_loop error_bit_pos data c 0 0 [1..<r + k + 1]"

text \<open>The characters \<open>hamming_print\<close> prints: the interleaved word, then the parity bit.\<close>

fun print_loop :: "bool list \<Rightarrow> bool list \<Rightarrow> nat \<Rightarrow> nat \<Rightarrow> nat list \<Rightarrow> bool list" where
  "print_loop data c dnum cnum [] = []"
| "print_loop data c dnum cnum (j # js) =
     (if j = 2 ^ cnum then c ! cnum # print_loop data c dnum (cnum + 1) js
      else data ! dnum # print_loop data c (dnum + 1) cnum js)"

definition hamming_print :: "bool list \<Rightarrow> bool list \<Rightarrow> nat \<Rightarrow> nat \<Rightarrow> bool list \<times> bool" where
  "hamming_print data c k r = (print_loop data c 0 0 [1..<r + k + 1], c ! r)"

text \<open>\<open>hamming_encode\<close> returns the check bits and their number through its pointers.\<close>

definition hamming_encode :: "byte list \<Rightarrow> nat \<Rightarrow> bool list \<times> nat" where
  "hamming_encode bits bytes =
     (let data = cast_bits_to_char bits bytes; r = hmLength (bytes * 8)
      in (hamming_code data (bytes * 8) r, r))"

definition hamming_decode ::
  "byte list \<Rightarrow> bool list \<Rightarrow> nat \<Rightarrow> nat \<Rightarrow> nat \<times> byte list \<times> bool list" where
  "hamming_decode bits c bytes r =
     (let v = hamming_verify_bit bits c bytes r;
          (error_type, error_bit_pos) = error_info v r 0
      in if error_type = 2 then (error_type, bits, c[r := \<not> c ! r])
         else if error_type = 3 then
           (let (bits', c') = hamming_rectify_bit bits c bytes r error_bit_pos
            in (error_type, bits', c'))
         else (error_type, bits, c))"

text \<open>\<open>bit_flip\<close> takes the value \<open>rand()\<close> returned as an argument.\<close>

definition bit_flip :: "nat \<Rightarrow> byte list \<Rightarrow> nat \<Rightarrow> byte list" where
  "bit_flip rand bits bytes =
     (let num = rand mod (bytes * 8); byte = num div 8; b = num mod 8
      in bits[byte := bits ! byte XOR push_bit (7 - b) 1])"

section \<open>The interleaving\<close>

datatype slot = Data nat | Check nat

fun layout_loop :: "nat \<Rightarrow> nat \<Rightarrow> nat list \<Rightarrow> (nat \<times> slot) list" where
  "layout_loop dnum cnum [] = []"
| "layout_loop dnum cnum (j # js) =
     (if j = 2 ^ cnum then (j, Check cnum) # layout_loop dnum (cnum + 1) js
      else (j, Data dnum) # layout_loop (dnum + 1) cnum js)"

definition layout :: "nat \<Rightarrow> nat \<Rightarrow> (nat \<times> slot) list" where
  "layout k r = layout_loop 0 0 [1..<r + k + 1]"

fun slot_value :: "(nat \<Rightarrow> bool) \<Rightarrow> (nat \<Rightarrow> bool) \<Rightarrow> slot \<Rightarrow> bool" where
  "slot_value d c (Data n) = d n"
| "slot_value d c (Check i) = c i"

text \<open>The value each check-sum round adds is bit \<open>i\<close> of the position.\<close>

lemma mod_div_bit: "(j mod (2 ^ i * 2)) div 2 ^ i = (of_bool (bit j i) :: nat)"
proof -
  have "(j mod (2 ^ i * 2)) div 2 ^ i = (2 ^ i * (j div 2 ^ i mod 2) + j mod 2 ^ i) div 2 ^ i"
    by (simp add: mod_mult2_eq)
  also have "\<dots> = j div 2 ^ i mod 2" by simp
  finally have "(j mod (2 ^ i * 2)) div 2 ^ i = j div 2 ^ i mod 2" .
  then show ?thesis
    by (simp add: bit_iff_odd odd_iff_mod_2_eq_one)
qed

lemma fold_check_step:
  "foldl (check_step get i) (s, d, c) js =
     (s + sum_list (map (\<lambda>(j, x). of_bool (bit j i \<and> slot_value get (\<lambda>_. False) x)) (layout_loop d c js)),
      d + length (filter (\<lambda>(_, x). \<exists>n. x = Data n) (layout_loop d c js)),
      c + length (filter (\<lambda>(_, x). \<exists>n. x = Check n) (layout_loop d c js)))"
proof (induction js arbitrary: s d c)
  case Nil
  then show ?case by simp
next
  case (Cons j js)
  then show ?case
    by (auto simp: check_step_def Let_def mod_div_bit)
qed

lemma check_sum_layout:
  "check_sum get k r i =
     sum_list (map (\<lambda>(j, x). of_bool (bit j i \<and> slot_value get (\<lambda>_. False) x)) (layout k r))"
  by (simp add: check_sum_def fold_check_step layout_def)


fun data_no :: "slot \<Rightarrow> nat option" where
  "data_no (Data n) = Some n"
| "data_no (Check _) = None"

fun check_no :: "slot \<Rightarrow> nat option" where
  "check_no (Check i) = Some i"
| "check_no (Data _) = None"

definition numbers :: "(slot \<Rightarrow> nat option) \<Rightarrow> (nat \<times> slot) list \<Rightarrow> nat list" where
  "numbers f L = List.map_filter f (map snd L)"

lemma numbers_simps [simp]:
  "numbers f [] = []"
  "numbers f ((j, x) # L) = (case f x of None \<Rightarrow> numbers f L | Some n \<Rightarrow> n # numbers f L)"
  by (simp_all add: numbers_def map_filter_simps split: option.split)

lemma fst_layout_loop [simp]: "map fst (layout_loop d c js) = js"
  by (induction js arbitrary: d c) auto

lemma check_position: "(j, Check i) \<in> set (layout_loop d c js) \<Longrightarrow> j = 2 ^ i"
  by (induction js arbitrary: d c) (auto split: if_splits)

text \<open>
  The counters' meaning: on reaching position \<open>m + 1\<close> there have been \<open>c\<close> check bits,
  the powers of two up to \<open>m\<close>, and \<open>d = m - c\<close> data bits.
\<close>

definition counters :: "nat \<Rightarrow> nat \<Rightarrow> nat \<Rightarrow> bool" where
  "counters m d c \<longleftrightarrow> d + c = m \<and> m < 2 ^ c \<and> (c = 0 \<or> 2 ^ (c - 1) \<le> m)"

lemma counters_unique:
  assumes "counters m d c" and "counters m d' c'"
  shows "c = c' \<and> d = d'"
proof -
  have "\<not> x < y" if "counters m e x" "counters m f y" for e f x y
  proof
    assume "x < y"
    then have "(2::nat) ^ x \<le> 2 ^ (y - 1)" by (intro power_increasing) auto
    moreover have "m < 2 ^ x" "2 ^ (y - 1) \<le> m"
      using that \<open>x < y\<close> by (auto simp: counters_def)
    ultimately show False by linarith
  qed
  with assms have "c = c'" by (meson linorder_neqE_nat)
  with assms show ?thesis by (simp add: counters_def)
qed

lemma counters_Suc:
  assumes "counters m d c"
  shows "if Suc m = 2 ^ c then counters (Suc m) d (c + 1) else counters (Suc m) (d + 1) c"
  using assms by (auto simp: counters_def)

lemma numbers_layout_loop:
  assumes "counters m d c" and "m \<le> n"
  shows "\<exists>d' c'. counters n d' c' \<and>
    numbers data_no (layout_loop d c [Suc m..<Suc n]) = [d..<d'] \<and>
    numbers check_no (layout_loop d c [Suc m..<Suc n]) = [c..<c'] \<and> d \<le> d' \<and> c \<le> c'"
  using assms
proof (induction "n - m" arbitrary: m d c)
  case 0
  then show ?case by (intro exI [of _ d] exI [of _ c]) simp
next
  case (Suc x)
  then have m: "m < n" and x: "x = n - Suc m" "Suc m \<le> n" by simp_all
  then have js: "[Suc m..<Suc n] = Suc m # [Suc (Suc m)..<Suc n]"
    by (simp add: upt_conv_Cons del: upt_Suc)
  show ?case
  proof (cases "Suc m = 2 ^ c")
    case True
    with Suc.prems have "counters (Suc m) d (c + 1)" using counters_Suc by metis
    from Suc.hyps(1) [OF x(1) this x(2)] obtain d' c' where IH: "counters n d' c'"
      "numbers data_no (layout_loop d (c + 1) [Suc (Suc m)..<Suc n]) = [d..<d']"
      "numbers check_no (layout_loop d (c + 1) [Suc (Suc m)..<Suc n]) = [c + 1..<c']"
      "d \<le> d'" "c + 1 \<le> c'" by blast
    have "layout_loop d c [Suc m..<Suc n] =
        (Suc m, Check c) # layout_loop d (c + 1) [Suc (Suc m)..<Suc n]"
      unfolding js using True by (simp del: upt_Suc)
    moreover have "[c..<c'] = c # [c + 1..<c']" using IH(5) by (simp add: upt_conv_Cons)
    ultimately show ?thesis using IH by (intro exI [of _ d'] exI [of _ c']) simp
  next
    case False
    with Suc.prems have "counters (Suc m) (d + 1) c" using counters_Suc by metis
    from Suc.hyps(1) [OF x(1) this x(2)] obtain d' c' where IH: "counters n d' c'"
      "numbers data_no (layout_loop (d + 1) c [Suc (Suc m)..<Suc n]) = [d + 1..<d']"
      "numbers check_no (layout_loop (d + 1) c [Suc (Suc m)..<Suc n]) = [c..<c']"
      "d + 1 \<le> d'" "c \<le> c'" by blast
    have "layout_loop d c [Suc m..<Suc n] =
        (Suc m, Data d) # layout_loop (d + 1) c [Suc (Suc m)..<Suc n]"
      unfolding js using False by (simp del: upt_Suc)
    moreover have "[d..<d'] = d # [d + 1..<d']" using IH(4) by (simp add: upt_conv_Cons)
    ultimately show ?thesis using IH by (intro exI [of _ d'] exI [of _ c']) simp
  qed
qed

text \<open>The number of check bits fits the block when it is the one \<open>hmLength\<close> computes.\<close>

definition fits :: "nat \<Rightarrow> nat \<Rightarrow> bool" where
  "fits k r \<longleftrightarrow> counters (r + k) k r"

lemma layout_numbers:
  assumes "fits k r"
  shows "numbers data_no (layout k r) = [0..<k]" and "numbers check_no (layout k r) = [0..<r]"
proof -
  have "counters 0 0 0" by (simp add: counters_def)
  from numbers_layout_loop [OF this, of "r + k"] obtain d' c' where
    "counters (r + k) d' c'"
    "numbers data_no (layout k r) = [0..<d']" "numbers check_no (layout k r) = [0..<c']"
    by (auto simp: layout_def)
  moreover from this(1) assms have "c' = r \<and> d' = k"
    unfolding fits_def by (intro counters_unique) 
  ultimately show "numbers data_no (layout k r) = [0..<k]"
    and "numbers check_no (layout k r) = [0..<r]" by simp_all
qed

lemma hmLength_loop_fits:
  assumes "r = 0 \<or> 2 ^ (r - 1) < r + k" and "0 < k"
  shows "fits k (hmLength_loop k r - 1) \<and> 0 < hmLength_loop k r - 1"
  using assms
proof (induction k r rule: hmLength_loop.induct)
  case (1 k r)
  have int: "(2 ^ r - 1 - int r - int k < 0) = (2 ^ r < Suc (r + k))"
    by (metis (mono_tags, lifting) diff_diff_eq diff_less_0_iff_less of_nat_1 of_nat_add
        of_nat_less_iff of_nat_numeral of_nat_power plus_1_eq_Suc add.assoc)
  show ?case
  proof (cases "2 ^ r < Suc (r + k)")
    case True
    then have "fits k (hmLength_loop k (r + 1) - 1) \<and> 0 < hmLength_loop k (r + 1) - 1"
      using 1 int by simp
    then show ?thesis using True int by (simp add: hmLength_loop.simps [of k r])
  next
    case False
    then have "0 < r" using "1.prems"(2) by (cases r) auto
    then show ?thesis using False int "1.prems"
      by (simp add: hmLength_loop.simps [of k r] fits_def counters_def)
  qed
qed

lemma hmLength_fits: "0 < k \<Longrightarrow> fits k (hmLength k)"
  and hmLength_pos: "0 < k \<Longrightarrow> 0 < hmLength k"
  using hmLength_loop_fits [of 0 k] by (simp_all add: hmLength_def)

lemma hmLength_loop_strict:
  "(r = 0 \<or> 2 ^ (r - 1) < r + k) \<Longrightarrow> 0 < k \<Longrightarrow>
     2 ^ (hmLength_loop k r - 2) < hmLength_loop k r - 1 + k"
proof (induction k r rule: hmLength_loop.induct)
  case (1 k r)
  show ?case
  proof (cases "(2 :: int) ^ r - 1 - int r - int k < 0")
    case True
    then have "int (2 ^ r) < int (r + 1 + k)" by simp
    then have "2 ^ r < r + 1 + k" by (simp only: of_nat_less_iff)
    then show ?thesis using 1 True by (simp add: hmLength_loop.simps [of k r])
  next
    case False
    then have "0 < r" using "1.prems"(2) by (cases r) auto
    then show ?thesis using False "1.prems" by (simp add: hmLength_loop.simps [of k r])
  qed
qed

lemma hmLength_strict: "0 < k \<Longrightarrow> 2 ^ (hmLength k - 1) < hmLength k + k"
  using hmLength_loop_strict [of 0 k] by (simp add: hmLength_def numeral_2_eq_2)

end
