(* ===== verification/Secded.thy ===== *)
theory Secded
  imports Hamming
begin

unbundle bit_operations_syntax

text \<open>
  Why the Hamming code of theory \<open>Hamming\<close> corrects one and detects two errors: the
  vector the verifier computes is a linear function of the word, the \<open>syndrome\<close>; a
  flip at position \<open>p\<close> adds the binary digits of \<open>p\<close> to it and inverts the parity.
\<close>

section \<open>The layout covers every bit once\<close>

lemma set_numbers: "n \<in> set (numbers f L) \<longleftrightarrow> (\<exists>j x. (j, x) \<in> set L \<and> f x = Some n)"
  by (induction L) (force split: option.splits)+

lemma data_no_Some: "data_no x = Some n \<longleftrightarrow> x = Data n"
  and check_no_Some: "check_no x = Some n \<longleftrightarrow> x = Check n"
  by (cases x; auto)+

lemma distinct_slots_aux:
  "distinct (numbers data_no L) \<Longrightarrow> distinct (numbers check_no L) \<Longrightarrow> distinct (map snd L)"
proof (induction L)
  case Nil
  then show ?case by simp
next
  case (Cons p L)
  obtain j x where p: "p = (j, x)" by (cases p)
  have "x \<notin> set (map snd L)"
  proof
    assume "x \<in> set (map snd L)"
    then obtain j' where "(j', x) \<in> set L" by auto
    then have "(\<exists>n. data_no x = Some n \<and> n \<in> set (numbers data_no L)) \<or>
               (\<exists>n. check_no x = Some n \<and> n \<in> set (numbers check_no L))"
      by (cases x) (fastforce simp: set_numbers)+
    with Cons.prems p show False by auto
  qed
  moreover have "distinct (numbers data_no L)" "distinct (numbers check_no L)"
    using Cons.prems p by (auto split: option.splits)
  ultimately show ?case using Cons.IH p by simp
qed

lemma distinct_slots: "fits k r \<Longrightarrow> distinct (map snd (layout k r))"
  by (rule distinct_slots_aux) (simp_all add: layout_numbers)

lemma fst_layout [simp]: "map fst (layout k r) = [1..<r + k + 1]"
  by (simp add: layout_def del: upt_Suc)

lemma distinct_positions: "distinct (map fst (layout k r))"
  by (simp del: upt_Suc)

lemma layout_position: "(j, x) \<in> set (layout k r) \<Longrightarrow> 0 < j \<and> j \<le> r + k"
  by (metis One_nat_def Suc_eq_plus1 Suc_le_eq atLeastLessThan_iff fst_conv fst_layout
      image_eqI less_Suc_eq_le list.set_map set_upt)

lemma data_slot_iff: "fits k r \<Longrightarrow> (\<exists>j. (j, Data n) \<in> set (layout k r)) \<longleftrightarrow> n < k"
  using set_numbers [of n data_no "layout k r"] by (simp add: layout_numbers data_no_Some)

lemma data_slot_less: "fits k r \<Longrightarrow> (j, Data n) \<in> set (layout k r) \<Longrightarrow> n < k"
  using data_slot_iff by blast

lemma check_slot_iff:
  assumes "fits k r"
  shows "(j, Check i) \<in> set (layout k r) \<longleftrightarrow> i < r \<and> j = 2 ^ i"
proof -
  have "i < r \<longleftrightarrow> (\<exists>j. (j, Check i) \<in> set (layout k r))"
    using set_numbers [of i check_no "layout k r"] layout_numbers(2) [OF assms]
    by (simp add: check_no_Some)
  moreover have "(j', Check i) \<in> set (layout k r) \<Longrightarrow> j' = 2 ^ i" for j'
    unfolding layout_def by (rule check_position)
  ultimately show ?thesis by blast
qed

text \<open>
  The number of a slot's bit in the stored word (\<open>k\<close> data bits, \<open>r\<close> check bits, the parity
  bit), and \<open>placed k r e p\<close>: bit \<open>e\<close> of the word sits at position \<open>p\<close> of the
  interleaving; the parity bit has position 0.
\<close>

fun slot_no :: "nat \<Rightarrow> slot \<Rightarrow> nat" where
  "slot_no k (Data n) = n"
| "slot_no k (Check i) = k + i"

definition placed :: "nat \<Rightarrow> nat \<Rightarrow> nat \<Rightarrow> nat \<Rightarrow> bool" where
  "placed k r e p \<longleftrightarrow>
     (\<exists>x. (p, x) \<in> set (layout k r) \<and> slot_no k x = e) \<or> e = k + r \<and> p = 0"

lemma slot_no_less: "fits k r \<Longrightarrow> (p, x) \<in> set (layout k r) \<Longrightarrow> slot_no k x < k + r"
  using data_slot_iff [of k r] check_slot_iff [of k r p] by (cases x) (auto intro: trans_less_add1)

lemma slot_no_inj:
  assumes "fits k r" and "(p, x) \<in> set (layout k r)" and "(q, y) \<in> set (layout k r)"
    and "slot_no k x = slot_no k y"
  shows "x = y"
  using assms(2-4)
  by (cases x; cases y) (auto dest!: data_slot_less [OF assms(1)])

lemma placed_exists:
  assumes "fits k r" and "e < k + r + 1"
  shows "\<exists>p. placed k r e p"
proof -
  consider "e < k" | "k \<le> e" "e < k + r" | "e = k + r" using assms(2) by linarith
  then show ?thesis
  proof cases
    case 1
    then obtain p where "(p, Data e) \<in> set (layout k r)" using data_slot_iff [OF assms(1), of e] by auto
    then show ?thesis by (force simp: placed_def)
  next
    case 2
    then have "(2 ^ (e - k), Check (e - k)) \<in> set (layout k r)"
      using check_slot_iff [OF assms(1)] by auto
    then show ?thesis using 2 by (force simp: placed_def)
  qed (auto simp: placed_def)
qed

lemma placed_less: "fits k r \<Longrightarrow> placed k r e p \<Longrightarrow> p < 2 ^ r"
  by (auto simp: placed_def fits_def counters_def dest!: layout_position)

lemma placed_inj:
  assumes "fits k r" and "placed k r e p" and "placed k r f p"
  shows "e = f"
proof -
  have "x = y" if "(p, x) \<in> set (layout k r)" "(p, y) \<in> set (layout k r)" for x y
    using that distinct_positions [of k r] by (metis eq_key_imp_eq_value)
  moreover have "(0, x) \<notin> set (layout k r)" for x using layout_position by blast
  ultimately show ?thesis using assms(2,3) unfolding placed_def by fastforce
qed

section \<open>The syndrome\<close>

definition word_value :: "bool list \<Rightarrow> nat \<Rightarrow> slot \<Rightarrow> bool" where
  "word_value w k = slot_value (\<lambda>n. w ! n) (\<lambda>i. w ! (k + i))"

definition position_sum :: "(nat \<times> slot) list \<Rightarrow> (slot \<Rightarrow> bool) \<Rightarrow> nat \<Rightarrow> nat" where
  "position_sum L val i = sum_list (map (\<lambda>(j, x). of_bool (bit j i \<and> val x)) L)"

definition syndrome :: "bool list \<Rightarrow> nat \<Rightarrow> nat \<Rightarrow> bool list" where
  "syndrome w k r =
     map (\<lambda>i. odd (position_sum (layout k r) (word_value w k) i)) [0..<r] @ [odd (ones w)]"

lemma length_syndrome [simp]: "length (syndrome w k r) = Suc r"
  by (simp add: syndrome_def)

lemma nth_syndrome:
  "i < r \<Longrightarrow> syndrome w k r ! i = odd (position_sum (layout k r) (word_value w k) i)"
  "syndrome w k r ! r = odd (ones w)"
  by (simp_all add: syndrome_def nth_append)

lemma position_sum_flip:
  assumes "distinct (map snd L)" and "(p, x) \<in> set L" and "\<And>y. val' y = (val y \<noteq> (y = x))"
  shows "odd (position_sum L val' i) \<longleftrightarrow> odd (position_sum L val i) \<noteq> bit p i"
  using assms(1,2)
proof (induction L)
  case Nil
  then show ?case by simp
next
  case (Cons q L)
  obtain j y where q: "q = (j, y)" by (cases q)
  show ?case
  proof (cases "y = x")
    case True
    then have "x \<notin> snd ` set L" using Cons.prems(1) q by simp
    then have "position_sum L val' i = position_sum L val i"
      unfolding position_sum_def by (intro arg_cong [where f = sum_list] map_cong) (force simp: assms(3))+
    moreover have "j = p" using Cons.prems q True
      by (metis (no_types, lifting) \<open>x \<notin> snd ` set L\<close> image_eqI insert_iff list.simps(15) prod.inject snd_conv)
    ultimately show ?thesis using q True by (auto simp: position_sum_def assms(3))
  next
    case False
    then have "(p, x) \<in> set L" using Cons.prems(2) q by auto
    then show ?thesis using Cons q False by (auto simp: position_sum_def assms(3))
  qed
qed

lemma position_sum_cong:
  "(\<And>j x. (j, x) \<in> set L \<Longrightarrow> val x = val' x) \<Longrightarrow> position_sum L val i = position_sum L val' i"
  unfolding position_sum_def by (intro arg_cong [where f = sum_list] map_cong) force+

lemma word_value_flip:
  assumes "fits k r" and "length w = k + r + 1" and "e < k + r + 1" and "(j, x) \<in> set (layout k r)"
  shows "word_value (w[e := \<not> w ! e]) k x = (word_value w k x \<noteq> (slot_no k x = e))"
  using assms slot_no_less [OF assms(1,4)]
  by (cases x) (auto simp: word_value_def nth_list_update)

text \<open>What a flip of bit \<open>e\<close> does to the syndrome.\<close>

lemma syndrome_flip:
  assumes "fits k r" and "length w = k + r + 1" and "e < k + r + 1" and "placed k r e p"
  shows "i < r \<Longrightarrow> syndrome (w[e := \<not> w ! e]) k r ! i = (syndrome w k r ! i \<noteq> bit p i)"
    and "syndrome (w[e := \<not> w ! e]) k r ! r = (\<not> syndrome w k r ! r)"
proof -
  let ?L = "layout k r" and ?w = "w[e := \<not> w ! e]"
  show "syndrome ?w k r ! r = (\<not> syndrome w k r ! r)"
    using assms by (simp add: nth_syndrome odd_ones_update)
  assume i: "i < r"
  have "odd (position_sum ?L (word_value ?w k) i) \<longleftrightarrow>
      odd (position_sum ?L (word_value w k) i) \<noteq> bit p i"
  proof (cases "e = k + r \<and> p = 0")
    case True
    have "position_sum ?L (word_value ?w k) i = position_sum ?L (word_value w k) i"
    proof (rule position_sum_cong)
      fix j x assume "(j, x) \<in> set ?L"
      then show "word_value ?w k x = word_value w k x"
        using word_value_flip [OF assms(1-3)] slot_no_less [OF assms(1)] True by fastforce
    qed
    then show ?thesis using True by simp
  next
    case False
    then obtain x where x: "(p, x) \<in> set ?L" "slot_no k x = e"
      using assms(4) by (auto simp: placed_def)
    have "odd (position_sum ?L (\<lambda>y. word_value w k y \<noteq> (y = x)) i) \<longleftrightarrow>
      odd (position_sum ?L (word_value w k) i) \<noteq> bit p i"
      using distinct_slots [OF assms(1)] x(1) by (rule position_sum_flip) simp
    moreover have "position_sum ?L (word_value ?w k) i =
        position_sum ?L (\<lambda>y. word_value w k y \<noteq> (y = x)) i"
    proof (rule position_sum_cong)
      fix j y assume y: "(j, y) \<in> set ?L"
      have "(slot_no k y = e) = (y = x)" using slot_no_inj [OF assms(1) y x(1)] x(2) by auto
      then show "word_value ?w k y = (word_value w k y \<noteq> (y = x))"
        using word_value_flip [OF assms(1-3) y] by simp
    qed
    ultimately show ?thesis by simp
  qed
  then show "syndrome ?w k r ! i = (syndrome w k r ! i \<noteq> bit p i)"
    using i by (simp add: nth_syndrome)
qed

section \<open>What the encoder and the verifiers compute\<close>

text \<open>The data entries and the check entries of a position sum.\<close>

lemma check_entries_sum:
  assumes "\<And>j i'. (j, Check i') \<in> set L \<Longrightarrow> j = 2 ^ i'" and "distinct (numbers check_no L)"
  shows "position_sum L (slot_value get c) i =
    position_sum L (slot_value get (\<lambda>_. False)) i + of_bool (i \<in> set (numbers check_no L) \<and> c i)"
  using assms
proof (induction L)
  case Nil
  then show ?case by (simp add: position_sum_def)
next
  case (Cons q L)
  obtain j x where q: "q = (j, x)" by (cases q)
  have "position_sum L (slot_value get c) i =
    position_sum L (slot_value get (\<lambda>_. False)) i + of_bool (i \<in> set (numbers check_no L) \<and> c i)"
    by (rule Cons.IH) (use Cons.prems q in \<open>auto split: option.splits\<close>)
  moreover have "(bit j i \<and> c i') = (i = i' \<and> c i)" if "x = Check i'" for i'
    using Cons.prems(1) [of j i'] q that by (auto simp: bit_exp_iff bit_2_iff possible_bit_def)
  ultimately show ?case
    using Cons.prems(2) q by (cases x) (auto simp: position_sum_def)
qed

lemma position_sum_word:
  assumes "fits k r" and "i < r"
  shows "position_sum (layout k r) (slot_value get c) i = check_sum get k r i + of_bool (c i)"
proof -
  have "position_sum (layout k r) (slot_value get c) i =
      position_sum (layout k r) (slot_value get (\<lambda>_. False)) i +
      of_bool (i \<in> set (numbers check_no (layout k r)) \<and> c i)"
    by (rule check_entries_sum) (simp_all add: check_slot_iff layout_numbers assms(1))
  then show ?thesis
    using assms by (simp add: check_sum_layout position_sum_def layout_numbers)
qed

lemma check_sum_cong:
  assumes "fits k r" and "\<And>n. n < k \<Longrightarrow> get n = get' n"
  shows "check_sum get k r i = check_sum get' k r i"
proof -
  have "position_sum (layout k r) (slot_value get (\<lambda>_. False)) i =
      position_sum (layout k r) (slot_value get' (\<lambda>_. False)) i"
  proof (rule position_sum_cong)
    fix j x assume "(j, x) \<in> set (layout k r)"
    then show "slot_value get (\<lambda>_. False) x = slot_value get' (\<lambda>_. False) x"
      using assms data_slot_less by (cases x) auto
  qed
  then show ?thesis by (simp add: check_sum_layout position_sum_def)
qed

lemma ones_nth: "length bs = n \<Longrightarrow> sum_list (map (\<lambda>i. of_bool (bs ! i)) [0..<n]) = ones bs"
  unfolding ones_def by (intro arg_cong [where f = sum_list] nth_equalityI) auto

lemma ones_prefix:
  "length c = Suc r \<Longrightarrow> ones c = sum_list (map (\<lambda>i. of_bool (c ! i)) [0..<r]) + of_bool (c ! r)"
  using ones_nth [of c "Suc r"] by simp

lemma mod_2_neq: "(n mod 2 \<noteq> of_bool b) \<longleftrightarrow> (odd (n :: nat) \<noteq> b)"
  by (cases b) (simp_all add: odd_iff_mod_2_eq_one)

lemma hamming_verify_syndrome:
  assumes "fits k r" and "length data = k" and "length c = Suc r"
  shows "hamming_verify data c k r = syndrome (data @ c) k r"
proof (rule nth_equalityI)
  show "length (hamming_verify data c k r) = length (syndrome (data @ c) k r)"
    by (simp add: hamming_verify_def)
  fix i assume "i < length (hamming_verify data c k r)"
  then consider "i < r" | "i = r" by (fastforce simp: hamming_verify_def less_Suc_eq)
  then show "hamming_verify data c k r ! i = syndrome (data @ c) k r ! i"
  proof cases
    case 1
    have "check_sum (\<lambda>d. data ! d) k r i = check_sum (\<lambda>d. (data @ c) ! d) k r i"
      using assms by (intro check_sum_cong) (auto simp: nth_append)
    then show ?thesis
      using 1 assms position_sum_word [OF assms(1) 1, of "\<lambda>d. (data @ c) ! d" "\<lambda>i. (data @ c) ! (k + i)"]
      by (simp add: hamming_verify_def mod_2_neq nth_append nth_syndrome word_value_def)
  next
    case 2
    then show ?thesis
      using assms ones_nth [of data k] ones_prefix [of c r]
      by (auto simp: hamming_verify_def mod_2_neq nth_append nth_syndrome)
  qed
qed

lemma ones_byte_bits: "sum_list (map (\<lambda>j. of_bool (bit b j)) [0..<8]) = ones (byte_bits b)"
proof -
  have "ones (byte_bits b) = ones (rev (byte_bits b))" by (simp add: ones_def flip: rev_map)
  also have "rev (byte_bits b) = map (\<lambda>j. bit b j) [0..<8]"
    by (rule nth_equalityI) (auto simp: rev_nth)
  finally show ?thesis by (simp add: ones_def comp_def)
qed

lemma ones_bytes_to_bits:
  assumes "length bits = n"
  shows "sum_list (map (\<lambda>i. sum_list (map (\<lambda>j. of_bool (bit (bits ! i) j)) [0..<8])) [0..<n]) =
     ones (bytes_to_bits bits)"
proof -
  have "map (\<lambda>i. ones (byte_bits (bits ! i))) [0..<n] = map (\<lambda>b. ones (byte_bits b)) bits"
    using assms by (intro nth_equalityI) auto
  moreover have "sum_list (map (\<lambda>b. ones (byte_bits b)) bs) = ones (bytes_to_bits bs)" for bs
    by (induction bs) auto
  ultimately show ?thesis by (simp add: ones_byte_bits)
qed

lemma hamming_verify_bit_syndrome:
  assumes "fits (8 * n) r" and "length bits = n" and "length c = Suc r"
  shows "hamming_verify_bit bits c n r = syndrome (bytes_to_bits bits @ c) (8 * n) r"
proof -
  have "check_sum (\<lambda>d. bit (bits ! (d div 8)) (7 - d mod 8)) (8 * n) r i =
      check_sum (\<lambda>d. bytes_to_bits bits ! d) (8 * n) r i" for i
    using assms(1) by (rule check_sum_cong) (simp add: nth_bytes_to_bits assms(2))
  then have "hamming_verify_bit bits c n r = hamming_verify (bytes_to_bits bits) c (8 * n) r"
    using ones_bytes_to_bits [OF assms(2)] ones_nth [of "bytes_to_bits bits" "8 * n"] assms(2)
    by (simp add: hamming_verify_bit_def hamming_verify_def mult.commute)
  then show ?thesis using assms by (simp add: hamming_verify_syndrome)
qed

lemma hamming_code_eq:
  assumes "length data = k"
  shows "hamming_code data k r =
    (let c = map (\<lambda>i. odd (check_sum (\<lambda>d. data ! d) k r i)) [0..<r] in c @ [odd (ones data + ones c)])"
proof -
  define c where "c = map (\<lambda>i. odd (check_sum (\<lambda>d. data ! d) k r i)) [0..<r]"
  have c: "map (\<lambda>i. check_sum (\<lambda>d. data ! d) k r i mod 2 \<noteq> 0) [0..<r] = c"
    by (simp add: c_def odd_iff_mod_2_eq_one)
  show ?thesis
    unfolding hamming_code_def Let_def c c_def [symmetric]
    using ones_nth [of data k] ones_nth [of c r] assms
    by (simp add: c_def odd_iff_mod_2_eq_one del: odd_add even_add)
qed

lemma length_hamming_code [simp]: "length (hamming_code data k r) = Suc r"
  by (simp add: hamming_code_def Let_def)

lemma nth_hamming_code:
  "i < r \<Longrightarrow> hamming_code data k r ! i = odd (check_sum (\<lambda>d. data ! d) k r i)"
  by (simp add: hamming_code_def Let_def nth_append odd_iff_mod_2_eq_one)

lemma ones_hamming_code:
  "length data = k \<Longrightarrow> even (ones (data @ hamming_code data k r))"
  by (simp add: hamming_code_eq Let_def)

text \<open>A codeword has the zero syndrome.\<close>

lemma syndrome_codeword:
  assumes "fits k r" and "length data = k"
  shows "syndrome (data @ hamming_code data k r) k r = replicate (Suc r) False"
proof (rule nth_equalityI)
  let ?w = "data @ hamming_code data k r"
  show "length (syndrome ?w k r) = length (replicate (Suc r) False)" by simp
  fix i assume "i < length (syndrome ?w k r)"
  then consider "i < r" | "i = r" by fastforce
  then show "syndrome ?w k r ! i = replicate (Suc r) False ! i"
  proof cases
    case 1
    have "check_sum (\<lambda>d. ?w ! d) k r i = check_sum (\<lambda>d. data ! d) k r i"
      using assms by (intro check_sum_cong) (auto simp: nth_append)
    moreover have "?w ! (k + i) = odd (check_sum (\<lambda>d. data ! d) k r i)"
      using 1 assms(2) by (simp add: nth_append nth_hamming_code)
    ultimately have "even (position_sum (layout k r) (word_value ?w k) i)"
      unfolding word_value_def using position_sum_word [OF assms(1) 1] by simp
    then show ?thesis using 1 by (simp add: nth_syndrome nth_Cons')
  next
    case 2
    then show ?thesis using ones_hamming_code [OF assms(2)] by (simp add: nth_syndrome nth_Cons')
  qed
qed

section \<open>Locating and repairing\<close>

declare push_bit_of_1 [simp del]

lemma sum_positions:
  fixes p :: nat
  assumes "\<And>i. i < r \<Longrightarrow> v ! i = bit p i"
  shows "foldl (\<lambda>s i. s + of_bool (v ! i) * 2 ^ i) s [0..<r] = s + take_bit r p"
  using assms by (induction r) (simp_all add: take_bit_Suc_from_most)

lemma error_info_eq:
  fixes p :: nat
  assumes "\<And>i. i < r \<Longrightarrow> v ! i = bit p i" and "p < 2 ^ r"
  shows "error_info v r 0 =
    (if p > 0 \<and> \<not> v ! r then 1 else if p = 0 \<and> v ! r then 2 else if p > 0 \<and> v ! r then 3 else 0, p)"
  using sum_positions [of r v p 0] assms by (simp add: error_info_def take_bit_nat_eq_self)

lemma byte_bits_xor:
  assumes "m < 8"
  shows "byte_bits (b XOR push_bit (7 - m) 1) = (byte_bits b)[m := \<not> byte_bits b ! m]"
proof (rule nth_equalityI)
  fix i assume "i < length (byte_bits (b XOR push_bit (7 - m) 1))"
  then have "i < 8" by simp
  moreover have "7 - m = 7 - i \<longleftrightarrow> m = i" using assms \<open>i < 8\<close> by auto
  ultimately show "byte_bits (b XOR push_bit (7 - m) 1) ! i = (byte_bits b)[m := \<not> byte_bits b ! m] ! i"
    using assms by (auto simp: bit_simps nth_list_update)
qed simp

lemma bytes_to_bits_flip:
  assumes "n < 8 * length bits"
  shows "bytes_to_bits (bits[n div 8 := bits ! (n div 8) XOR push_bit (7 - n mod 8) 1]) =
    (bytes_to_bits bits)[n := \<not> bytes_to_bits bits ! n]"
proof -
  have d: "n div 8 < length bits" using assms by (simp add: less_mult_imp_div_less mult.commute)
  have "(concat (map byte_bits bits))[n := \<not> bytes_to_bits bits ! n] =
    concat ((map byte_bits bits)[n div 8 :=
      (map byte_bits bits ! (n div 8))[n mod 8 := \<not> bytes_to_bits bits ! n]])"
    using assms by (intro concat_update_const) auto
  also have "\<dots> = concat (map byte_bits (bits[n div 8 := bits ! (n div 8) XOR push_bit (7 - n mod 8) 1]))"
    using d assms by (simp add: map_update byte_bits_xor nth_bytes_to_bits)
  finally show ?thesis by (simp add: bytes_to_bits_def)
qed

lemma rectify_bit_loop_layout:
  assumes "(e, x) \<in> set (layout_loop d cn js)" and "distinct js"
  shows "rectify_bit_loop e bits c d cn js =
    (case x of Data n \<Rightarrow> (bits[n div 8 := bits ! (n div 8) XOR push_bit (7 - n mod 8) 1], c)
     | Check i \<Rightarrow> (bits, c[i := \<not> c ! i]))"
  using assms
proof (induction js arbitrary: d cn)
  case Nil
  then show ?case by simp
next
  case (Cons j js)
  have "e \<in> set js" if "(e, x) \<in> set (layout_loop d' c' js)" for d' c'
    using that by (metis fst_conv fst_layout_loop image_eqI list.set_map)
  with Cons show ?case by (auto split: if_splits)
qed

lemma rectify_loop_layout:
  assumes "(e, x) \<in> set (layout_loop d cn js)" and "distinct js"
  shows "rectify_loop e data c d cn js =
    (case x of Data n \<Rightarrow> (data[n := \<not> data ! n], c) | Check i \<Rightarrow> (data, c[i := \<not> c ! i]))"
  using assms
proof (induction js arbitrary: d cn)
  case Nil
  then show ?case by simp
next
  case (Cons j js)
  have "e \<in> set js" if "(e, x) \<in> set (layout_loop d' c' js)" for d' c'
    using that by (metis fst_conv fst_layout_loop image_eqI list.set_map)
  with Cons show ?case by (auto split: if_splits)
qed

text \<open>\<open>hamming_rectify_bit\<close> at the position of bit \<open>e\<close> flips bit \<open>e\<close>.\<close>

lemma rectify_bit_flips:
  assumes "fits (8 * n) r" and "length bits = n" and "length c = Suc r"
    and "placed (8 * n) r e p" and "e < 8 * n + r"
    and "hamming_rectify_bit bits c n r p = (bits', c')"
  shows "bytes_to_bits bits' @ c' =
      (bytes_to_bits bits @ c)[e := \<not> (bytes_to_bits bits @ c) ! e]"
    and "length bits' = n" and "length c' = Suc r"
proof -
  obtain x where x: "(p, x) \<in> set (layout (8 * n) r)" "slot_no (8 * n) x = e"
    using assms(4,5) by (auto simp: placed_def)
  then have "(p, x) \<in> set (layout_loop 0 0 [1..<r + n * 8 + 1])"
    by (simp add: layout_def mult.commute)
  from rectify_bit_loop_layout [OF this] assms(6)
  have eq: "(case x of Data n \<Rightarrow> (bits[n div 8 := bits ! (n div 8) XOR push_bit (7 - n mod 8) 1], c)
     | Check i \<Rightarrow> (bits, c[i := \<not> c ! i])) = (bits', c')"
    by (simp add: hamming_rectify_bit_def del: upt_Suc)
  show "length bits' = n" and "length c' = Suc r" using eq assms(2,3) by (auto split: slot.splits)
  show "bytes_to_bits bits' @ c' = (bytes_to_bits bits @ c)[e := \<not> (bytes_to_bits bits @ c) ! e]"
  proof (cases x)
    case (Data m)
    then have "m < 8 * n" using x data_slot_less [OF assms(1)] by simp
    then show ?thesis using eq x(2) Data assms(2)
      by (auto simp: bytes_to_bits_flip nth_append list_update_append)
  next
    case (Check i)
    then show ?thesis using eq x(2) assms(2) by (auto simp: nth_append list_update_append)
  qed
qed

section \<open>SECDED\<close>

lemma cast_bytes_to_bits: "length bits = n \<Longrightarrow> cast_bits_to_char bits n = bytes_to_bits bits"
  unfolding cast_bits_to_char_def bytes_to_bits_def byte_bits_def
  by (intro arg_cong [where f = concat] nth_equalityI) auto

lemma encode_fits:
  assumes "hamming_encode bits n = (c, r)" and "length bits = n" and "0 < n"
  shows "fits (8 * n) r" and "0 < r" and "length c = Suc r"
    and "i \<le> r \<Longrightarrow> \<not> syndrome (bytes_to_bits bits @ c) (8 * n) r ! i"
proof -
  have data: "cast_bits_to_char bits n = bytes_to_bits bits"
    by (rule cast_bytes_to_bits [OF assms(2)])
  have r: "r = hmLength (8 * n)" and c: "c = hamming_code (bytes_to_bits bits) (8 * n) r"
    using assms(1) by (auto simp: hamming_encode_def Let_def data mult.commute [of n])
  show f: "fits (8 * n) r" and "0 < r"
    unfolding r using assms(3) by (simp_all add: hmLength_fits hmLength_pos)
  show "length c = Suc r" by (simp add: c)
  have "syndrome (bytes_to_bits bits @ c) (8 * n) r = replicate (Suc r) False"
    unfolding c using f assms(2) by (intro syndrome_codeword) auto
  then show "i \<le> r \<Longrightarrow> \<not> syndrome (bytes_to_bits bits @ c) (8 * n) r ! i"
    by (simp add: nth_Cons' del: replicate.simps) 
qed

text \<open>The decoder's decision, for a word whose syndrome spells out position \<open>p\<close>.\<close>

lemma decode_eq:
  assumes "fits (8 * n) r" and "length bits = n" and "length c = Suc r" and "p < 2 ^ r"
    and "\<And>i. i < r \<Longrightarrow> syndrome (bytes_to_bits bits @ c) (8 * n) r ! i = bit p i"
    and "syndrome (bytes_to_bits bits @ c) (8 * n) r ! r = par"
  shows "hamming_decode bits c n r =
    (if p > 0 then if par then (case hamming_rectify_bit bits c n r p of (b, c) \<Rightarrow> (3, b, c))
                   else (1, bits, c)
     else if par then (2, bits, c[r := \<not> c ! r]) else (0, bits, c))"
  using error_info_eq [OF assms(5,4)] assms(6)
  by (simp add: hamming_decode_def hamming_verify_bit_syndrome assms(1-3))

definition sent :: "byte list \<Rightarrow> bool list \<Rightarrow> nat \<Rightarrow> nat \<Rightarrow> bool" where
  "sent bits c r n \<longleftrightarrow> hamming_encode bits n = (c, r) \<and> length bits = n \<and> 0 < n"

lemma fits_sent:
  assumes "sent bits c r n"
  shows "fits (8 * n) r" and "0 < r" and "length c = Suc r" and "length bits = n"
    and "i \<le> r \<Longrightarrow> \<not> syndrome (bytes_to_bits bits @ c) (8 * n) r ! i"
  using encode_fits [of bits n c r] assms by (simp_all add: sent_def)

lemma same_word:
  assumes "length bits' = length bits" and "bytes_to_bits bits' @ c' = bytes_to_bits bits @ c"
  shows "bits' = bits \<and> c' = c"
  using assms by (auto intro!: bytes_to_bits_inject)

lemma decode_clean:
  assumes "sent bits c r n"
  shows "hamming_decode bits c n r = (0, bits, c)"
  using decode_eq [of n r bits c 0 False] fits_sent [OF assms] by simp

text \<open>One flip of the word.\<close>

lemma decode_one_flip:
  assumes s: "sent bits c r n"
    and l: "length bits' = n" "length c' = Suc r" and e: "e < 8 * n + r + 1"
    and w: "bytes_to_bits bits' @ c' = (bytes_to_bits bits @ c)[e := \<not> (bytes_to_bits bits @ c) ! e]"
  shows "hamming_decode bits' c' n r = (if e < 8 * n + r then 3 else 2, bits, c)"
proof -
  note F = fits_sent [OF s]
  let ?w = "bytes_to_bits bits @ c"
  obtain p where p: "placed (8 * n) r e p" using placed_exists [OF F(1) e] by blast
  have lw: "length ?w = 8 * n + r + 1" using F(3,4) by simp
  have synd: "i < r \<Longrightarrow> syndrome (bytes_to_bits bits' @ c') (8 * n) r ! i = bit p i"
    and par: "syndrome (bytes_to_bits bits' @ c') (8 * n) r ! r = True" for i
    using syndrome_flip [OF F(1) lw e p] F(5) unfolding w by simp_all
  have dec: "hamming_decode bits' c' n r =
      (if p > 0 then case hamming_rectify_bit bits' c' n r p of (b, c) \<Rightarrow> (3, b, c)
       else (2, bits', c'[r := \<not> c' ! r]))"
    using decode_eq [OF F(1) l placed_less [OF F(1) p] synd par] by simp
  have flipped: "?w = (bytes_to_bits bits' @ c')[e := \<not> (bytes_to_bits bits' @ c') ! e]"
    using e lw by (simp add: w)
  show ?thesis
  proof (cases "e < 8 * n + r")
    case True
    have "p > 0"
      using True p layout_position by (auto simp: placed_def)
    obtain b d where rect: "hamming_rectify_bit bits' c' n r p = (b, d)" by fastforce
    from rectify_bit_flips [OF F(1) l p True rect] flipped
    have "b = bits \<and> d = c" by (intro same_word) (auto simp: F(4))
    with True \<open>p > 0\<close> dec rect show ?thesis by simp
  next
    case False
    then have "e = 8 * n + r" using e by simp
    then have "p = 0" using p slot_no_less [OF F(1)] by (fastforce simp: placed_def)
    moreover have "bits' = bits \<and> c'[r := \<not> c' ! r] = c"
      using flipped l \<open>e = 8 * n + r\<close> by (intro same_word) (auto simp: list_update_append nth_append F(4))
    ultimately show ?thesis using False dec by simp
  qed
qed

text \<open>Two flips.\<close>

lemma decode_two_flips:
  assumes s: "sent bits c r n" and l: "length bits' = n" "length c' = Suc r"
    and e: "e < 8 * n + r + 1" "f < 8 * n + r + 1" "e \<noteq> f"
    and w: "w = (bytes_to_bits bits @ c)[e := \<not> (bytes_to_bits bits @ c) ! e]"
    and w': "bytes_to_bits bits' @ c' = w[f := \<not> w ! f]"
  shows "hamming_decode bits' c' n r = (1, bits', c')"
proof -
  note F = fits_sent [OF s]
  let ?w = "bytes_to_bits bits @ c"
  obtain p q where p: "placed (8 * n) r e p" and q: "placed (8 * n) r f q"
    using placed_exists [OF F(1)] e by blast
  have lw: "length ?w = 8 * n + r + 1" "length w = 8 * n + r + 1"
    using F(3,4) by (simp_all add: w)
  have pq: "p \<noteq> q" using placed_inj [OF F(1) p] q e(3) by blast
  have synd: "syndrome (bytes_to_bits bits' @ c') (8 * n) r ! i = bit (p XOR q) i" if "i < r" for i
    using syndrome_flip(1) [OF F(1) lw(1) e(1) p that]
      syndrome_flip(1) [OF F(1) lw(2) e(2) q that] F(5) that
    unfolding w' by (auto simp: w bit_xor_iff)
  have par: "syndrome (bytes_to_bits bits' @ c') (8 * n) r ! r = False"
    using syndrome_flip(2) [OF F(1) lw(1) e(1) p]
      syndrome_flip(2) [OF F(1) lw(2) e(2) q] F(5) unfolding w' by (simp add: w)
  have less: "p < 2 ^ r" "q < 2 ^ r" using p q placed_less [OF F(1)] by blast+
  then have "take_bit r (p XOR q) = p XOR q" by (simp add: take_bit_nat_eq_self)
  then have "p XOR q < 2 ^ r" by (metis take_bit_nat_less_exp)
  moreover have "p XOR q > 0"
  proof -
    have "p XOR q \<noteq> 0" using pq by (metis bit_eq_iff bit_xor_iff bit_0_eq bot_apply bot_bool_def)
    then show ?thesis by simp
  qed
  ultimately show ?thesis using decode_eq [OF F(1) l _ synd par] by simp
qed

section \<open>The contract of a block code\<close>

text \<open>
  What the broadcasts rely on: the decoder returns the error type and the repaired block
  and check bits; at most one error is repaired, two are reported as type 1.
\<close>

locale block_code =
  fixes encode :: "byte list \<Rightarrow> nat \<Rightarrow> bool list \<times> nat"
    and decode :: "byte list \<Rightarrow> bool list \<Rightarrow> nat \<Rightarrow> nat \<Rightarrow> nat \<times> byte list \<times> bool list"
  assumes decode_clean: "0 < length b \<Longrightarrow> encode b (length b) = (c, r) \<Longrightarrow>
      length b' = length b \<Longrightarrow> length c' = length c \<Longrightarrow>
      distance (bytes_to_bits b @ c) (bytes_to_bits b' @ c') = 0 \<Longrightarrow>
      decode b' c' (length b) r = (0, b, c)"
    and decode_one: "0 < length b \<Longrightarrow> encode b (length b) = (c, r) \<Longrightarrow>
      length b' = length b \<Longrightarrow> length c' = length c \<Longrightarrow>
      distance (bytes_to_bits b @ c) (bytes_to_bits b' @ c') = 1 \<Longrightarrow>
      \<exists>t. (t = 2 \<or> t = 3) \<and> decode b' c' (length b) r = (t, b, c)"
    and decode_two: "0 < length b \<Longrightarrow> encode b (length b) = (c, r) \<Longrightarrow>
      length b' = length b \<Longrightarrow> length c' = length c \<Longrightarrow>
      distance (bytes_to_bits b @ c) (bytes_to_bits b' @ c') = 2 \<Longrightarrow>
      decode b' c' (length b) r = (1, b', c')"
begin

text \<open>With at most two errors, the error type tells whether the block is right.\<close>

lemma decode_upto_two:
  assumes "0 < length b" and "encode b (length b) = (c, r)"
    and "length b' = length b" and "length c' = length c"
    and "distance (bytes_to_bits b @ c) (bytes_to_bits b' @ c') \<le> 2"
    and "decode b' c' (length b) r = (t, b'', c'')"
  shows "t \<noteq> 1 \<longrightarrow> b'' = b" and "length b'' = length b"
proof -
  consider "distance (bytes_to_bits b @ c) (bytes_to_bits b' @ c') = 0"
    | "distance (bytes_to_bits b @ c) (bytes_to_bits b' @ c') = 1"
    | "distance (bytes_to_bits b @ c) (bytes_to_bits b' @ c') = 2"
    using assms(5) by linarith
  then have "(t \<noteq> 1 \<longrightarrow> b'' = b) \<and> length b'' = length b"
  proof cases
    case 1
    from decode_clean [OF assms(1-4) 1] assms(6) show ?thesis by simp
  next
    case 2
    from decode_one [OF assms(1-4) 2] assms(6) show ?thesis by auto
  next
    case 3
    from decode_two [OF assms(1-4) 3] assms(3,6) show ?thesis by simp
  qed
  then show "t \<noteq> 1 \<longrightarrow> b'' = b" and "length b'' = length b" by blast+
qed

end

interpretation secded: block_code hamming_encode hamming_decode
proof unfold_locales
  fix b :: "byte list" and c :: "bool list" and r and b' :: "byte list" and c' :: "bool list"
  assume "0 < length b" and "hamming_encode b (length b) = (c, r)"
    and len: "length b' = length b" "length c' = length c"
  then have s: "sent b c r (length b)" by (simp add: sent_def)
  note F = fits_sent [OF s]
  let ?w = "bytes_to_bits b @ c" and ?w' = "bytes_to_bits b' @ c'"
  have lw: "length ?w = length ?w'" "length ?w = 8 * length b + r + 1" using len F by simp_all
  have lens: "length b' = length b" "length c' = Suc r" using len F by simp_all
  show "hamming_decode b' c' (length b) r = (0, b, c)" if "distance ?w ?w' = 0"
  proof -
    have "b' = b \<and> c' = c" using that lw(1) len(1)
      by (intro same_word) (simp_all add: distance_0 [OF lw(1)])
    then show ?thesis using decode_clean [OF s] by simp
  qed
  show "\<exists>t. (t = 2 \<or> t = 3) \<and> hamming_decode b' c' (length b) r = (t, b, c)"
    if d: "distance ?w ?w' = 1"
  proof -
    obtain e zs where e: "e < length ?w" "length zs = length ?w" "distance ?w zs = 0"
        "?w ! e = zs ! e" "?w' = zs[e := \<not> zs ! e]"
      by (rule distance_SucE [OF lw(1) d [unfolded One_nat_def]])
    have "?w = zs" using e(3) distance_0 [OF e(2) [symmetric]] by simp
    then have w': "?w' = ?w[e := \<not> ?w ! e]" using e(5) by simp
    have "e < 8 * length b + r + 1" using e(1) unfolding lw(2) .
    from decode_one_flip [OF s lens this w'] show ?thesis by (simp split: if_splits)
  qed
  show "hamming_decode b' c' (length b) r = (1, b', c')" if d: "distance ?w ?w' = 2"
  proof -
    obtain f w where f: "f < length ?w" "length w = length ?w" "distance ?w w = 1"
        "?w ! f = w ! f" "?w' = w[f := \<not> w ! f]"
      by (rule distance_SucE [OF lw(1) d [unfolded numeral_2_eq_2]]) simp
    obtain e zs where e: "e < length ?w" "length zs = length ?w" "distance ?w zs = 0"
        "?w ! e = zs ! e" "w = zs[e := \<not> zs ! e]"
      by (rule distance_SucE [OF f(2) [symmetric] f(3) [unfolded One_nat_def]])
    have "?w = zs" using e(3) distance_0 [OF e(2) [symmetric]] by simp
    then have w: "w = ?w[e := \<not> ?w ! e]" using e(5) by simp
    then have "e \<noteq> f" using f(4) e(1) by (metis nth_list_update_eq)
    moreover have "e < 8 * length b + r + 1" "f < 8 * length b + r + 1"
      using e(1) f(1) unfolding lw(2) .
    ultimately show ?thesis using decode_two_flips [OF s lens _ _ _ w f(5)] by blast
  qed
qed

section \<open>Properties\<close>

text \<open>\<open>hmLength k\<close> is the least number of check bits that can address \<open>k\<close> data bits, the
  check bits themselves and "no error".\<close>

theorem hmLength_least:
  assumes "0 < k"
  shows "k + hmLength k + 1 \<le> 2 ^ hmLength k \<and> (\<forall>r. k + r + 1 \<le> 2 ^ r \<longrightarrow> hmLength k \<le> r)"
proof -
  let ?r = "hmLength k"
  have f: "?r + k < 2 ^ ?r" "2 ^ (?r - 1) \<le> ?r + k" "0 < ?r"
    using hmLength_fits [OF assms] hmLength_pos [OF assms] by (auto simp: fits_def counters_def)
  have "?r \<le> r" if r: "k + r + 1 \<le> 2 ^ r" for r
  proof (rule ccontr)
    assume "\<not> ?r \<le> r"
    then have le: "r \<le> ?r - 1" by linarith
    have "k + x + 1 \<le> 2 ^ x" if "r \<le> x" for x
      using that r by (induction x rule: dec_induct) auto
    from this [OF le] have "k + (?r - 1) + 1 \<le> 2 ^ (?r - 1)" .
    moreover have "k + (?r - 1) + 1 = ?r + k" using f(3) by linarith
    ultimately show False using hmLength_strict [OF assms] by linarith
  qed
  with f(1) show ?thesis by simp
qed

theorem hmLength_least_witness: "0 < (64 :: nat) \<and> 64 + hmLength 64 + 1 \<le> 2 ^ hmLength 64"
  using hmLength_least [of 64] by simp

text \<open>C5: A block and its check bits that arrive intact are reported as such and left alone;
  one wrong bit anywhere in them (data, check bit or parity bit) is repaired.\<close>

theorem hamming_corrects_one:
  assumes "0 < length bits" and "hamming_encode bits (length bits) = (c, r)"
    and "length bits' = length bits" and "length c' = length c"
    and "distance (bytes_to_bits bits @ c) (bytes_to_bits bits' @ c') \<le> 1"
  shows "\<exists>error_type. error_type \<noteq> 1 \<and> hamming_decode bits' c' (length bits) r = (error_type, bits, c)"
proof -
  consider "distance (bytes_to_bits bits @ c) (bytes_to_bits bits' @ c') = 0"
    | "distance (bytes_to_bits bits @ c) (bytes_to_bits bits' @ c') = 1" using assms(5) by linarith
  then show ?thesis
  proof cases
    case 1
    from secded.decode_clean [OF assms(1-4) 1] show ?thesis by simp
  next
    case 2
    from secded.decode_one [OF assms(1-4) 2] show ?thesis by auto
  qed
qed

theorem hamming_corrects_one_witness:
  "\<exists>t. t \<noteq> 1 \<and> hamming_decode [0x52] [True, False, True, False, False] 1 4 =
     (t, [0x53], [True, False, True, False, False])"
proof -
  have "hamming_encode [0x53] (length [0x53]) = ([True, False, True, False, False], 4)" by code_simp
  from hamming_corrects_one [OF _ this, of "[0x52]" "[True, False, True, False, False]"]
  show ?thesis by (simp add: byte_bits_def upt_rec)
qed

text \<open>C6: Two wrong bits in a block and its check bits are reported as a two-bit error, and
  nothing is changed.\<close>

theorem hamming_detects_two:
  assumes "0 < length bits" and "hamming_encode bits (length bits) = (c, r)"
    and "length bits' = length bits" and "length c' = length c"
    and "distance (bytes_to_bits bits @ c) (bytes_to_bits bits' @ c') = 2"
  shows "hamming_decode bits' c' (length bits) r = (1, bits', c')"
  by (rule secded.decode_two [OF assms])

theorem hamming_detects_two_witness:
  "hamming_decode [0x50] [True, False, True, False, False] 1 4 =
     (1, [0x50], [True, False, True, False, False])"
proof -
  have "hamming_encode [0x53] (length [0x53]) = ([True, False, True, False, False], 4)" by code_simp
  from hamming_detects_two [OF _ this, of "[0x50]" "[True, False, True, False, False]"]
  show ?thesis by (simp add: byte_bits_def upt_rec)
qed

text \<open>The verifier and the repair that work on packed bytes agree with the ones of
  \<open>dataCompression.c\<close> that work on the unpacked \<open>char\<close> array, for every position of the
  word.\<close>

theorem packed_agrees_with_unpacked:
  assumes "0 < length bits" and "r = hmLength (length bits * 8)" and "length c = r + 1"
    and "1 \<le> p" and "p \<le> r + length bits * 8"
  shows "hamming_verify_bit bits c (length bits) r =
      hamming_verify (cast_bits_to_char bits (length bits)) c (length bits * 8) r \<and>
    (case hamming_rectify_bit bits c (length bits) r p of (bits', c') \<Rightarrow>
      (cast_bits_to_char bits' (length bits), c') =
      hamming_rectify (cast_bits_to_char bits (length bits)) c (length bits * 8) r p)"
proof -
  let ?n = "length bits"
  have f: "fits (8 * ?n) r"
    using hmLength_fits [of "?n * 8"] assms(1,2) by (simp add: mult.commute)
  have cast: "cast_bits_to_char b ?n = bytes_to_bits b" if "length b = ?n" for b
    using that by (simp add: cast_bytes_to_bits)
  have "hamming_verify_bit bits c ?n r = hamming_verify (bytes_to_bits bits) c (8 * ?n) r"
    using f assms(3) by (simp add: hamming_verify_bit_syndrome hamming_verify_syndrome)
  moreover
  have "p \<in> set (map fst (layout_loop 0 0 [1..<r + ?n * 8 + 1]))"
    unfolding fst_layout_loop using assms(4,5) by (simp del: upt_Suc)
  then obtain x where x: "(p, x) \<in> set (layout_loop 0 0 [1..<r + ?n * 8 + 1])"
    by (auto simp del: fst_layout_loop upt_Suc)
  then have "case x of Data m \<Rightarrow> m < 8 * ?n | _ \<Rightarrow> True"
    using data_slot_less [OF f] by (auto simp: layout_def mult.commute split: slot.split)
  then have "case hamming_rectify_bit bits c ?n r p of (bits', c') \<Rightarrow>
      length bits' = ?n \<and> (bytes_to_bits bits', c') = hamming_rectify (bytes_to_bits bits) c (?n * 8) r p"
    using rectify_bit_loop_layout [OF x] rectify_loop_layout [OF x]
    by (cases x) (simp_all add: hamming_rectify_bit_def hamming_rectify_def bytes_to_bits_flip del: upt_Suc)
  ultimately show ?thesis by (auto simp: cast mult.commute split: prod.splits)
qed

theorem packed_agrees_with_unpacked_witness:
  "hamming_verify_bit [0x53] [True, False, True, False, False] 1 4 =
   hamming_verify (cast_bits_to_char [0x53] 1) [True, False, True, False, False] 8 4"
proof -
  have "4 = hmLength (length [0x53 :: byte] * 8)" by code_simp
  from packed_agrees_with_unpacked [OF _ this, of "[True, False, True, False, False]" 3]
  show ?thesis by simp
qed

end
