(* ===== verification/AbftBcast.thy ===== *)
theory AbftBcast
  imports Secded Ieee
begin

unbundle bit_operations_syntax

text \<open>
  \<open>MPI_Bcast_abft\<close> of \<open>app/src/abft.c\<close>: the root broadcasts a buffer of doubles with its
  CRC and, for blocks of it, Hamming check bits; every other rank checks the CRC, repairs
  what it can when it fails, and asks the root to send the data again when a block has two
  errors.  zlib's \<open>crc32\<close> and what the network delivers are parameters.
\<close>

section \<open>Doubles as bytes\<close>

text \<open>\<open>memcpy\<close> between an array of doubles and an array of bytes (little-endian).\<close>

definition double_bytes :: "64 word \<Rightarrow> byte list" where
  "double_bytes d = map (\<lambda>i. ucast (drop_bit (8 * i) d)) [0..<8]"

definition doubles_to_bytes :: "64 word list \<Rightarrow> byte list" where
  "doubles_to_bytes ds = concat (map double_bytes ds)"

definition bytes_double :: "byte list \<Rightarrow> 64 word" where
  "bytes_double bs = word_of_int (horner_sum uint (2 ^ 8) bs)"

fun bytes_to_doubles :: "nat \<Rightarrow> byte list \<Rightarrow> 64 word list" where
  "bytes_to_doubles 0 bs = []"
| "bytes_to_doubles (Suc n) bs = bytes_double (take 8 bs) # bytes_to_doubles n (drop 8 bs)"

section \<open>CRC and block sizes\<close>

text \<open>zlib's \<open>crc32(crc, buf, len)\<close>; \<open>None\<close> is the null buffer \<open>Z_NULL\<close>.\<close>

type_synonym crc32_fun = "32 word \<Rightarrow> byte list option \<Rightarrow> 32 word"

definition do_crc32 :: "crc32_fun \<Rightarrow> byte list \<Rightarrow> nat \<Rightarrow> 32 word" where
  "do_crc32 crc32 data_bits bytes =
     foldl (\<lambda>crc i. crc32 crc (Some [data_bits ! i])) (crc32 0 None) [0..<bytes]"

text \<open>\<open>block_size\<close> of \<open>abft.c\<close>, whose local \<open>ber\<close> is the double \<open>1e-5\<close>.\<close>

definition block_size_at :: "64 word \<Rightarrow> nat \<Rightarrow> nat" where
  "block_size_at ber data_bytes =
     (let bits = nat (ftrunc (fdiv (fint 1) ber)); bytes = bits div 8; bs = data_bytes
      in if bs > bytes then bytes else bs)"

definition abft_ber :: "64 word" where
  "abft_ber = 0x3EE4F8B588E368F1"

definition block_size :: "nat \<Rightarrow> nat" where
  "block_size data_bytes = block_size_at abft_ber data_bytes"

text \<open>The number of blocks and the number of bytes of block \<open>i\<close>.\<close>

definition block_count :: "nat \<Rightarrow> nat \<Rightarrow> nat" where
  "block_count bs data_bytes =
     (let bs_num = data_bytes div bs; bs_last = data_bytes mod bs
      in if bs_last > 0 then bs_num + 1 else bs_num)"

definition block_bytes :: "nat \<Rightarrow> nat \<Rightarrow> nat \<Rightarrow> nat" where
  "block_bytes bs data_bytes i =
     (let bs_last = data_bytes mod bs
      in if bs_last > 0 \<and> i = block_count bs data_bytes - 1 then bs_last else bs)"

text \<open>The bytes \<open>&data_bits[i*bs]\<close> points to, as far as the callee looks.\<close>

definition block :: "nat \<Rightarrow> byte list \<Rightarrow> nat \<Rightarrow> byte list" where
  "block bs data i = take (block_bytes bs (length data) i) (drop (i * bs) data)"

definition put_block :: "nat \<Rightarrow> byte list \<Rightarrow> nat \<Rightarrow> byte list \<Rightarrow> byte list" where
  "put_block bs data i b =
     take (i * bs) data @ b @ drop (i * bs + block_bytes bs (length data) i) data"

definition encode_blocks :: "nat \<Rightarrow> byte list \<Rightarrow> (bool list \<times> nat) list" where
  "encode_blocks bs data =
     map (\<lambda>i. hamming_encode (block bs data i) (block_bytes bs (length data) i))
       [0..<block_count bs (length data)]"

section \<open>The receiver\<close>

text \<open>
  The loop over the blocks, left at the first two-bit error (\<open>crc_ok = 'n'\<close>, here
  \<open>False\<close>); \<open>decode\<close> is \<open>hamming_decode\<close>.
\<close>

fun decode_blocks ::
  "(byte list \<Rightarrow> bool list \<Rightarrow> nat \<Rightarrow> nat \<Rightarrow> nat \<times> byte list \<times> bool list) \<Rightarrow>
   nat \<Rightarrow> bool list list \<Rightarrow> nat list \<Rightarrow> byte list \<Rightarrow> nat list \<Rightarrow> bool \<times> byte list" where
  "decode_blocks decode bs c r data [] = (True, data)"
| "decode_blocks decode bs c r data (i # is) =
     (case decode (block bs data i) (c ! i) (block_bytes bs (length data) i) (r ! i) of
        (error_type, b, _) \<Rightarrow>
          let data' = put_block bs data i b
          in if error_type = 1 then (False, data') else decode_blocks decode bs c r data' is)"

definition check_received ::
  "crc32_fun \<Rightarrow> nat \<Rightarrow> 32 word \<Rightarrow> bool list list \<Rightarrow> nat list \<Rightarrow> byte list \<Rightarrow> bool \<times> byte list" where
  "check_received crc32 bs crc c r data =
     (if crc = do_crc32 crc32 data (length data) then (True, data)
      else decode_blocks hamming_decode bs c r data [0..<block_count bs (length data)])"

section \<open>The broadcast\<close>

text \<open>What each rank is delivered of the root's messages: values of their types, of their length.\<close>

record transport =
  tx_data :: "nat \<Rightarrow> byte list \<Rightarrow> byte list"
  tx_crc :: "nat \<Rightarrow> 32 word \<Rightarrow> 32 word"
  tx_r :: "nat \<Rightarrow> nat list \<Rightarrow> nat list"
  tx_c :: "nat \<Rightarrow> nat \<Rightarrow> bool list \<Rightarrow> bool list"
  tx_resend :: "nat \<Rightarrow> byte list \<Rightarrow> byte list"

text \<open>
  The outcome of the check at \<open>rank\<close> (the root keeps its \<open>'y'\<close>), the root's second
  round of sends, and the receive that waits for it.
\<close>

definition abft_check ::
  "crc32_fun \<Rightarrow> transport \<Rightarrow> nat \<Rightarrow> byte list \<Rightarrow> nat \<Rightarrow> nat \<Rightarrow> bool \<times> byte list" where
  "abft_check crc32 tx bs data rt rank =
     (if rank = rt then (True, data)
      else let crc = do_crc32 crc32 data (length data);
               enc = encode_blocks bs data
           in check_received crc32 bs (tx_crc tx rank crc)
                (map (\<lambda>i. tx_c tx rank i (map fst enc ! i)) [0..<length enc])
                (tx_r tx rank (map snd enc)) (tx_data tx rank data))"

text \<open>
  A rank receives the check bits of block \<open>i\<close> in \<open>r[i]+1\<close> places, where \<open>r\<close> is what it was delivered; a
  broadcast whose counts differ between the ranks is erroneous for MPI, and no claim is made of what follows.
\<close>

definition share_sizes :: "transport \<Rightarrow> nat list \<Rightarrow> nat \<Rightarrow> nat \<Rightarrow> unit result" where
  "share_sizes tx r rt procs =
     (if list_all (\<lambda>rank. rank = rt \<or> tx_r tx rank r = r) [0..<procs] then Inr () else Inl CountMismatch)"

text \<open>The answers reach the root as they were given (\<open>MPI_Gather\<close>).\<close>

definition resend_list :: "bool list \<Rightarrow> nat \<Rightarrow> nat \<Rightarrow> nat list" where
  "resend_list crc_ok_recv rt procs =
     filter (\<lambda>i. i \<noteq> rt \<and> \<not> crc_ok_recv ! i) [0..<procs]"

definition receive_again ::
  "transport \<Rightarrow> nat list \<Rightarrow> byte list \<Rightarrow> nat \<Rightarrow> nat \<Rightarrow> bool \<times> byte list \<Rightarrow> byte list result" where
  "receive_again tx sends data rt rank outcome =
     (if rank \<noteq> rt \<and> \<not> fst outcome
      then if rank \<in> set sends then Inr (tx_resend tx rank data) else Inl Deadlock
      else Inr (snd outcome))"

definition MPI_Bcast_abft ::
  "crc32_fun \<Rightarrow> transport \<Rightarrow> 64 word list \<Rightarrow> nat \<Rightarrow> nat \<Rightarrow> nat \<Rightarrow> 64 word list list result" where
  "MPI_Bcast_abft crc32 tx buffer count rt procs =
     (let data_bytes = count * 8;
          data = take data_bytes (doubles_to_bytes buffer);
          bs = block_size data_bytes
      in if bs = 0 then Inl DivByZero
         else res_bind (share_sizes tx (map snd (encode_blocks bs data)) rt procs) (\<lambda>_.
              let outcome = abft_check crc32 tx bs data rt;
                  crc_ok_recv = map (\<lambda>i. fst (outcome i)) [0..<procs];
                  sends = resend_list crc_ok_recv rt procs
              in res_fold (\<lambda>bufs rank.
                   if rank = rt then Inr (bufs @ [buffer])
                   else res_bind (receive_again tx sends data rt rank (outcome rank))
                          (\<lambda>bits. Inr (bufs @ [bytes_to_doubles count bits])))
                 [] [0..<procs]))"

section \<open>Doubles and bytes round-trip\<close>

lemma length_double_bytes [simp]: "length (double_bytes d) = 8"
  by (simp add: double_bytes_def)

lemma bytes_double_bytes [simp]: "bytes_double (double_bytes d) = d"
proof (rule bit_word_eqI)
  fix n
  assume n: "n < LENGTH(64)"
  have "bit (bytes_double (double_bytes d)) n \<longleftrightarrow>
      bit (horner_sum uint (2 ^ LENGTH(8)) (double_bytes d)) n"
    using n by (simp add: bytes_double_def bit_word_of_int_iff)
  also have "\<dots> \<longleftrightarrow> n div 8 < 8 \<and> bit (double_bytes d ! (n div 8)) (n mod 8)"
    by (subst bit_horner_sum_uint_exp_iff) simp
  also have "\<dots> \<longleftrightarrow> bit d (8 * (n div 8) + n mod 8)"
    using n by (auto simp: double_bytes_def bit_ucast_iff bit_drop_bit_eq less_mult_imp_div_less add.commute)
  also have "8 * (n div 8) + n mod 8 = n" by simp
  finally show "bit (bytes_double (double_bytes d)) n = bit d n" .
qed

lemma doubles_to_bytes_simps [simp]:
  "doubles_to_bytes [] = []"
  "doubles_to_bytes (d # ds) = double_bytes d @ doubles_to_bytes ds"
  by (simp_all add: doubles_to_bytes_def)

lemma length_doubles_to_bytes [simp]: "length (doubles_to_bytes ds) = 8 * length ds"
  by (induction ds) simp_all

lemma bytes_to_doubles_to_bytes:
  "length ds = n \<Longrightarrow> bytes_to_doubles n (doubles_to_bytes ds) = ds"
  by (induction ds arbitrary: n) auto

section \<open>The blocks partition the data\<close>

lemma block_size_value: "block_size n = min n 12499"
proof -
  have "ftrunc (fdiv (fint 1 :: 64 word) abft_ber) = 99999"
    unfolding abft_ber_def by code_simp
  then show ?thesis by (simp add: block_size_def block_size_at_def)
qed

text \<open>Where block \<open>i\<close> starts.\<close>

definition offset :: "nat \<Rightarrow> nat \<Rightarrow> nat \<Rightarrow> nat" where
  "offset bs n i = min (i * bs) n"

lemma block_geometry:
  assumes "0 < bs" and "i < block_count bs n"
  shows "i * bs < n" and "0 < block_bytes bs n i"
    and "offset bs n (Suc i) = i * bs + block_bytes bs n i"
proof -
  let ?q = "n div bs" and ?m = "n mod bs"
  have n: "?q * bs + ?m = n" by (rule div_mult_mod_eq)
  have m: "?m < bs" using assms(1) by simp
  have i: "i < ?q \<or> i = ?q \<and> ?m > 0"
    using assms(2) by (auto simp: block_count_def Let_def split: if_splits)
  have less: "i * bs + bs \<le> n" if "i < ?q"
  proof -
    have "Suc i * bs \<le> ?q * bs" using that by (intro mult_le_mono1) simp
    then show ?thesis using n by (simp only: mult_Suc)
  qed
  have len: "block_bytes bs n i = (if i < ?q then bs else ?m)"
    using i by (auto simp: block_bytes_def block_count_def Let_def)
  show "0 < block_bytes bs n i" using len i assms(1) by auto
  show "i * bs < n"
  proof (cases "i < ?q")
    case False
    then have "i * bs + ?m = n" "?m > 0" using i n by auto
    then show ?thesis by linarith
  qed (use less assms(1) in simp)
  show "offset bs n (Suc i) = i * bs + block_bytes bs n i"
  proof (cases "i < ?q")
    case True
    then show ?thesis using less len by (simp add: offset_def)
  next
    case False
    then have e: "i * bs + block_bytes bs n i = n" and "block_bytes bs n i = ?m"
      using i len n by auto
    then have "n \<le> Suc i * bs" using m by simp
    then show ?thesis unfolding e by (simp add: offset_def)
  qed
qed

lemma offset_count:
  assumes "0 < bs"
  shows "offset bs n (block_count bs n) = n"
proof -
  define q m where "q = n div bs" and "m = n mod bs"
  have n: "q * bs + m = n" unfolding q_def m_def by (rule div_mult_mod_eq)
  have "m < bs" using assms by (simp add: m_def)
  moreover have "block_count bs n = (if m > 0 then q + 1 else q)"
    by (simp add: block_count_def q_def m_def Let_def)
  ultimately have "n \<le> block_count bs n * bs" using n by (cases "m = 0") auto
  then show ?thesis by (simp add: offset_def)
qed

lemma length_block:
  assumes "0 < bs" and "i < block_count bs (length data)"
  shows "length (block bs data i) = block_bytes bs (length data) i"
proof -
  have "i * bs + block_bytes bs (length data) i \<le> length data"
    using block_geometry(3) [OF assms] by (metis min.cobounded2 offset_def)
  then show ?thesis by (simp add: block_def)
qed

text \<open>
  The state of the receiver's loop before block \<open>i\<close>: what precedes is repaired, what
  follows is as received.
\<close>

definition repaired_upto :: "nat \<Rightarrow> byte list \<Rightarrow> byte list \<Rightarrow> nat \<Rightarrow> byte list \<Rightarrow> bool" where
  "repaired_upto bs data recv i cur \<longleftrightarrow>
     cur = take (offset bs (length data) i) data @ drop (offset bs (length data) i) recv"

lemma repaired_block:
  assumes "0 < bs" and "length recv = length data" and "i < block_count bs (length data)"
    and "repaired_upto bs data recv i cur"
  shows "block bs cur i = block bs recv i" and "length cur = length data"
proof -
  have off: "offset bs (length data) i = i * bs" "i * bs \<le> length data"
    using block_geometry(1) [OF assms(1,3)] by (simp_all add: offset_def)
  then show "length cur = length data" using assms(2,4) by (simp add: repaired_upto_def)
  then show "block bs cur i = block bs recv i"
    using assms(2,4) off by (simp add: block_def repaired_upto_def)
qed

lemma repaired_step:
  assumes "0 < bs" and "length recv = length data" and "i < block_count bs (length data)"
    and "repaired_upto bs data recv i cur"
  shows "repaired_upto bs data recv (Suc i) (put_block bs cur i (block bs data i))"
proof -
  let ?n = "length data"
  note cur = repaired_block [OF assms]
  have off: "offset bs ?n i = i * bs" "i * bs < ?n"
    using block_geometry(1) [OF assms(1,3)] by (simp_all add: offset_def)
  have nxt: "offset bs ?n (Suc i) = i * bs + block_bytes bs ?n i"
    by (rule block_geometry(3) [OF assms(1,3)])
  have "take (i * bs) cur @ block bs data i = take (offset bs ?n (Suc i)) data"
    using assms(4) off unfolding nxt by (simp add: repaired_upto_def block_def take_add)
  moreover have "drop (i * bs + block_bytes bs ?n i) cur = drop (offset bs ?n (Suc i)) recv"
    using assms(4) off unfolding nxt by (simp add: repaired_upto_def add.commute)
  ultimately show ?thesis
    by (simp add: put_block_def repaired_upto_def cur(2) flip: append_assoc)
qed

section \<open>The receiver's loop, over any block code\<close>

context block_code
begin

text \<open>
  If every block has at most two errors, the loop ends with \<open>'y'\<close> only if it has restored
  the data.
\<close>

lemma decode_blocks_from:
  assumes bs: "0 < bs" and len: "length recv = length data"
    and enc: "\<And>i. i < block_count bs (length data) \<Longrightarrow>
      encode (block bs data i) (length (block bs data i)) = (cs ! i, r ! i)"
    and few: "\<And>i. i < block_count bs (length data) \<Longrightarrow> length (c ! i) = length (cs ! i) \<and>
      distance (bytes_to_bits (block bs data i) @ cs ! i)
               (bytes_to_bits (block bs recv i) @ c ! i) \<le> 2"
    and i: "i \<le> block_count bs (length data)" and cur: "repaired_upto bs data recv i cur"
    and run: "decode_blocks decode bs c r cur [i..<block_count bs (length data)] = (ok, out)"
  shows "ok \<Longrightarrow> out = data"
  using i cur run
proof (induction "block_count bs (length data) - i" arbitrary: i cur)
  case 0
  then have "i = block_count bs (length data)" by simp
  then show ?case using 0 by (simp add: repaired_upto_def offset_count [OF bs] len)
next
  case (Suc m)
  let ?N = "block_count bs (length data)"
  from Suc.hyps(2) have i: "i < ?N" and m: "m = ?N - Suc i" by simp_all
  note blk = repaired_block [OF bs len i Suc.prems(3)]
  let ?b = "block bs data i"
  have lenb: "length ?b = block_bytes bs (length data) i" by (rule length_block [OF bs i])
  have lenr: "length (block bs recv i) = length ?b"
    using length_block [OF bs, of i recv] i len lenb by simp
  have pos: "0 < length ?b" using block_geometry(2) [OF bs i] lenb by simp
  obtain t b'' c'' where dec:
    "decode (block bs recv i) (c ! i) (block_bytes bs (length data) i) (r ! i) = (t, b'', c'')"
    by (cases "decode (block bs recv i) (c ! i) (block_bytes bs (length data) i) (r ! i)")
  have dec': "decode (block bs recv i) (c ! i) (length ?b) (r ! i) = (t, b'', c'')"
    unfolding lenb by (rule dec)
  have "length (c ! i) = length (cs ! i)" and "distance (bytes_to_bits ?b @ cs ! i)
      (bytes_to_bits (block bs recv i) @ c ! i) \<le> 2" using few [OF i] by simp_all
  then have upto: "t \<noteq> 1 \<longrightarrow> b'' = ?b"
    using decode_upto_two(1) [OF pos enc [OF i] lenr _ _ dec'] by blast
  have "[i..<?N] = i # [Suc i..<?N]" using i by (rule upt_conv_Cons)
  then have run: "(if t = 1 then (False, put_block bs cur i b'')
      else decode_blocks decode bs c r (put_block bs cur i b'') [Suc i..<?N]) = (ok, out)"
    using Suc.prems(4) dec by (simp add: blk Let_def)
  with \<open>ok\<close> have t: "t \<noteq> 1" by (auto split: if_splits)
  then have "repaired_upto bs data recv (Suc i) (put_block bs cur i b'')"
    using upto repaired_step [OF bs len i Suc.prems(3)] by simp
  with Suc.hyps(1) [OF m \<open>ok\<close>, of "put_block bs cur i b''"] run t i show ?case by simp
qed

end

section \<open>The broadcast as a whole\<close>

lemma encode_blocks_nth:
  assumes "0 < bs" and "i < block_count bs (length data)"
  shows "hamming_encode (block bs data i) (length (block bs data i)) = encode_blocks bs data ! i"
  using assms by (simp add: encode_blocks_def length_block)

lemma length_encode_blocks [simp]: "length (encode_blocks bs data) = block_count bs (length data)"
  by (simp add: encode_blocks_def)

text \<open>The control messages and the second copy arrive intact.\<close>

definition intact_control :: "crc32_fun \<Rightarrow> transport \<Rightarrow> nat \<Rightarrow> byte list \<Rightarrow> nat \<Rightarrow> bool" where
  "intact_control crc32 tx bs data rank \<longleftrightarrow>
     tx_crc tx rank (do_crc32 crc32 data (length data)) = do_crc32 crc32 data (length data) \<and>
     tx_r tx rank (map snd (encode_blocks bs data)) = map snd (encode_blocks bs data) \<and>
     tx_resend tx rank data = data"

text \<open>At most two of a block's bits (data, check and parity bits together) are wrong.\<close>

definition few_errors :: "transport \<Rightarrow> nat \<Rightarrow> byte list \<Rightarrow> nat \<Rightarrow> bool" where
  "few_errors tx bs data rank \<longleftrightarrow>
     (let recv = tx_data tx rank data in
      length recv = length data \<and>
      (\<forall>i \<in> {0..<block_count bs (length data)}.
         let c = fst (encode_blocks bs data ! i); c' = tx_c tx rank i c in
         length c' = length c \<and>
         distance (bytes_to_bits (block bs data i) @ c) (bytes_to_bits (block bs recv i) @ c') \<le> 2))"

text \<open>The CRC tells the delivered data from the sent data.\<close>

definition crc_detects :: "crc32_fun \<Rightarrow> transport \<Rightarrow> byte list \<Rightarrow> nat \<Rightarrow> bool" where
  "crc_detects crc32 tx data rank \<longleftrightarrow>
     (let recv = tx_data tx rank data in
      recv \<noteq> data \<longrightarrow> do_crc32 crc32 recv (length recv) \<noteq> do_crc32 crc32 data (length data))"

text \<open>What the network may do to a buffer of doubles for a rank.\<close>

definition repairable :: "crc32_fun \<Rightarrow> transport \<Rightarrow> 64 word list \<Rightarrow> nat \<Rightarrow> bool" where
  "repairable crc32 tx buffer rank \<longleftrightarrow>
     (let data = doubles_to_bytes buffer; bs = block_size (8 * length buffer) in
      intact_control crc32 tx bs data rank \<and> few_errors tx bs data rank \<and> crc_detects crc32 tx data rank)"

lemma check_accepts_only_sent:
  assumes bs: "0 < bs"
    and ctl: "intact_control crc32 tx bs data rank" and few: "few_errors tx bs data rank"
    and crc: "crc_detects crc32 tx data rank" and ok: "fst (abft_check crc32 tx bs data rt rank)"
  shows "snd (abft_check crc32 tx bs data rt rank) = data"
proof (cases "rank = rt")
  case True
  then show ?thesis by (simp add: abft_check_def)
next
  case False
  let ?recv = "tx_data tx rank data" and ?enc = "encode_blocks bs data"
  let ?c = "map (\<lambda>i. tx_c tx rank i (map fst ?enc ! i)) [0..<length ?enc]"
  let ?crc = "do_crc32 crc32 data (length data)"
  have len: "length ?recv = length data" using few by (simp add: few_errors_def Let_def)
  have chk: "abft_check crc32 tx bs data rt rank =
      check_received crc32 bs ?crc ?c (map snd ?enc) ?recv"
    using False ctl by (simp add: abft_check_def Let_def intact_control_def)
  show ?thesis
  proof (cases "?crc = do_crc32 crc32 ?recv (length ?recv)")
    case True
    then have "?recv = data" using crc by (auto simp: crc_detects_def Let_def)
    then show ?thesis using True chk by (simp add: check_received_def)
  next
    case False
    define D where "D = decode_blocks hamming_decode bs ?c (map snd ?enc) ?recv
        [0..<block_count bs (length data)]"
    have D: "check_received crc32 bs ?crc ?c (map snd ?enc) ?recv = D"
      using False by (simp add: check_received_def D_def len)
    then obtain out where out: "decode_blocks hamming_decode bs ?c (map snd ?enc) ?recv
        [0..<block_count bs (length data)] = (True, out)"
      using ok unfolding chk D_def [symmetric] by (cases D) simp
    have "out = data"
    proof (rule secded.decode_blocks_from [OF bs len _ _ _ _ out])
      show "hamming_encode (block bs data i) (length (block bs data i)) =
          (map fst ?enc ! i, map snd ?enc ! i)" if "i < block_count bs (length data)" for i
        unfolding encode_blocks_nth [OF bs that] using that by simp
      show "length (?c ! i) = length (map fst ?enc ! i) \<and>
          distance (bytes_to_bits (block bs data i) @ map fst ?enc ! i)
            (bytes_to_bits (block bs ?recv i) @ ?c ! i) \<le> 2"
        if "i < block_count bs (length data)" for i
        using few that unfolding few_errors_def Let_def by simp
      show "repaired_upto bs data ?recv 0 ?recv" by (simp add: repaired_upto_def offset_def)
    qed simp_all
    then show ?thesis unfolding chk D using out by (simp add: D_def)
  qed
qed

lemma resend_matches:
  assumes "rank < procs" and "rank \<noteq> rt" and "\<not> fst (outcome rank)"
  shows "rank \<in> set (resend_list (map (\<lambda>i. fst (outcome i)) [0..<procs]) rt procs)"
  using assms by (simp add: resend_list_def)

text \<open>What every rank ends with, whatever the network did.\<close>

definition abft_result ::
  "crc32_fun \<Rightarrow> transport \<Rightarrow> 64 word list \<Rightarrow> nat \<Rightarrow> nat \<Rightarrow> nat \<Rightarrow> 64 word list" where
  "abft_result crc32 tx buffer count rt rank =
     (let data = take (count * 8) (doubles_to_bytes buffer);
          out = abft_check crc32 tx (block_size (count * 8)) data rt rank
      in if rank = rt then buffer
         else if fst out then bytes_to_doubles count (snd out)
         else bytes_to_doubles count (tx_resend tx rank data))"

text \<open>The numbers of check bits arrive at every rank as the root sent them.\<close>

definition sizes_arrive :: "transport \<Rightarrow> nat \<Rightarrow> byte list \<Rightarrow> nat \<Rightarrow> nat \<Rightarrow> bool" where
  "sizes_arrive tx bs data rt procs \<longleftrightarrow> (\<forall>rank \<in> {0..<procs}. rank \<noteq> rt \<longrightarrow>
     tx_r tx rank (map snd (encode_blocks bs data)) = map snd (encode_blocks bs data))"

lemma share_sizes_eq:
  "share_sizes tx (map snd (encode_blocks bs data)) rt procs =
     (if sizes_arrive tx bs data rt procs then Inr () else Inl CountMismatch)"
  by (auto simp: share_sizes_def sizes_arrive_def list_all_iff)

lemma sizes_arrive_altering [simp]: "tx_r tx = (\<lambda>_ x. x) \<Longrightarrow> sizes_arrive tx bs data rt procs"
  by (simp add: sizes_arrive_def)

lemma MPI_Bcast_abft_eq:
  assumes "0 < count"
  shows "MPI_Bcast_abft crc32 tx buffer count rt procs =
    (if sizes_arrive tx (block_size (count * 8)) (take (count * 8) (doubles_to_bytes buffer)) rt procs
     then Inr (map (abft_result crc32 tx buffer count rt) [0..<procs]) else Inl CountMismatch)"
proof -
  have bs: "block_size (count * 8) \<noteq> 0" using assms by (simp add: block_size_value)
  have "res_fold (\<lambda>bufs rank. if rank = rt then Inr (bufs @ [buffer])
      else res_bind (receive_again tx (resend_list (map (\<lambda>i. fst (outcome i)) [0..<procs]) rt procs) data rt rank (outcome rank))
             (\<lambda>bits. Inr (bufs @ [bytes_to_doubles count bits]))) [] [0..<procs] =
    Inr (map (abft_result crc32 tx buffer count rt) [0..<procs])"
    if "data = take (count * 8) (doubles_to_bytes buffer)" "outcome = abft_check crc32 tx (block_size (count * 8)) data rt"
    for data outcome
    using that by (subst res_fold_collect [where g = "abft_result crc32 tx buffer count rt"])
      (auto simp: abft_result_def receive_again_def resend_matches Let_def)
  then show ?thesis using bs by (simp add: MPI_Bcast_abft_def Let_def share_sizes_eq)
qed

lemma abft_all_receive:
  assumes "0 < length buffer" and "rt < procs"
    and "\<forall>rank < procs. rank \<noteq> rt \<longrightarrow> repairable crc32 tx buffer rank"
  shows "MPI_Bcast_abft crc32 tx buffer (length buffer) rt procs = Inr (replicate procs buffer)"
proof -
  let ?data = "doubles_to_bytes buffer"
  have bs: "0 < block_size (length ?data)" using assms(1) by (simp add: block_size_value)
  have "abft_result crc32 tx buffer (length buffer) rt rank = buffer" if "rank < procs" for rank
  proof (cases "rank = rt")
    case False
    note hyps = assms(3) [rule_format, OF that False, unfolded repairable_def Let_def]
    have "fst (abft_check crc32 tx (block_size (length ?data)) ?data rt rank) \<Longrightarrow>
        snd (abft_check crc32 tx (block_size (length ?data)) ?data rt rank) = ?data"
      using check_accepts_only_sent [OF bs] hyps by simp
    moreover have "tx_resend tx rank ?data = ?data" using hyps by (simp add: intact_control_def)
    ultimately show ?thesis
      by (simp add: abft_result_def Let_def bytes_to_doubles_to_bytes mult.commute)
  qed (simp add: abft_result_def)
  then have "map (abft_result crc32 tx buffer (length buffer) rt) [0..<procs] = replicate procs buffer"
    by (intro nth_equalityI) simp_all
  moreover have "sizes_arrive tx (block_size (length buffer * 8)) (take (length buffer * 8) ?data) rt procs"
    using assms(3) by (auto simp: sizes_arrive_def repairable_def intact_control_def Let_def mult.commute)
  ultimately show ?thesis using assms(1) by (simp add: MPI_Bcast_abft_eq)
qed

section \<open>Properties\<close>

text \<open>C1: If no block arrives with more than two wrong bits, the CRC tells altered data from
  the data sent, and the control messages arrive intact, every rank ends with the root's
  buffer.\<close>

theorem abft_delivers:
  assumes "0 < length buffer" and "rt < procs"
    and "\<forall>rank < procs. rank \<noteq> rt \<longrightarrow>
      intact_control crc32 tx (block_size (8 * length buffer)) (doubles_to_bytes buffer) rank \<and>
      few_errors tx (block_size (8 * length buffer)) (doubles_to_bytes buffer) rank \<and>
      crc_detects crc32 tx (doubles_to_bytes buffer) rank"
  shows "MPI_Bcast_abft crc32 tx buffer (length buffer) rt procs = Inr (replicate procs buffer)"
  using assms by (intro abft_all_receive) (simp_all add: repairable_def)

text \<open>A transport that alters the data only, and a checksum to run the model with.\<close>

definition altering :: "(byte list \<Rightarrow> byte list) \<Rightarrow> transport" where
  "altering f = \<lparr>tx_data = (\<lambda>_. f), tx_crc = (\<lambda>_ x. x), tx_r = (\<lambda>_ x. x), tx_c = (\<lambda>_ _ x. x),
     tx_resend = (\<lambda>_ x. x)\<rparr>"

definition checksum :: crc32_fun where
  "checksum crc buf =
     (case buf of None \<Rightarrow> 0 | Some xs \<Rightarrow> foldl (\<lambda>crc x. 31 * crc + ucast x) crc xs)"

text \<open>Data of a single block, two bits of which are flipped on the way.\<close>

lemma repairable_altering:
  assumes "doubles_to_bytes buffer = data" and "length data = 8 * length buffer"
    and "0 < length buffer" and "length buffer \<le> 1562"
    and "length (f data) = length data" and "distance (bytes_to_bits data) (bytes_to_bits (f data)) \<le> 2"
    and "do_crc32 crc32 (f data) (length data) \<noteq> do_crc32 crc32 data (length data)"
  shows "repairable crc32 (altering f) buffer rank"
proof -
  have bs: "block_size (8 * length buffer) = length data" using assms(2,4) by (simp add: block_size_value)
  have pos: "0 < length data" using assms(2,3) by simp
  obtain c n where enc: "encode_blocks (length data) data = [(c, n)]"
    using pos by (cases "hamming_encode data (length data)")
      (simp add: encode_blocks_def block_count_def block_def block_bytes_def)
  have "distance (bytes_to_bits data @ c) (bytes_to_bits (f data) @ c) \<le> 2"
    using assms(5,6) by (simp add: distance_append)
  then have "few_errors (altering f) (length data) data rank"
    using enc assms(5) pos by (simp add: few_errors_def Let_def block_count_def block_def block_bytes_def altering_def)
  moreover have "intact_control crc32 (altering f) (length data) data rank"
    by (simp add: intact_control_def altering_def)
  moreover have "crc_detects crc32 (altering f) data rank"
    using assms(5,7) by (simp add: crc_detects_def altering_def Let_def)
  ultimately show ?thesis by (simp only: repairable_def bs assms(1) Let_def)
qed

text \<open>The double 1.5: its bytes, its check bits, and the mistaken repair of three flips in it.\<close>

lemma bytes_1_5: "double_bytes 0x3FF8000000000000 = [0, 0, 0, 0, 0, 0, 248, 63]"
  by code_simp

lemma bytes_1_5': "doubles_to_bytes [0x3FF8000000000000] = [0, 0, 0, 0, 0, 0, 248, 63]"
  by (simp add: bytes_1_5)

lemma encode_1_5:
  "encode_blocks 8 [0, 0, 0, 0, 0, 0, 248, 63] = [([False, True, True, False, True, True, False, True], 7)]"
  by code_simp

lemma decode_1_5:
  "decode_blocks hamming_decode 8 [[False, True, True, False, True, True, False, True]] [7]
     [7, 0, 0, 0, 0, 0, 248, 63] [0] = (True, [7, 128, 0, 0, 0, 0, 248, 63])"
  by code_simp

lemma repairable_1_5: "repairable checksum (altering (\<lambda>d. d[0 := 3])) [0x3FF8000000000000] rank"
proof -
  have crc: "do_crc32 checksum [3, 0, 0, 0, 0, 0, 248, 63] (length [3, 0, 0, 0, 0, 0, 248, 63 :: byte]) \<noteq>
      do_crc32 checksum [0, 0, 0, 0, 0, 0, 248, 63] (length [0, 0, 0, 0, 0, 0, 248, 63 :: byte])"
    by code_simp
  show ?thesis
    by (rule repairable_altering [OF bytes_1_5']) (use crc in \<open>simp_all add: byte_bits_def upt_rec\<close>)
qed

theorem abft_delivers_witness:
  "MPI_Bcast_abft checksum (altering (\<lambda>d. d[0 := 3])) [0x3FF8000000000000]
     (length [0x3FF8000000000000 :: 64 word]) 0 2 = Inr (replicate 2 [0x3FF8000000000000])"
proof (rule abft_delivers)
  show "\<forall>rank < 2. rank \<noteq> 0 \<longrightarrow>
      intact_control checksum (altering (\<lambda>d. d[0 := 3])) (block_size (8 * length [0x3FF8000000000000 :: 64 word]))
        (doubles_to_bytes [0x3FF8000000000000]) rank \<and>
      few_errors (altering (\<lambda>d. d[0 := 3])) (block_size (8 * length [0x3FF8000000000000 :: 64 word]))
        (doubles_to_bytes [0x3FF8000000000000]) rank \<and>
      crc_detects checksum (altering (\<lambda>d. d[0 := 3])) (doubles_to_bytes [0x3FF8000000000000]) rank"
    using repairable_1_5 unfolding repairable_def Let_def by blast
qed simp_all



text \<open>The CRC is not looked at again after a repair.  With three wrong bits in a block the
  code takes the word for one with a single wrong bit, repairs a correct bit, and the rank
  keeps the wrong data although the CRC the root sent would have told.\<close>

theorem abft_accepts_three_flips:
  "MPI_Bcast_abft checksum (altering (\<lambda>d. d[0 := 7])) [0x3FF8000000000000] 1 0 2 =
     Inr [[0x3FF8000000000000], [0x3FF8000000008007]] \<and>
   do_crc32 checksum (doubles_to_bytes [0x3FF8000000008007]) 8 \<noteq>
     do_crc32 checksum (doubles_to_bytes [0x3FF8000000000000]) 8"
proof -
  have crc: "do_crc32 checksum [7, 0, 0, 0, 0, 0, 248, 63] (length [7, 0, 0, 0, 0, 0, 248, 63 :: byte])
      \<noteq> do_crc32 checksum [0, 0, 0, 0, 0, 0, 248, 63] (length [0, 0, 0, 0, 0, 0, 248, 63 :: byte])"
    by code_simp
  have dbl: "bytes_to_doubles 1 [7, 128, 0, 0, 0, 0, 248, 63] = [0x3FF8000000008007]"
    by code_simp
  have out: "abft_check checksum (altering (\<lambda>d. d[0 := 7])) 8 [0, 0, 0, 0, 0, 0, 248, 63] 0 1 =
      (True, [7, 128, 0, 0, 0, 0, 248, 63])"
    using crc decode_1_5 by (simp add: abft_check_def Let_def altering_def encode_1_5
        check_received_def block_count_def del: decode_blocks.simps)
  have "MPI_Bcast_abft checksum (altering (\<lambda>d. d[0 := 7])) [0x3FF8000000000000] 1 0 2 =
      Inr [[0x3FF8000000000000], [0x3FF8000000008007]]"
    using out dbl by (simp add: MPI_Bcast_abft_eq abft_result_def bytes_1_5 block_size_value upt_rec altering_def)
  moreover have "do_crc32 checksum (doubles_to_bytes [0x3FF8000000008007]) 8 \<noteq>
      do_crc32 checksum (doubles_to_bytes [0x3FF8000000000000]) 8" by code_simp
  ultimately show ?thesis by simp
qed

text \<open>A broadcast of no elements divides by the block size 0.\<close>

theorem abft_empty_divides_by_zero:
  "MPI_Bcast_abft crc32 tx buffer 0 rt procs = Inl DivByZero"
  by (simp add: MPI_Bcast_abft_def block_size_value)

text \<open>The blocks of \<open>abft.c\<close> hold at most 12499 bytes, and for data that is not empty the
  blocks, put end to end, are the data.\<close>

theorem abft_blocks_partition:
  assumes "0 < length data"
  shows "concat (map (block (block_size (length data)) data)
      [0..<block_count (block_size (length data)) (length data)]) = data \<and>
    (\<forall>i < block_count (block_size (length data)) (length data).
      length (block (block_size (length data)) data i) \<in> {1..12499})"
proof -
  let ?bs = "block_size (length data)" and ?n = "length data"
  have bs: "0 < ?bs" "?bs \<le> 12499" using assms by (simp_all add: block_size_value)
  have pre: "concat (map (block ?bs data) [0..<i]) = take (offset ?bs ?n i) data"
    if "i \<le> block_count ?bs ?n" for i
    using that
  proof (induction i)
    case 0
    then show ?case by (simp add: offset_def)
  next
    case (Suc i)
    then have i: "i < block_count ?bs ?n" by simp
    have "offset ?bs ?n i = i * ?bs" using block_geometry(1) [OF bs(1) i] by (simp add: offset_def)
    then show ?case using Suc block_geometry(3) [OF bs(1) i] by (simp add: block_def take_add)
  qed
  have "length (block ?bs data i) \<in> {1..12499}" if i: "i < block_count ?bs ?n" for i
  proof -
    have "?n mod ?bs < ?bs" using bs(1) by simp
    then have "block_bytes ?bs ?n i \<le> ?bs" by (simp add: block_bytes_def Let_def)
    then show ?thesis using block_geometry(2) [OF bs(1) i] bs(2) length_block [OF bs(1) i] by simp
  qed
  then show ?thesis using pre [of "block_count ?bs ?n"] offset_count [OF bs(1)] by simp
qed

theorem abft_blocks_partition_witness:
  "concat (map (block (block_size 3) [1, 2, 3]) [0..<block_count (block_size 3) 3]) = [1, 2, 3 :: byte]"
  using abft_blocks_partition [of "[1, 2, 3]"] by (simp add: numeral_3_eq_3)

end
