(* ===== verification/CompComm.thy ===== *)
theory CompComm
  imports
  Dataset
  NpCodec
  AbftBcast
begin

text \<open>
  The compressed messages of \<open>app/src/dataCompression.c\<close>: \<open>MPI_Send_bitwise_double\<close>,
  \<open>MPI_Recv_bitwise_double\<close>, their \<open>_np\<close> and \<open>_op\<close> forms, the forms \<open>_cn\<close> that compress the
  first \<open>len\<close> numbers only, and \<open>MPI_Bcast_bitwise_double\<close>.  A message is the number of
  compressed bytes (an \<open>int\<close>), the least number (a \<open>double\<close>) and the bytes.  MPI delivers
  what is sent.  What the functions need of a codec is the locale \<open>codec\<close>, which the three
  codecs of doubles interpret.
\<close>

section \<open>The code\<close>

definition int_bytes :: "32 word \<Rightarrow> byte list" where
  "int_bytes n = map (\<lambda>i. ucast (drop_bit (8 * i) n)) [0..<4]"

definition bytes_int :: "byte list \<Rightarrow> 32 word" where
  "bytes_int bs = word_of_int (horner_sum uint (2 ^ 8) bs)"

definition pack_message :: "64 word \<Rightarrow> bitbuf \<Rightarrow> byte list" where
  "pack_message least st = int_bytes (word_of_nat (bytes st)) @ double_bytes least @ take (bytes st) (data_bits st)"

definition send_bitwise ::
  "(64 word list \<Rightarrow> bitbuf \<Rightarrow> bitbuf) \<Rightarrow> 64 word list \<Rightarrow> byte list result" where
  "send_bitwise compress buf =
     res_bind (toSmallDataset_double buf) (\<lambda>(least, small).
       Inr (pack_message least (compress small empty_bitbuf)))"

text \<open>
  The receiver reads the three parts of what lies in memory at \<open>buf\<close>, and stores the
  numbers; a number the decoder has not written is read all the same.
\<close>

definition add_least :: "64 word \<Rightarrow> nat \<Rightarrow> 64 word list \<Rightarrow> 64 word list result" where
  "add_least least num nums =
     (if length nums < num then Inl Uninitialised
      else Inr (map (\<lambda>x. fadd x least) (take num nums)))"

definition unpack_message ::
  "(byte list \<Rightarrow> nat \<Rightarrow> 64 word list result) \<Rightarrow> byte list \<Rightarrow> nat \<Rightarrow> 64 word list result" where
  "unpack_message decompress buf num =
     (if length buf < 12 then Inl OutOfBounds
      else let n = nat (sint (bytes_int (take 4 buf)));
               least = bytes_double (take 8 (drop 4 buf))
           in if length buf < 12 + n then Inl OutOfBounds
              else res_bind (decompress (take n (drop 12 buf)) num) (add_least least num))"

text \<open>
  Bytes copied to \<open>buf\<close>, of which the program owns \<open>length buf\<close> bytes.  \<open>MPI_Recv\<close> ends the
  program if the message is longer than the receive allows.
\<close>

definition copy_into :: "byte list \<Rightarrow> byte list \<Rightarrow> byte list result" where
  "copy_into buf msg =
     (if length buf < length msg then Inl OutOfBounds else Inr (msg @ drop (length msg) buf))"

definition recv_bytes :: "nat \<Rightarrow> byte list \<Rightarrow> byte list \<Rightarrow> byte list result" where
  "recv_bytes posted buf msg = (if posted < length msg then Inl ExitFailure else copy_into buf msg)"

definition recv_bitwise ::
  "(byte list \<Rightarrow> nat \<Rightarrow> 64 word list result) \<Rightarrow> byte list \<Rightarrow> nat \<Rightarrow> byte list \<Rightarrow> 64 word list result" where
  "recv_bitwise decompress buf count msg =
     res_bind (recv_bytes (count * 8 + 4 + 8) buf msg) (\<lambda>buf. unpack_message decompress buf count)"

definition MPI_Send_bitwise_double :: "64 word list \<Rightarrow> byte list result" where
  "MPI_Send_bitwise_double = send_bitwise myCompress_bitwise_double"

definition MPI_Recv_bitwise_double :: "byte list \<Rightarrow> nat \<Rightarrow> byte list \<Rightarrow> 64 word list result" where
  "MPI_Recv_bitwise_double = recv_bitwise myDecompress_bitwise_double"

definition MPI_Send_bitwise_double_np :: "64 word list \<Rightarrow> byte list result" where
  "MPI_Send_bitwise_double_np = send_bitwise myCompress_bitwise_double_np"

definition MPI_Recv_bitwise_double_np :: "byte list \<Rightarrow> nat \<Rightarrow> byte list \<Rightarrow> 64 word list result" where
  "MPI_Recv_bitwise_double_np = recv_bitwise myDecompress_bitwise_double_np"

definition MPI_Send_bitwise_double_op :: "64 word list \<Rightarrow> byte list result" where
  "MPI_Send_bitwise_double_op = send_bitwise myCompress_bitwise_double_op"

definition MPI_Recv_bitwise_double_op :: "byte list \<Rightarrow> nat \<Rightarrow> byte list \<Rightarrow> 64 word list result" where
  "MPI_Recv_bitwise_double_op = recv_bitwise myDecompress_bitwise_double_op"

text \<open>
  The \<open>_cn\<close> functions send two messages: the first \<open>len\<close> numbers compressed, the rest as
  they are.
\<close>

definition send_bitwise_cn ::
  "(64 word list \<Rightarrow> bitbuf \<Rightarrow> bitbuf) \<Rightarrow> 64 word list \<Rightarrow> nat \<Rightarrow> (byte list \<times> 64 word list) result" where
  "send_bitwise_cn compress buf len =
     res_bind (send_bitwise compress (take len buf)) (\<lambda>msg. Inr (msg, drop len buf))"

definition recv_bitwise_cn ::
  "(byte list \<Rightarrow> nat \<Rightarrow> 64 word list result) \<Rightarrow> byte list \<Rightarrow> nat \<Rightarrow> byte list \<times> 64 word list \<Rightarrow>
   64 word list result" where
  "recv_bitwise_cn decompress buf len msgs =
     res_bind (recv_bitwise decompress buf len (fst msgs)) (\<lambda>first. Inr (first @ snd msgs))"

definition MPI_Send_bitwise_double_cn :: "64 word list \<Rightarrow> nat \<Rightarrow> (byte list \<times> 64 word list) result" where
  "MPI_Send_bitwise_double_cn = send_bitwise_cn myCompress_bitwise_double"

definition MPI_Recv_bitwise_double_cn ::
  "byte list \<Rightarrow> nat \<Rightarrow> byte list \<times> 64 word list \<Rightarrow> 64 word list result" where
  "MPI_Recv_bitwise_double_cn = recv_bitwise_cn myDecompress_bitwise_double"

definition MPI_Send_bitwise_double_np_cn :: "64 word list \<Rightarrow> nat \<Rightarrow> (byte list \<times> 64 word list) result" where
  "MPI_Send_bitwise_double_np_cn = send_bitwise_cn myCompress_bitwise_double_np"

definition MPI_Recv_bitwise_double_np_cn ::
  "byte list \<Rightarrow> nat \<Rightarrow> byte list \<times> 64 word list \<Rightarrow> 64 word list result" where
  "MPI_Recv_bitwise_double_np_cn = recv_bitwise_cn myDecompress_bitwise_double_np"

definition MPI_Send_bitwise_double_op_cn :: "64 word list \<Rightarrow> nat \<Rightarrow> (byte list \<times> 64 word list) result" where
  "MPI_Send_bitwise_double_op_cn = send_bitwise_cn myCompress_bitwise_double_op"

definition MPI_Recv_bitwise_double_op_cn ::
  "byte list \<Rightarrow> nat \<Rightarrow> byte list \<times> 64 word list \<Rightarrow> 64 word list result" where
  "MPI_Recv_bitwise_double_op_cn = recv_bitwise_cn myDecompress_bitwise_double_op"

text \<open>
  The broadcast copies the message into an array of \<open>count*8+12\<close> bytes (\<open>aux\<close> is what
  \<open>malloc\<close> left there) and sends all of it; the root keeps its numbers.
\<close>

definition bcast_root :: "64 word list \<Rightarrow> byte list \<Rightarrow> byte list result" where
  "bcast_root buf aux =
     res_bind (send_bitwise myCompress_bitwise_double buf) (copy_into (take (4 + 8 + length buf * 8) aux))"

definition MPI_Bcast_bitwise_double ::
  "64 word list list \<Rightarrow> byte list \<Rightarrow> nat \<Rightarrow> nat \<Rightarrow> 64 word list list result" where
  "MPI_Bcast_bitwise_double bufs aux count rt =
     res_bind (bcast_root (take count (bufs ! rt)) aux) (\<lambda>data_bits_aux.
       res_fold (\<lambda>out rank.
           if rank = rt then Inr (out @ [bufs ! rank])
           else res_bind (unpack_message myDecompress_bitwise_double data_bits_aux count)
                  (\<lambda>new. Inr (out @ [new @ drop count (bufs ! rank)])))
         [] [0..<length bufs])"

section \<open>Messages\<close>

lemma length_int_bytes [simp]: "length (int_bytes n) = 4"
  by (simp add: int_bytes_def)

lemma bytes_int_bytes [simp]: "bytes_int (int_bytes n) = n"
proof (rule bit_word_eqI)
  fix i
  assume i: "i < LENGTH(32)"
  have "bit (bytes_int (int_bytes n)) i \<longleftrightarrow> bit (horner_sum uint (2 ^ LENGTH(8)) (int_bytes n)) i"
    using i by (simp add: bytes_int_def bit_word_of_int_iff)
  also have "\<dots> \<longleftrightarrow> i div 8 < 4 \<and> bit (int_bytes n ! (i div 8)) (i mod 8)"
    by (subst bit_horner_sum_uint_exp_iff) simp
  also have "\<dots> \<longleftrightarrow> bit n (8 * (i div 8) + i mod 8)"
    using i by (auto simp: int_bytes_def bit_ucast_iff bit_drop_bit_eq less_mult_imp_div_less add.commute)
  also have "8 * (i div 8) + i mod 8 = i" by simp
  finally show "bit (bytes_int (int_bytes n)) i = bit n i" .
qed

lemma sint_small: "n < 2 ^ 31 \<Longrightarrow> sint (word_of_nat n :: 32 word) = int n"
  by (simp add: signed_of_nat signed_take_bit_int_eq_self)

lemma length_message:
  "bitbuf_ok st \<Longrightarrow> length (pack_message least st) = 12 + bytes st"
  by (simp add: pack_message_def bitbuf_ok_def)

lemma unpack_packed:
  assumes "bitbuf_ok st" and "bytes st < 2 ^ 31"
  shows "unpack_message decompress (pack_message least st @ later) num =
    res_bind (decompress (data_bits st) num) (add_least least num)"
proof -
  have "take (bytes st) (data_bits st) = data_bits st" using assms(1) by (simp add: bitbuf_ok_def)
  then show ?thesis using assms
    by (simp add: unpack_message_def pack_message_def sint_small bitbuf_ok_def Let_def)
qed

section \<open>What a codec promises its callers\<close>

text \<open>
  On numbers without a sign bit that meet \<open>complete\<close>, decompressing gives as many numbers,
  which are \<open>near\<close> those compressed; the compressed bytes are not more than the numbers'.
\<close>

locale codec =
  fixes compress :: "64 word list \<Rightarrow> bitbuf \<Rightarrow> bitbuf"
    and decompress :: "byte list \<Rightarrow> nat \<Rightarrow> 64 word list result"
    and complete :: "64 word list \<Rightarrow> bool"
    and near :: "64 word list \<Rightarrow> 64 word list \<Rightarrow> bool"
  assumes buffer_ok: "bitbuf_ok (compress small empty_bitbuf)"
    and small_size: "bytes (compress small empty_bitbuf) \<le> 8 * length small"
    and decompressed: "\<forall>x \<in> set small. \<not> fsign x \<Longrightarrow> complete small \<Longrightarrow>
      \<exists>out. decompress (data_bits (compress small empty_bitbuf)) (length small) = Inr out \<and>
        length out = length small \<and> near small out"
begin

lemma sent:
  assumes "toSmallDataset_double buf = Inr (least, small)"
  shows "send_bitwise compress buf = Inr (pack_message least (compress small empty_bitbuf))"
    and "length small = length buf"
    and "length (pack_message least (compress small empty_bitbuf)) = 12 + bytes (compress small empty_bitbuf)"
    and "bytes (compress small empty_bitbuf) \<le> 8 * length buf"
proof -
  show len: "length small = length buf"
    using assms by (auto simp: toSmallDataset_double_def toSmallDataset_def Let_def split: if_splits)
  show "send_bitwise compress buf = Inr (pack_message least (compress small empty_bitbuf))"
    by (simp add: send_bitwise_def assms)
  show "length (pack_message least (compress small empty_bitbuf)) = 12 + bytes (compress small empty_bitbuf)"
    by (rule length_message [OF buffer_ok])
  show "bytes (compress small empty_bitbuf) \<le> 8 * length buf" using small_size [of small] len by simp
qed

lemma unpacked:
  assumes "toSmallDataset_double buf = Inr (least, small)" and "length buf < 2 ^ 28"
    and "\<forall>x \<in> set buf. is_fin x \<and> \<not> (fsign x \<and> is_zero x)" and "complete small"
  shows "\<exists>out. unpack_message decompress (pack_message least (compress small empty_bitbuf) @ later) (length buf) =
      Inr (map (\<lambda>x. fadd x least) out) \<and> length out = length buf \<and> near small out"
proof -
  have len: "length small = length buf" and "bytes (compress small empty_bitbuf) < 2 ^ 31"
    using sent(2,4) [OF assms(1)] assms(2) by simp_all
  then have un: "unpack_message decompress (pack_message least (compress small empty_bitbuf) @ later) (length buf) =
      res_bind (decompress (data_bits (compress small empty_bitbuf)) (length small)) (add_least least (length buf))"
    using unpack_packed [OF buffer_ok] by simp
  have "\<forall>x \<in> set small. \<not> fsign x"
    using double.small_nonneg [of buf least small] assms(1,3) by (simp add: toSmallDataset_double_def)
  from decompressed [OF this assms(4)] show ?thesis
    unfolding un using len by (auto simp: add_least_def)
qed

lemma received:
  assumes "toSmallDataset_double buf = Inr (least, small)" and "length buf < 2 ^ 28"
    and "\<forall>x \<in> set buf. is_fin x \<and> \<not> (fsign x \<and> is_zero x)" and "complete small"
    and "12 + bytes (compress small empty_bitbuf) \<le> length mem"
  shows "\<exists>msg out. send_bitwise compress buf = Inr msg \<and>
    recv_bitwise decompress mem (length buf) msg = Inr (map (\<lambda>x. fadd x least) out) \<and>
    length out = length buf \<and> near small out"
proof -
  note s = sent [OF assms(1)]
  have "recv_bytes (length buf * 8 + 4 + 8) mem (pack_message least (compress small empty_bitbuf)) =
      Inr (pack_message least (compress small empty_bitbuf) @
        drop (12 + bytes (compress small empty_bitbuf)) mem)"
    using s(3,4) assms(5) by (simp add: recv_bytes_def copy_into_def)
  then show ?thesis using s(1) unpacked [OF assms(1-4)] by (simp add: recv_bitwise_def)
qed

text \<open>A buffer of the size of the numbers is too small when they do not compress.\<close>

lemma receive_overflows:
  assumes "toSmallDataset_double buf = Inr (least, small)" and "send_bitwise compress buf = Inr msg"
    and "length mem < 12 + bytes (compress small empty_bitbuf)"
  shows "recv_bitwise decompress mem (length buf) msg = Inl OutOfBounds"
proof -
  note s = sent [OF assms(1)]
  have "recv_bytes (length buf * 8 + 4 + 8) mem msg = Inl OutOfBounds"
    using s(1,3,4) assms(2,3) by (simp add: recv_bytes_def copy_into_def)
  then show ?thesis by (simp add: recv_bitwise_def)
qed

lemma received_cn:
  assumes "toSmallDataset_double (take len buf) = Inr (least, small)" and "len < 2 ^ 28" and "len \<le> length buf"
    and "\<forall>x \<in> set (take len buf). is_fin x \<and> \<not> (fsign x \<and> is_zero x)" and "complete small"
    and "12 + bytes (compress small empty_bitbuf) \<le> length mem"
  shows "\<exists>msgs out. send_bitwise_cn compress buf len = Inr msgs \<and>
    recv_bitwise_cn decompress mem len msgs = Inr (map (\<lambda>x. fadd x least) out @ drop len buf) \<and>
    length out = len \<and> near small out"
proof -
  have len: "length (take len buf) = len" using assms(3) by simp
  from received [OF assms(1) _ assms(4-6), unfolded len, OF assms(2)] show ?thesis
    by (auto simp: send_bitwise_cn_def recv_bitwise_cn_def)
qed

end

section \<open>The three codecs of doubles\<close>

text \<open>The last number is decoded: a bit follows it, or it has mantissa bits.\<close>

definition ends_well :: "bitbuf \<Rightarrow> 64 word list \<Rightarrow> bool" where
  "ends_well st small \<longleftrightarrow> pos st \<noteq> 8 \<or> kept (last small) \<noteq> 0"

definition complete_pred :: "64 word list \<Rightarrow> bool" where
  "complete_pred small \<longleftrightarrow> (\<forall>x \<in> set small. is_fin x) \<and>
     ends_well (myCompress_bitwise_double small empty_bitbuf) small"

definition near_pred :: "64 word list \<Rightarrow> 64 word list \<Rightarrow> bool" where
  "near_pred small out \<longleftrightarrow> (\<forall>i < length small. i < 3 \<or> \<not> predicted small i \<longrightarrow>
     \<bar>fval (small ! i) - fval (out ! i)\<bar> \<le> fval absErrorBound)"

definition near_np :: "64 word list \<Rightarrow> 64 word list \<Rightarrow> bool" where
  "near_np small out \<longleftrightarrow> (\<forall>i < length small. \<bar>fval (small ! i) - fval (out ! i)\<bar> \<le> 2 powi (- 21))"

definition near_op :: "64 word list \<Rightarrow> 64 word list \<Rightarrow> bool" where
  "near_op small out \<longleftrightarrow> (\<forall>i < length small. i < 3 \<or> \<not> predicted small i \<longrightarrow>
     out ! i = (if negligible (small ! i) then fint 0 else small ! i))"

interpretation pred_codec: codec myCompress_bitwise_double myDecompress_bitwise_double complete_pred near_pred
proof
  show "bitbuf_ok (myCompress_bitwise_double small empty_bitbuf)" for small
    using truncated_double.myCompress_pred_written [of small] by (simp add: pred_functions)
  show "bytes (myCompress_bitwise_double small empty_bitbuf) \<le> 8 * length small" for small
    using truncated_double.pred_size [of 64 small] double.length_code_bits_upto by (simp add: pred_functions)
  show "\<exists>out. myDecompress_bitwise_double (data_bits (myCompress_bitwise_double small empty_bitbuf)) (length small) = Inr out \<and>
      length out = length small \<and> near_pred small out"
    if "\<forall>x \<in> set small. \<not> fsign x" "complete_pred small" for small
  proof (intro exI conjI)
    show "myDecompress_bitwise_double (data_bits (myCompress_bitwise_double small empty_bitbuf)) (length small) =
        Inr (double.readings code_bits small)"
      using that pred_double_result [OF that(1) refl]
      by (auto simp: complete_pred_def ends_well_def double.lost_last_def)
    show "near_pred small (double.readings code_bits small)"
      using that not_predicted_start(1) pred_double_error unfolding near_pred_def complete_pred_def by blast
  qed simp
qed

interpretation np_codec: codec myCompress_bitwise_double_np myDecompress_bitwise_double_np
  "\<lambda>small. ends_well (myCompress_bitwise_double_np small empty_bitbuf) small" near_np
proof
  show "bitbuf_ok (myCompress_bitwise_double_np small empty_bitbuf)" for small
    using double.myCompress_np_written [of empty_bitbuf small] by (simp add: np_functions)
  show "bytes (myCompress_bitwise_double_np small empty_bitbuf) \<le> 8 * length small" for small
    using double.np_size [of small] by (simp add: np_functions)
  show "\<exists>out. myDecompress_bitwise_double_np (data_bits (myCompress_bitwise_double_np small empty_bitbuf)) (length small) = Inr out \<and>
      length out = length small \<and> near_np small out"
    if "\<forall>x \<in> set small. \<not> fsign x" "ends_well (myCompress_bitwise_double_np small empty_bitbuf) small" for small
  proof -
    have "myDecompress_bitwise_double_np (data_bits (myCompress_bitwise_double_np small empty_bitbuf)) (length small) =
        Inr (map truncated small)"
      using double.np_result [OF that(1) refl] that(2) by (auto simp: np_functions ends_well_def)
    then show ?thesis unfolding near_np_def by (rule double.near_truncated)
  qed
qed

interpretation op_codec: codec myCompress_bitwise_double_op myDecompress_bitwise_double_op "\<lambda>small. True" near_op
proof
  show "bitbuf_ok (myCompress_bitwise_double_op small empty_bitbuf)" for small
    using whole_double.myCompress_pred_written [of small] by (simp add: pred_functions)
  show "bytes (myCompress_bitwise_double_op small empty_bitbuf) \<le> 8 * length small" for small
    using whole_double.pred_size [of 64 small] by (simp add: pred_functions)
  show "\<exists>out. myDecompress_bitwise_double_op (data_bits (myCompress_bitwise_double_op small empty_bitbuf)) (length small) = Inr out \<and>
      length out = length small \<and> near_op small out"
    if "\<forall>x \<in> set small. \<not> fsign x" for small
  proof (intro exI conjI)
    show "myDecompress_bitwise_double_op (data_bits (myCompress_bitwise_double_op small empty_bitbuf)) (length small) =
        Inr (double.readings tostr small)"
      using double.op_result [OF that] whole_double.myCompress_pred_written [of small] by (simp add: pred_functions)
    show "near_op small (double.readings tostr small)"
      using not_predicted_start(1) by (auto simp: near_op_def double.reading_not_predicted fill_middle_def)
  qed simp
qed

section \<open>The broadcast\<close>

lemma bcast_ranks:
  assumes "toSmallDataset_double buf = Inr (least, small)" and "length buf < 2 ^ 28"
    and "\<forall>x \<in> set buf. is_fin x \<and> \<not> (fsign x \<and> is_zero x)" and "complete_pred small"
    and "length aux = 12 + 8 * length buf" and "take (length buf) (bufs ! rt) = buf"
  shows "\<exists>out. MPI_Bcast_bitwise_double bufs aux (length buf) rt =
      Inr (map (\<lambda>rank. if rank = rt then bufs ! rank
        else map (\<lambda>x. fadd x least) out @ drop (length buf) (bufs ! rank)) [0..<length bufs]) \<and>
    length out = length buf \<and> near_pred small out"
proof -
  let ?st = "myCompress_bitwise_double small empty_bitbuf"
  note s = pred_codec.sent [OF assms(1)]
  have root: "bcast_root buf aux = Inr (pack_message least ?st @ drop (12 + bytes ?st) aux)"
    using s assms(5) by (simp add: bcast_root_def copy_into_def)
  from pred_codec.unpacked [OF assms(1-4)] obtain out where out:
    "unpack_message myDecompress_bitwise_double (pack_message least ?st @ drop (12 + bytes ?st) aux) (length buf) =
      Inr (map (\<lambda>x. fadd x least) out)" "length out = length buf" "near_pred small out" by blast
  have "res_fold (\<lambda>new rank. if rank = rt then Inr (new @ [bufs ! rank])
      else res_bind (unpack_message myDecompress_bitwise_double (pack_message least ?st @ drop (12 + bytes ?st) aux) (length buf))
        (\<lambda>nums. Inr (new @ [nums @ drop (length buf) (bufs ! rank)]))) [] [0..<length bufs] =
    Inr ([] @ map (\<lambda>rank. if rank = rt then bufs ! rank
        else map (\<lambda>x. fadd x least) out @ drop (length buf) (bufs ! rank)) [0..<length bufs])"
    by (rule res_fold_collect) (simp add: out(1))
  then show ?thesis using out(2,3) by (auto simp: MPI_Bcast_bitwise_double_def assms(6) root)
qed

lemma small_single: "toSmallDataset_double [x] = Inr (x, [fsub x x])"
  by (simp add: toSmallDataset_double_def toSmallDataset_def above_def)

section \<open>Properties\<close>

text \<open>C9: What \<open>MPI_Send_bitwise_double\<close> sends of finite numbers without a negative zero,
  \<open>MPI_Recv_bitwise_double\<close> turns into as many numbers, if the message, 12 bytes more than the
  compressed data, fits into the receiver's array and the last number is not lost (it has mantissa bits or
  does not end a byte): the least number added to decoded differences, of which the first three and those
  that were not predicted are within the error bound.\<close>

theorem send_recv_delivers:
  assumes "toSmallDataset_double buf = Inr (least, small)" and "length buf < 2 ^ 28"
    and "\<forall>x \<in> set buf. is_fin x \<and> \<not> (fsign x \<and> is_zero x)" and "\<forall>x \<in> set small. is_fin x"
    and "st = myCompress_bitwise_double small empty_bitbuf" and "pos st \<noteq> 8 \<or> kept (last small) \<noteq> 0"
    and "12 + bytes st \<le> length mem"
  shows "\<exists>msg out. MPI_Send_bitwise_double buf = Inr msg \<and>
    MPI_Recv_bitwise_double mem (length buf) msg = Inr (map (\<lambda>x. fadd x least) out) \<and> length out = length buf \<and>
    (\<forall>i < length small. i < 3 \<or> \<not> predicted small i \<longrightarrow>
       \<bar>fval (small ! i) - fval (out ! i)\<bar> \<le> fval absErrorBound)"
  using pred_codec.received [OF assms(1-3), of mem] assms(4-7)
  by (simp add: complete_pred_def ends_well_def near_pred_def MPI_Send_bitwise_double_def MPI_Recv_bitwise_double_def)

theorem send_recv_delivers_witness:
  "\<exists>msg out. MPI_Send_bitwise_double [0x3FF0000000000000, 0x4004000000000000] = Inr msg \<and>
    MPI_Recv_bitwise_double (replicate 24 0) (length [0x3FF0000000000000, 0x4004000000000000 :: 64 word]) msg =
      Inr (map (\<lambda>x. fadd x 0x3FF0000000000000) out) \<and>
    length out = length [0x3FF0000000000000, 0x4004000000000000 :: 64 word] \<and>
    (\<forall>i < length [0, 0x3FF8000000000000 :: 64 word]. i < 3 \<or> \<not> predicted [0, 0x3FF8000000000000 :: 64 word] i \<longrightarrow>
       \<bar>fval ([0, 0x3FF8000000000000 :: 64 word] ! i) - fval (out ! i)\<bar> \<le> fval absErrorBound)"
proof (rule send_recv_delivers [OF _ _ _ _ refl])
  show "toSmallDataset_double [0x3FF0000000000000, 0x4004000000000000] =
      Inr (0x3FF0000000000000, [0, 0x3FF8000000000000])"
    "\<forall>x \<in> set [0x3FF0000000000000, 0x4004000000000000 :: 64 word]. is_fin x \<and> \<not> (fsign x \<and> is_zero x)"
    "\<forall>x \<in> set [0, 0x3FF8000000000000 :: 64 word]. is_fin x" by code_simp+
  have "kept (last [0, 0x3FF8000000000000 :: 64 word]) \<noteq> 0" by code_simp
  then show "pos (myCompress_bitwise_double [0, 0x3FF8000000000000] empty_bitbuf) \<noteq> 8 \<or>
    kept (last [0, 0x3FF8000000000000 :: 64 word]) \<noteq> 0" ..
  have "bytes (myCompress_bitwise_double [0, 0x3FF8000000000000] empty_bitbuf) = 5" by code_simp
  then show "12 + bytes (myCompress_bitwise_double [0, 0x3FF8000000000000] empty_bitbuf) \<le> length (replicate 24 (0 :: byte))"
    by simp
qed simp

text \<open>The same for the codec without prediction, with half the error bound for every number,
  and for the \<open>_op\<close> codec, which brings the differences themselves, or 0 for those smaller
  than the error bound.\<close>

theorem send_recv_np_op_delivers:
  assumes "toSmallDataset_double buf = Inr (least, small)" and "length buf < 2 ^ 28"
    and "\<forall>x \<in> set buf. is_fin x \<and> \<not> (fsign x \<and> is_zero x)"
    and "np = myCompress_bitwise_double_np small empty_bitbuf" and "pos np \<noteq> 8 \<or> kept (last small) \<noteq> 0"
    and "op = myCompress_bitwise_double_op small empty_bitbuf"
    and "12 + bytes np \<le> length mem" and "12 + bytes op \<le> length mem"
  shows "(\<exists>msg out. MPI_Send_bitwise_double_np buf = Inr msg \<and>
      MPI_Recv_bitwise_double_np mem (length buf) msg = Inr (map (\<lambda>x. fadd x least) out) \<and> length out = length buf \<and>
      (\<forall>i < length small. \<bar>fval (small ! i) - fval (out ! i)\<bar> \<le> 2 powi (- 21))) \<and>
    (\<exists>msg out. MPI_Send_bitwise_double_op buf = Inr msg \<and>
      MPI_Recv_bitwise_double_op mem (length buf) msg = Inr (map (\<lambda>x. fadd x least) out) \<and> length out = length buf \<and>
      (\<forall>i < length small. i < 3 \<or> \<not> predicted small i \<longrightarrow>
         out ! i = (if negligible (small ! i) then fint 0 else small ! i)))"
  using np_codec.received [OF assms(1-3), of mem] op_codec.received [OF assms(1-3), of mem] assms(4-8)
  by (simp add: ends_well_def near_np_def near_op_def MPI_Send_bitwise_double_np_def MPI_Recv_bitwise_double_np_def
      MPI_Send_bitwise_double_op_def MPI_Recv_bitwise_double_op_def)

theorem send_recv_np_op_delivers_witness:
  "\<exists>msg out. MPI_Send_bitwise_double_op [0x3FF0000000000000, 0x4004000000000000] = Inr msg \<and>
    MPI_Recv_bitwise_double_op (replicate 24 0) (length [0x3FF0000000000000, 0x4004000000000000 :: 64 word]) msg =
      Inr (map (\<lambda>x. fadd x 0x3FF0000000000000) out) \<and> out ! 1 = 0x3FF8000000000000"
proof -
  let ?buf = "[0x3FF0000000000000, 0x4004000000000000 :: 64 word]" and ?small = "[0, 0x3FF8000000000000 :: 64 word]"
  have a: "toSmallDataset_double ?buf = Inr (0x3FF0000000000000, ?small)"
    "\<forall>x \<in> set ?buf. is_fin x \<and> \<not> (fsign x \<and> is_zero x)" by code_simp+
  have "kept (last ?small) \<noteq> 0" by code_simp
  then have k: "pos (myCompress_bitwise_double_np ?small empty_bitbuf) \<noteq> 8 \<or> kept (last ?small) \<noteq> 0" ..
  have "bytes (myCompress_bitwise_double_np ?small empty_bitbuf) = 6"
    "bytes (myCompress_bitwise_double_op ?small empty_bitbuf) = 9" by code_simp+
  then have b: "12 + bytes (myCompress_bitwise_double_np ?small empty_bitbuf) \<le> length (replicate 24 (0 :: byte))"
    "12 + bytes (myCompress_bitwise_double_op ?small empty_bitbuf) \<le> length (replicate 24 (0 :: byte))" by simp_all
  have n: "\<not> negligible (?small ! 1)" by code_simp
  have "length ?buf < 2 ^ 28" by simp
  from send_recv_np_op_delivers [OF a(1) this a(2) refl k refl b] obtain msg out where
    "MPI_Send_bitwise_double_op ?buf = Inr msg"
    "MPI_Recv_bitwise_double_op (replicate 24 0) (length ?buf) msg = Inr (map (\<lambda>x. fadd x 0x3FF0000000000000) out)"
    and o: "\<forall>i < length ?small. i < 3 \<or> \<not> predicted ?small i \<longrightarrow>
      out ! i = (if negligible (?small ! i) then fint 0 else ?small ! i)" by blast
  moreover have "out ! 1 = 0x3FF8000000000000" using o [THEN spec, of 1] n by simp
  ultimately show ?thesis by blast
qed

text \<open>The \<open>_cn\<close> functions bring the first \<open>len\<close> numbers as the functions without \<open>_cn\<close>
  do, and the others unchanged.\<close>

theorem send_recv_cn_delivers:
  assumes "toSmallDataset_double (take len buf) = Inr (least, small)" and "len < 2 ^ 28" and "len \<le> length buf"
    and "\<forall>x \<in> set (take len buf). is_fin x \<and> \<not> (fsign x \<and> is_zero x)" and "\<forall>x \<in> set small. is_fin x"
    and "st = myCompress_bitwise_double small empty_bitbuf" and "pos st \<noteq> 8 \<or> kept (last small) \<noteq> 0"
    and "np = myCompress_bitwise_double_np small empty_bitbuf" and "pos np \<noteq> 8 \<or> kept (last small) \<noteq> 0"
    and "op = myCompress_bitwise_double_op small empty_bitbuf"
    and "12 + bytes st \<le> length mem" and "12 + bytes np \<le> length mem" and "12 + bytes op \<le> length mem"
  shows "(\<exists>msgs out. MPI_Send_bitwise_double_cn buf len = Inr msgs \<and>
      MPI_Recv_bitwise_double_cn mem len msgs = Inr (map (\<lambda>x. fadd x least) out @ drop len buf) \<and> length out = len \<and>
      (\<forall>i < length small. i < 3 \<or> \<not> predicted small i \<longrightarrow>
         \<bar>fval (small ! i) - fval (out ! i)\<bar> \<le> fval absErrorBound)) \<and>
    (\<exists>msgs out. MPI_Send_bitwise_double_np_cn buf len = Inr msgs \<and>
      MPI_Recv_bitwise_double_np_cn mem len msgs = Inr (map (\<lambda>x. fadd x least) out @ drop len buf) \<and> length out = len \<and>
      (\<forall>i < length small. \<bar>fval (small ! i) - fval (out ! i)\<bar> \<le> 2 powi (- 21))) \<and>
    (\<exists>msgs out. MPI_Send_bitwise_double_op_cn buf len = Inr msgs \<and>
      MPI_Recv_bitwise_double_op_cn mem len msgs = Inr (map (\<lambda>x. fadd x least) out @ drop len buf) \<and> length out = len \<and>
      (\<forall>i < length small. i < 3 \<or> \<not> predicted small i \<longrightarrow>
         out ! i = (if negligible (small ! i) then fint 0 else small ! i)))"
proof (intro conjI)
  show "\<exists>msgs out. MPI_Send_bitwise_double_cn buf len = Inr msgs \<and>
      MPI_Recv_bitwise_double_cn mem len msgs = Inr (map (\<lambda>x. fadd x least) out @ drop len buf) \<and> length out = len \<and>
      (\<forall>i < length small. i < 3 \<or> \<not> predicted small i \<longrightarrow>
         \<bar>fval (small ! i) - fval (out ! i)\<bar> \<le> fval absErrorBound)"
    using pred_codec.received_cn [OF assms(1-4), of mem] assms(5-7,11)
    by (simp add: complete_pred_def ends_well_def near_pred_def MPI_Send_bitwise_double_cn_def MPI_Recv_bitwise_double_cn_def)
  show "\<exists>msgs out. MPI_Send_bitwise_double_np_cn buf len = Inr msgs \<and>
      MPI_Recv_bitwise_double_np_cn mem len msgs = Inr (map (\<lambda>x. fadd x least) out @ drop len buf) \<and> length out = len \<and>
      (\<forall>i < length small. \<bar>fval (small ! i) - fval (out ! i)\<bar> \<le> 2 powi (- 21))"
    using np_codec.received_cn [OF assms(1-4), of mem] assms(8,9,12)
    by (simp add: ends_well_def near_np_def MPI_Send_bitwise_double_np_cn_def MPI_Recv_bitwise_double_np_cn_def)
  show "\<exists>msgs out. MPI_Send_bitwise_double_op_cn buf len = Inr msgs \<and>
      MPI_Recv_bitwise_double_op_cn mem len msgs = Inr (map (\<lambda>x. fadd x least) out @ drop len buf) \<and> length out = len \<and>
      (\<forall>i < length small. i < 3 \<or> \<not> predicted small i \<longrightarrow>
         out ! i = (if negligible (small ! i) then fint 0 else small ! i))"
    using op_codec.received_cn [OF assms(1-4), of mem] assms(10,13)
    by (simp add: near_op_def MPI_Send_bitwise_double_op_cn_def MPI_Recv_bitwise_double_op_cn_def)
qed

theorem send_recv_cn_delivers_witness:
  "\<exists>msgs out. MPI_Send_bitwise_double_cn [0x3FF0000000000000, 0x4004000000000000, 7] 2 = Inr msgs \<and>
    MPI_Recv_bitwise_double_cn (replicate 24 0) 2 msgs = Inr (map (\<lambda>x. fadd x 0x3FF0000000000000) out @ [7])"
proof -
  let ?buf = "[0x3FF0000000000000, 0x4004000000000000, 7 :: 64 word]" and ?small = "[0, 0x3FF8000000000000 :: 64 word]"
  have a: "toSmallDataset_double (take 2 ?buf) = Inr (0x3FF0000000000000, ?small)"
    "\<forall>x \<in> set (take 2 ?buf). is_fin x \<and> \<not> (fsign x \<and> is_zero x)" "\<forall>x \<in> set ?small. is_fin x"
    "kept (last ?small) \<noteq> 0" by code_simp+
  have k: "pos st \<noteq> 8 \<or> kept (last ?small) \<noteq> 0" for st :: bitbuf using a(4) ..
  have "bytes (myCompress_bitwise_double ?small empty_bitbuf) = 5"
    "bytes (myCompress_bitwise_double_np ?small empty_bitbuf) = 6"
    "bytes (myCompress_bitwise_double_op ?small empty_bitbuf) = 9" by code_simp+
  then have b: "12 + bytes (myCompress_bitwise_double ?small empty_bitbuf) \<le> length (replicate 24 (0 :: byte))"
    "12 + bytes (myCompress_bitwise_double_np ?small empty_bitbuf) \<le> length (replicate 24 (0 :: byte))"
    "12 + bytes (myCompress_bitwise_double_op ?small empty_bitbuf) \<le> length (replicate 24 (0 :: byte))" by simp_all
  have "(2 :: nat) < 2 ^ 28" "2 \<le> length ?buf" by simp_all
  from send_recv_cn_delivers [OF a(1) this a(2,3) refl k refl k refl b, THEN conjunct1] show ?thesis by auto
qed

text \<open>C8: \<open>MPI_Bcast_bitwise_double\<close> never writes past its message array, which has room for any
  compressed data, and ends on every rank, for finite data without a negative zero whose last number
  is not lost (it has mantissa bits or does not end a byte): the root keeps its numbers, all other ranks get
  the least number added to the same decoded differences, of which the first three and those that were not
  predicted are within the error bound.\<close>

theorem bcast_delivers:
  assumes "toSmallDataset_double buf = Inr (least, small)" and "length buf < 2 ^ 28"
    and "\<forall>x \<in> set buf. is_fin x \<and> \<not> (fsign x \<and> is_zero x)" and "\<forall>x \<in> set small. is_fin x"
    and "st = myCompress_bitwise_double small empty_bitbuf" and "pos st \<noteq> 8 \<or> kept (last small) \<noteq> 0"
    and "length aux = 12 + 8 * length buf" and "rt < procs"
    and "length bufs = procs" and "\<forall>rank < procs. length (bufs ! rank) = length buf" and "bufs ! rt = buf"
  shows "\<exists>new out. MPI_Bcast_bitwise_double bufs aux (length buf) rt = Inr new \<and> length new = procs \<and> new ! rt = buf \<and>
    (\<forall>rank < procs. rank \<noteq> rt \<longrightarrow> new ! rank = map (\<lambda>x. fadd x least) out) \<and> length out = length buf \<and>
    (\<forall>i < length small. i < 3 \<or> \<not> predicted small i \<longrightarrow>
       \<bar>fval (small ! i) - fval (out ! i)\<bar> \<le> fval absErrorBound)"
proof -
  have "complete_pred small" using assms(4-6) by (simp add: complete_pred_def ends_well_def)
  moreover have "take (length buf) (bufs ! rt) = buf" using assms(11) by simp
  ultimately obtain out where "MPI_Bcast_bitwise_double bufs aux (length buf) rt =
      Inr (map (\<lambda>rank. if rank = rt then bufs ! rank
        else map (\<lambda>x. fadd x least) out @ drop (length buf) (bufs ! rank)) [0..<procs])"
    "length out = length buf" "near_pred small out"
    using bcast_ranks [OF assms(1-3) _ assms(7)] assms(9) by blast
  then show ?thesis using assms(8,10,11)
    by (intro exI [of _ "map (\<lambda>rank. if rank = rt then bufs ! rank
        else map (\<lambda>x. fadd x least) out @ drop (length buf) (bufs ! rank)) [0..<procs]"] exI [of _ out])
      (simp add: near_pred_def)
qed

theorem bcast_delivers_witness:
  "\<exists>new out. MPI_Bcast_bitwise_double
      [[0x3FF0000000000000, 0x4004000000000000], [0, 0]] (replicate 28 0)
      (length [0x3FF0000000000000, 0x4004000000000000 :: 64 word]) 0 = Inr new \<and>
    new ! 1 = map (\<lambda>x. fadd x 0x3FF0000000000000) out"
proof -
  let ?buf = "[0x3FF0000000000000, 0x4004000000000000 :: 64 word]" and ?small = "[0, 0x3FF8000000000000 :: 64 word]"
  have a: "toSmallDataset_double ?buf = Inr (0x3FF0000000000000, ?small)"
    "\<forall>x \<in> set ?buf. is_fin x \<and> \<not> (fsign x \<and> is_zero x)" "\<forall>x \<in> set ?small. is_fin x"
    "kept (last ?small) \<noteq> 0" by code_simp+
  have k: "pos st \<noteq> 8 \<or> kept (last ?small) \<noteq> 0" for st :: bitbuf using a(4) ..
  have "length ?buf < 2 ^ 28" "length (replicate 28 (0 :: byte)) = 12 + 8 * length ?buf" "(0 :: nat) < 2"
    "length [?buf, [0, 0]] = 2" "\<forall>rank < 2. length ([?buf, [0, 0]] ! rank) = length ?buf" "[?buf, [0, 0]] ! 0 = ?buf"
    by (simp_all add: less_2_cases_iff)
  from bcast_delivers [OF a(1) this(1) a(2,3) refl k this(2-6)] show ?thesis by (auto simp: less_2_cases_iff)
qed

text \<open>\<open>MPI_Recv_bitwise_double\<close> and its forms receive the message, which has 12 bytes more than
  the compressed data, into the array of the numbers: numbers that do not compress by 12
  bytes, a single number for example, are received past the end of it.\<close>

theorem recv_overflows:
  assumes "toSmallDataset_double buf = Inr (least, small)" and "length mem = 8 * length buf"
    and "8 * length buf < 12 + bytes (myCompress_bitwise_double small empty_bitbuf)"
    and "MPI_Send_bitwise_double buf = Inr msg"
    and "MPI_Send_bitwise_double [x] = Inr one" and "MPI_Send_bitwise_double_np [x] = Inr one_np"
    and "MPI_Send_bitwise_double_op [x] = Inr one_op" and "length cell = 8"
  shows "MPI_Recv_bitwise_double mem (length buf) msg = Inl OutOfBounds \<and>
    MPI_Recv_bitwise_double cell 1 one = Inl OutOfBounds \<and>
    MPI_Recv_bitwise_double_np cell 1 one_np = Inl OutOfBounds \<and>
    MPI_Recv_bitwise_double_op cell 1 one_op = Inl OutOfBounds"
  using pred_codec.receive_overflows [OF assms(1), of msg mem]
    pred_codec.receive_overflows [OF small_single, of x one cell]
    np_codec.receive_overflows [OF small_single, of x one_np cell]
    op_codec.receive_overflows [OF small_single, of x one_op cell] assms(2-8)
  by (simp add: MPI_Send_bitwise_double_def MPI_Recv_bitwise_double_def MPI_Send_bitwise_double_np_def
      MPI_Recv_bitwise_double_np_def MPI_Send_bitwise_double_op_def MPI_Recv_bitwise_double_op_def)

theorem recv_overflows_witness:
  "\<exists>msg. MPI_Send_bitwise_double [7] = Inr msg \<and> MPI_Recv_bitwise_double (replicate 8 0) (length [7 :: 64 word]) msg = Inl OutOfBounds"
proof -
  let ?st = "myCompress_bitwise_double [fsub 7 7] empty_bitbuf"
  have s: "send_bitwise c [7] = Inr (pack_message 7 (c [fsub 7 7] empty_bitbuf))" for c
    by (simp add: send_bitwise_def small_single)
  have len: "length (replicate 8 (0 :: byte)) = 8 * length [7 :: 64 word]" "length (replicate 8 (0 :: byte)) = 8"
    "8 * length [7 :: 64 word] < 12 + bytes ?st" by simp_all
  from recv_overflows [OF small_single len(1,3)
      s [of myCompress_bitwise_double, folded MPI_Send_bitwise_double_def]
      s [of myCompress_bitwise_double, folded MPI_Send_bitwise_double_def]
      s [of myCompress_bitwise_double_np, folded MPI_Send_bitwise_double_np_def]
      s [of myCompress_bitwise_double_op, folded MPI_Send_bitwise_double_op_def] len(2)]
  show ?thesis using s by (simp add: MPI_Send_bitwise_double_def)
qed

text \<open>A negative zero among the numbers passes \<open>toSmallDataset\<close> with its sign, and
  \<open>MPI_Recv_bitwise_double_np\<close> ends the program; without numbers every sender reads the
  first one all the same.\<close>

theorem np_negative_zero:
  "res_bind (MPI_Send_bitwise_double_np [0, 0x8000000000000000])
     (MPI_Recv_bitwise_double_np (replicate 16 0) 2) = Inl ExitFailure \<and>
   MPI_Send_bitwise_double [] = Inl OutOfBounds \<and> MPI_Send_bitwise_double_np [] = Inl OutOfBounds \<and>
   MPI_Send_bitwise_double_op [] = Inl OutOfBounds"
  by (intro conjI; code_simp)

end
