(* ===== verification/CompBcast.thy ===== *)
theory CompBcast
  imports
  CompComm
begin

text \<open>
  The compressed broadcasts of \<open>app/src/dataCompression.c\<close> that check the data:
  \<open>MPI_Bcast_bitwise_crc\<close>, \<open>MPI_Bcast_bitwise_mask_crc\<close> and
  \<open>MPI_Bcast_bitwise_crc_hamming\<close>.  The root compresses its numbers; every rank checks a CRC
  of the bytes it received, or repairs them with Hamming codes, and asks for them again if
  that fails; then every rank decompresses, the root to add up the error.  What the network
  delivers, \<open>crc32\<close> and the values of \<open>rand()\<close> are parameters; the number of bytes, the least
  number, \<open>medium\<close> and \<open>type\<close> are taken to arrive.
\<close>

section \<open>The code\<close>

text \<open>\<open>BER\<close> of \<open>dataCompression.h\<close>, and \<open>1/ber\<close> as an integer.\<close>

definition BER :: "64 word" where
  "BER = 0x3EB0C6F7A0B5ED8D"

definition one_error_in :: nat where
  "one_error_in = nat (ftrunc (fdiv (fint 1) BER))"

definition get_random_int :: "nat \<Rightarrow> nat \<Rightarrow> nat \<Rightarrow> nat" where
  "get_random_int low high rnd = rnd mod (high - low + 1) + low"

text \<open>The CRC test, in which \<open>rand()\<close> simulates an error.\<close>

definition simulated_error :: "nat \<Rightarrow> nat \<Rightarrow> bool" where
  "simulated_error rnd data_bytes \<longleftrightarrow>
     flt (fint 0) BER \<and> get_random_int 0 one_error_in rnd < data_bytes * 8"

definition crc_passes :: "crc32_fun \<Rightarrow> nat \<Rightarrow> 32 word \<Rightarrow> byte list \<Rightarrow> bool" where
  "crc_passes crc32 rnd crc data \<longleftrightarrow>
     crc = (if simulated_error rnd (length data) then 0 else do_crc32 crc32 data (length data))"

definition crc_outcome ::
  "crc32_fun \<Rightarrow> transport \<Rightarrow> (nat \<Rightarrow> nat) \<Rightarrow> byte list \<Rightarrow> nat \<Rightarrow> nat \<Rightarrow> bool \<times> byte list" where
  "crc_outcome crc32 tx rnd data rt rank =
     (if rank = rt then (True, data)
      else let crc = do_crc32 crc32 data (length data); recv = tx_data tx rank data
           in (crc_passes crc32 (rnd rank) (tx_crc tx rank crc) recv, recv))"

text \<open>The three numbers the caller passes by reference.\<close>

record counters =
  compress_ratio :: "32 word"
  gosa :: "64 word"
  resend :: nat

definition add_ratio :: "nat \<Rightarrow> nat \<Rightarrow> counters \<Rightarrow> counters" where
  "add_ratio data_bytes count cs =
     cs\<lparr>compress_ratio := fconv (fadd (fconv (compress_ratio cs))
          (fdiv (fmul (fint (int data_bytes)) (fint 8)) (fint (int (count * 8 * 8))) :: 64 word))\<rparr>"

definition add_error :: "64 word list \<Rightarrow> 64 word \<Rightarrow> 64 word list \<Rightarrow> 64 word \<Rightarrow> nat \<Rightarrow> 64 word" where
  "add_error nums least buffer gs i = fadd gs (ffabs (fsub (fadd (nums ! i) least) (buffer ! i)))"

text \<open>What every rank does with the compressed bytes it ends with.\<close>

definition finish ::
  "(byte list \<Rightarrow> nat \<Rightarrow> 64 word list result) \<Rightarrow> 64 word \<Rightarrow> nat \<Rightarrow> bool \<Rightarrow> byte list \<Rightarrow>
   64 word list \<times> counters \<Rightarrow> (64 word list \<times> counters) result" where
  "finish decompress least count is_root packed s =
     (case s of (buffer, cs) \<Rightarrow>
       res_bind (decompress packed count) (\<lambda>nums. res_bind (add_least least count nums) (\<lambda>new.
         let gs = (if is_root then foldl (add_error nums least buffer) (fint 0) [0..<count] else fint 0)
         in Inr (if is_root then buffer else new @ drop count buffer,
                 cs\<lparr>gosa := fadd (gosa cs) (fdiv gs (fint (int count)))\<rparr>))))"

definition checked_bcast ::
  "(byte list \<Rightarrow> nat \<Rightarrow> 64 word list result) \<Rightarrow> transport \<Rightarrow> (nat \<Rightarrow> bool \<times> byte list) \<Rightarrow>
   64 word \<times> byte list \<Rightarrow> (64 word list \<times> counters) list \<Rightarrow> nat \<Rightarrow> nat \<Rightarrow>
   (64 word list \<times> counters) list result" where
  "checked_bcast decompress tx outcome root_data states count rt =
     (case root_data of (least, data) \<Rightarrow>
       let sends = resend_list (map (\<lambda>i. fst (outcome i)) [0..<length states]) rt (length states)
       in res_fold (\<lambda>out rank.
            case states ! rank of (buffer, cs) \<Rightarrow>
            let cs = add_ratio (length data) count cs;
                cs = (if rank = rt then cs\<lparr>resend := resend cs + length sends\<rparr> else cs)
            in res_bind (receive_again tx sends data rt rank (outcome rank)) (\<lambda>packed.
                 res_bind (finish decompress least count (rank = rt) packed (buffer, cs)) (\<lambda>s.
                   Inr (out @ [s]))))
          [] [0..<length states])"

definition compress_root ::
  "(64 word list \<Rightarrow> bitbuf \<Rightarrow> bitbuf) \<Rightarrow> 64 word \<times> 64 word list \<Rightarrow> 64 word \<times> byte list" where
  "compress_root compress s = (case s of (least, small) \<Rightarrow> (least, data_bits (compress small empty_bitbuf)))"

definition MPI_Bcast_bitwise_crc ::
  "crc32_fun \<Rightarrow> transport \<Rightarrow> (nat \<Rightarrow> nat) \<Rightarrow> (64 word list \<times> counters) list \<Rightarrow> nat \<Rightarrow> nat \<Rightarrow>
   (64 word list \<times> counters) list result" where
  "MPI_Bcast_bitwise_crc crc32 tx rnd states count rt =
     res_bind (toSmallDataset_double (take count (fst (states ! rt)))) (\<lambda>s.
       let root_data = compress_root myCompress_bitwise_double s
       in checked_bcast myDecompress_bitwise_double tx
            (crc_outcome crc32 tx rnd (snd root_data) rt) root_data states count rt)"

definition mask_of :: "64 word \<Rightarrow> bool list" where
  "mask_of medium = take (1 + 11 + 8) (doubletostr medium)"

definition MPI_Bcast_bitwise_mask_crc ::
  "crc32_fun \<Rightarrow> transport \<Rightarrow> (nat \<Rightarrow> nat) \<Rightarrow> (64 word list \<times> counters) list \<Rightarrow> nat \<Rightarrow> nat \<Rightarrow>
   (64 word list \<times> counters) list result" where
  "MPI_Bcast_bitwise_mask_crc crc32 tx rnd states count rt =
     res_bind (toSmallDataset_double (take count (fst (states ! rt)))) (\<lambda>s.
     res_bind (med_dataset_double (snd s) 0) (\<lambda>(medium, type).
       let root_data = compress_root (\<lambda>small. myCompress_bitwise_double_mask small type (mask_of medium)) s
       in checked_bcast (\<lambda>packed num. myDecompress_bitwise_double_mask packed num type (mask_of medium)) tx
            (crc_outcome crc32 tx rnd (snd root_data) rt) root_data states count rt))"

text \<open>The bit errors \<open>MPI_Bcast_bitwise_crc_hamming\<close> adds to the received data.\<close>

definition flip_errors :: "(nat \<Rightarrow> nat) \<Rightarrow> byte list \<Rightarrow> byte list" where
  "flip_errors rnd data =
     (if flt (fint 0) BER
      then foldl (\<lambda>data n. bit_flip (rnd n) data (length data)) data [0..<length data * 8 div one_error_in]
      else data)"

definition flipped :: "transport \<Rightarrow> (nat \<Rightarrow> nat \<Rightarrow> nat) \<Rightarrow> transport" where
  "flipped tx rnd = tx\<lparr>tx_data := (\<lambda>rank data. flip_errors (rnd rank) (tx_data tx rank data))\<rparr>"

definition MPI_Bcast_bitwise_crc_hamming ::
  "crc32_fun \<Rightarrow> transport \<Rightarrow> (nat \<Rightarrow> nat \<Rightarrow> nat) \<Rightarrow> (64 word list \<times> counters) list \<Rightarrow> nat \<Rightarrow> nat \<Rightarrow>
   (64 word list \<times> counters) list result" where
  "MPI_Bcast_bitwise_crc_hamming crc32 tx rnd states count rt =
     res_bind (toSmallDataset_double (take count (fst (states ! rt)))) (\<lambda>s.
       let root_data = compress_root myCompress_bitwise_double s;
           bs = block_size_at BER (length (snd root_data))
       in if bs = 0 then Inl DivByZero
          else res_bind (share_sizes tx (map snd (encode_blocks bs (snd root_data))) rt (length states)) (\<lambda>_.
                 checked_bcast myDecompress_bitwise_double tx
                   (abft_check crc32 (flipped tx rnd) bs (snd root_data) rt) root_data states count rt))"

section \<open>What every rank ends with\<close>

definition counted :: "nat \<Rightarrow> nat \<Rightarrow> nat \<Rightarrow> bool \<Rightarrow> counters \<Rightarrow> counters" where
  "counted data_bytes count again is_root cs =
     (let cs = add_ratio data_bytes count cs in if is_root then cs\<lparr>resend := resend cs + again\<rparr> else cs)"

definition finished ::
  "64 word \<Rightarrow> nat \<Rightarrow> bool \<Rightarrow> 64 word list \<Rightarrow> 64 word list \<Rightarrow> counters \<Rightarrow> 64 word list \<times> counters" where
  "finished least count is_root nums buffer cs =
     (if is_root then buffer else map (\<lambda>x. fadd x least) nums @ drop count buffer,
      cs\<lparr>gosa := fadd (gosa cs) (fdiv (if is_root then foldl (add_error nums least buffer) (fint 0) [0..<count]
        else fint 0) (fint (int count)))\<rparr>)"

lemma finish_ok:
  "decompress packed count = Inr nums \<Longrightarrow> length nums = count \<Longrightarrow>
     finish decompress least count is_root packed (buffer, cs) = Inr (finished least count is_root nums buffer cs)"
  by (simp add: finish_def finished_def add_least_def)

definition failed :: "(nat \<Rightarrow> bool \<times> byte list) \<Rightarrow> nat \<Rightarrow> nat \<Rightarrow> nat set" where
  "failed outcome rt procs = {rank. rank < procs \<and> rank \<noteq> rt \<and> \<not> fst (outcome rank)}"

lemma length_resend_list:
  "length (resend_list (map (\<lambda>i. fst (outcome i)) [0..<procs]) rt procs) = card (failed outcome rt procs)"
proof -
  have "set (resend_list (map (\<lambda>i. fst (outcome i)) [0..<procs]) rt procs) = failed outcome rt procs"
    by (auto simp: resend_list_def failed_def)
  moreover have "distinct (resend_list (map (\<lambda>i. fst (outcome i)) [0..<procs]) rt procs)"
    by (simp add: resend_list_def)
  ultimately show ?thesis by (metis distinct_card)
qed

text \<open>If a rank that is content has the root's bytes, all ranks decompress them.\<close>

lemma checked_bcast_delivers:
  assumes "\<And>rank. rank < length states \<Longrightarrow> fst (outcome rank) \<Longrightarrow> snd (outcome rank) = data"
    and "\<And>rank. rank < length states \<Longrightarrow> \<not> fst (outcome rank) \<Longrightarrow> rank \<noteq> rt \<and> tx_resend tx rank data = data"
    and "decompress data count = Inr nums" and "length nums = count"
  shows "checked_bcast decompress tx outcome (least, data) states count rt =
    Inr (map (\<lambda>rank. finished least count (rank = rt) nums (fst (states ! rank))
        (counted (length data) count (card (failed outcome rt (length states))) (rank = rt) (snd (states ! rank))))
      [0..<length states])"
  unfolding checked_bcast_def prod.case Let_def
proof (subst res_fold_collect)
  fix out rank
  assume "rank \<in> set [0..<length states]"
  then have r: "rank < length states" by simp
  let ?sends = "resend_list (map (\<lambda>i. fst (outcome i)) [0..<length states]) rt (length states)"
  have "receive_again tx ?sends data rt rank (outcome rank) = Inr data"
    using assms(1,2) [OF r] resend_matches [OF r, of rt outcome] by (auto simp: receive_again_def)
  then show "(case states ! rank of (buffer, cs) \<Rightarrow>
      res_bind (receive_again tx ?sends data rt rank (outcome rank)) (\<lambda>packed.
        res_bind (finish decompress least count (rank = rt) packed
            (buffer, if rank = rt then add_ratio (length data) count cs\<lparr>resend := resend (add_ratio (length data) count cs) + length ?sends\<rparr>
              else add_ratio (length data) count cs))
          (\<lambda>s. Inr (out @ [s])))) =
    Inr (out @ [finished least count (rank = rt) nums (fst (states ! rank))
        (counted (length data) count (card (failed outcome rt (length states))) (rank = rt) (snd (states ! rank)))])"
    using assms(3,4) by (cases "states ! rank") (simp add: finish_ok counted_def length_resend_list Let_def)
qed simp

section \<open>No rank waits for ever\<close>

lemma res_fold_fault: "res_fold f s xs = Inl e \<Longrightarrow> \<exists>s x. x \<in> set xs \<and> f s x = Inl e"
proof (induction xs arbitrary: s)
  case (Cons x xs)
  show ?case
  proof (cases "f s x")
    case (Inr s')
    then show ?thesis using Cons by auto (metis list.set_intros(2))
  qed (use Cons.prems in auto)
qed simp

lemma res_bind_fault: "res_bind r f = Inl e \<Longrightarrow> r = Inl e \<or> (\<exists>a. r = Inr a \<and> f a = Inl e)"
  by (cases r) auto

lemma store_fault:
  "store decompress_bitwise remember num st \<noteq> Inl Deadlock"
  "store (decompress_bitwise_mask type msk) remember num st' \<noteq> Inl Deadlock"
  by (auto simp: store_def decompress_bitwise_def decompress_bitwise_mask_def patch_def
      dest!: res_bind_fault split: if_splits)

lemma decoder_fault: "myDecompress_bitwise_double packed num \<noteq> Inl Deadlock"
proof
  assume "myDecompress_bitwise_double packed num = Inl Deadlock"
  then obtain st b where "decode_step (start_pred (1 + 11)) decompress_bitwise push_value num
      (st :: (64 word, 64 word before) decoder) b = Inl Deadlock"
    by (auto simp: pred_functions run_decoder_def dest!: res_bind_fault res_fold_fault)
  then show False
    by (auto simp: store_fault decode_step_def start_pred_def Let_def dest!: res_bind_fault split: if_splits)
qed

lemma mask_decoder_fault: "myDecompress_bitwise_double_mask packed num type msk \<noteq> Inl Deadlock"
proof
  assume "myDecompress_bitwise_double_mask packed num type msk = Inl Deadlock"
  then obtain st b where "mask_step (decompress_bitwise_mask type msk) type msk num
      (st :: (64 word, 64 word before) mask_decoder) b = Inl Deadlock"
    by (auto simp: mask_functions run_mask_decoder_def dest!: res_bind_fault res_fold_fault)
  then show False
    by (auto simp: store_fault mask_step_def mask_field_def Let_def dest!: res_bind_fault split: if_splits)
qed

lemma checked_bcast_fault:
  assumes "\<And>packed num. decompress packed num \<noteq> Inl Deadlock"
  shows "checked_bcast decompress tx outcome root_data states count rt \<noteq> Inl Deadlock"
proof
  assume "checked_bcast decompress tx outcome root_data states count rt = Inl Deadlock"
  moreover obtain least data where "root_data = (least, data)" by (cases root_data)
  ultimately obtain rank where r: "rank < length states" and
    "receive_again tx (resend_list (map (\<lambda>i. fst (outcome i)) [0..<length states]) rt (length states)) data rt rank
        (outcome rank) = Inl Deadlock \<or>
     (\<exists>packed s. finish decompress least count (rank = rt) packed s = Inl Deadlock)"
    by (auto simp: checked_bcast_def Let_def dest!: res_fold_fault res_bind_fault split: prod.splits)
      blast+
  moreover have "finish decompress least count (rank = rt) packed s \<noteq> Inl Deadlock" for packed s
    using assms by (auto simp: finish_def add_least_def Let_def dest!: res_bind_fault split: prod.splits if_splits)
  ultimately show False
    using resend_matches [OF r, of rt outcome] by (auto simp: receive_again_def split: if_splits)
qed

section \<open>The network of the CRC broadcasts\<close>

lemma mask_of_tostr: "mask_of medium = take 20 (tostr medium)"
  by (simp add: mask_of_def doubletostr_eq)

lemma crc_data:
  assumes "\<forall>rank < procs. rank \<noteq> rt \<longrightarrow>
      tx_crc tx rank (do_crc32 crc32 data (length data)) = do_crc32 crc32 data (length data) \<and>
      tx_resend tx rank data = data \<and> crc_detects crc32 tx data rank"
    and "do_crc32 crc32 data (length data) \<noteq> 0" and "rank < procs"
  shows "fst (crc_outcome crc32 tx rnd data rt rank) \<Longrightarrow> snd (crc_outcome crc32 tx rnd data rt rank) = data"
    and "\<not> fst (crc_outcome crc32 tx rnd data rt rank) \<Longrightarrow> rank \<noteq> rt \<and> tx_resend tx rank data = data"
  using assms
  by (auto simp: crc_outcome_def crc_passes_def crc_detects_def Let_def split: if_splits)

lemma failed_crc:
  assumes "\<forall>rank < procs. rank \<noteq> rt \<longrightarrow>
      tx_crc tx rank (do_crc32 crc32 data (length data)) = do_crc32 crc32 data (length data) \<and>
      tx_resend tx rank data = data \<and> crc_detects crc32 tx data rank"
  shows "failed (crc_outcome crc32 tx rnd data rt) rt procs =
    {rank. rank < procs \<and> rank \<noteq> rt \<and>
       \<not> crc_passes crc32 (rnd rank) (do_crc32 crc32 data (length data)) (tx_data tx rank data)}"
  using assms by (auto simp: failed_def crc_outcome_def Let_def)

lemma all_finished:
  assumes "\<And>rank. rank < length states \<Longrightarrow> fst (outcome rank) \<Longrightarrow> snd (outcome rank) = data"
    and "\<And>rank. rank < length states \<Longrightarrow> \<not> fst (outcome rank) \<Longrightarrow> rank \<noteq> rt \<and> tx_resend tx rank data = data"
    and "decompress data count = Inr nums" and "length nums = count"
    and "rt < length states" and "\<forall>rank < length states. length (fst (states ! rank)) = count"
  shows "\<exists>new. checked_bcast decompress tx outcome (least, data) states count rt = Inr new \<and>
    length new = length states \<and> fst (new ! rt) = fst (states ! rt) \<and>
    (\<forall>rank < length states. rank \<noteq> rt \<longrightarrow> fst (new ! rank) = map (\<lambda>x. fadd x least) nums) \<and>
    resend (snd (new ! rt)) = resend (snd (states ! rt)) + card (failed outcome rt (length states))"
proof -
  have "checked_bcast decompress tx outcome (least, data) states count rt =
    Inr (map (\<lambda>rank. finished least count (rank = rt) nums (fst (states ! rank))
        (counted (length data) count (card (failed outcome rt (length states))) (rank = rt) (snd (states ! rank))))
      [0..<length states])"
    using assms(1-4) by (intro checked_bcast_delivers) blast+
  then show ?thesis using assms(5,6) by (simp add: finished_def counted_def add_ratio_def Let_def)
qed

lemma one_error_in_value: "one_error_in = 1000000"
proof -
  have "ftrunc (fdiv (fint 1) BER) = 1000000" by code_simp
  then show ?thesis by (simp add: one_error_in_def)
qed

lemma BER_blocks: "block_size_at BER n = min n 125000"
proof -
  have "ftrunc (fdiv (fint 1) BER) = 1000000" by code_simp
  then show ?thesis by (simp add: block_size_at_def)
qed

lemma compressed_nonempty:
  assumes "small \<noteq> []"
  shows "0 < bytes (myCompress_bitwise_double small empty_bitbuf)"
proof -
  obtain x xs where small: "small = x # xs" using assms by (cases small) auto
  have "token_after code_bits h x \<noteq> []" for h
  proof -
    obtain b c where "snd (best_prediction h x) = [True, b, c]" using best_prediction_code by blast
    moreover have "code_bits x \<noteq> []" using double.length_code_bits [of x] by auto
    ultimately show ?thesis by (simp add: token_after_def)
  qed
  then have "concat (tokens_from code_bits no_values small) \<noteq> []" by (simp add: small)
  moreover have "bitbuf_ok (myCompress_bitwise_double small empty_bitbuf)"
    "written (myCompress_bitwise_double small empty_bitbuf) = concat (tokens_from code_bits no_values small)"
    using truncated_double.myCompress_pred_written [of small] by (simp_all add: pred_functions)
  ultimately have "0 < length (written (myCompress_bitwise_double small empty_bitbuf))" by simp
  then have "1 \<le> (length (written (myCompress_bitwise_double small empty_bitbuf)) + 7) div 8" by linarith
  then show ?thesis using bytes_written [OF \<open>bitbuf_ok (myCompress_bitwise_double small empty_bitbuf)\<close>] by simp
qed

lemma small_nonempty: "toSmallDataset_double buf = Inr (least, small) \<Longrightarrow> small \<noteq> []"
  by (auto simp: toSmallDataset_double_def toSmallDataset_def Let_def split: if_splits)

section \<open>Properties\<close>

text \<open>C3: If the CRC tells altered from sent data and is not 0, and the CRC and the second copy
  arrive intact, \<open>MPI_Bcast_bitwise_crc\<close> brings every other rank the same numbers, for finite data without
  a negative zero whose last number is not lost (it has mantissa bits or does not end a byte): the least
  number added to decoded differences, of which the first three and those that were not predicted are
  within the error bound (the errors of predicted ones add up).  The root keeps its own numbers and
  counts one resend for each rank whose test failed, the simulated failures included.\<close>

theorem crc_bcast_delivers:
  assumes "toSmallDataset_double buf = Inr (least, small)"
    and "\<forall>x \<in> set buf. is_fin x \<and> \<not> (fsign x \<and> is_zero x)" and "\<forall>x \<in> set small. is_fin x"
    and "st = myCompress_bitwise_double small empty_bitbuf" and "pos st \<noteq> 8 \<or> kept (last small) \<noteq> 0"
    and "crc = do_crc32 crc32 (data_bits st) (length (data_bits st))" and "crc \<noteq> 0"
    and "\<forall>rank < length states. rank \<noteq> rt \<longrightarrow> tx_crc tx rank crc = crc \<and>
      tx_resend tx rank (data_bits st) = data_bits st \<and> crc_detects crc32 tx (data_bits st) rank"
    and "rt < length states" and "fst (states ! rt) = buf"
    and "\<forall>rank < length states. length (fst (states ! rank)) = length buf"
  shows "\<exists>new out. MPI_Bcast_bitwise_crc crc32 tx rnd states (length buf) rt = Inr new \<and>
    length new = length states \<and> fst (new ! rt) = buf \<and>
    (\<forall>rank < length states. rank \<noteq> rt \<longrightarrow> fst (new ! rank) = map (\<lambda>x. fadd x least) out) \<and>
    length out = length buf \<and>
    (\<forall>i < length small. i < 3 \<or> \<not> predicted small i \<longrightarrow>
       \<bar>fval (small ! i) - fval (out ! i)\<bar> \<le> fval absErrorBound) \<and>
    resend (snd (new ! rt)) = resend (snd (states ! rt)) + card {rank. rank < length states \<and> rank \<noteq> rt \<and>
      \<not> crc_passes crc32 (rnd rank) crc (tx_data tx rank (data_bits st))}"
proof -
  let ?outcome = "crc_outcome crc32 tx rnd (data_bits st) rt"
  have "\<forall>x \<in> set small. \<not> fsign x" and len: "length small = length buf"
    using double.small_nonneg [of buf least small] assms(1,2) by (simp_all add: toSmallDataset_double_def)
  then obtain out where out: "myDecompress_bitwise_double (data_bits st) (length buf) = Inr out"
      "length out = length buf" "near_pred small out"
    using pred_codec.decompressed [of small] assms(3-5) by (auto simp: complete_pred_def ends_well_def)
  have net: "\<forall>rank < length states. rank \<noteq> rt \<longrightarrow>
      tx_crc tx rank (do_crc32 crc32 (data_bits st) (length (data_bits st))) =
        do_crc32 crc32 (data_bits st) (length (data_bits st)) \<and>
      tx_resend tx rank (data_bits st) = data_bits st \<and> crc_detects crc32 tx (data_bits st) rank"
    using assms(6,8) by simp
  have nz: "do_crc32 crc32 (data_bits st) (length (data_bits st)) \<noteq> 0" using assms(6,7) by simp
  have "MPI_Bcast_bitwise_crc crc32 tx rnd states (length buf) rt =
      checked_bcast myDecompress_bitwise_double tx ?outcome (least, data_bits st) states (length buf) rt"
    using assms(1,4,10) by (simp add: MPI_Bcast_bitwise_crc_def compress_root_def)
  moreover have "\<exists>new. checked_bcast myDecompress_bitwise_double tx ?outcome (least, data_bits st) states (length buf) rt = Inr new \<and>
      length new = length states \<and> fst (new ! rt) = fst (states ! rt) \<and>
      (\<forall>rank < length states. rank \<noteq> rt \<longrightarrow> fst (new ! rank) = map (\<lambda>x. fadd x least) out) \<and>
      resend (snd (new ! rt)) = resend (snd (states ! rt)) + card (failed ?outcome rt (length states))"
    using crc_data [OF net nz] out(1,2) assms(9,11) by (intro all_finished) blast+
  ultimately show ?thesis unfolding failed_crc [OF net] assms(6) [symmetric]
    using out(2,3) assms(10) by (auto simp: near_pred_def)
qed

definition no_counts :: counters where
  "no_counts = \<lparr>compress_ratio = 0, gosa = 0, resend = 0\<rparr>"

theorem crc_bcast_delivers_witness:
  "\<exists>new out. MPI_Bcast_bitwise_crc checksum (altering (\<lambda>d. d[0 := 3])) (\<lambda>_. 0)
      [([0x3FF0000000000000, 0x4004000000000000], no_counts), ([0, 0], no_counts)]
      (length [0x3FF0000000000000, 0x4004000000000000 :: 64 word]) 0 = Inr new \<and>
    fst (new ! 0) = [0x3FF0000000000000, 0x4004000000000000] \<and> fst (new ! 1) = map (\<lambda>x. fadd x 0x3FF0000000000000) out"
proof -
  let ?buf = "[0x3FF0000000000000, 0x4004000000000000 :: 64 word]" and ?small = "[0, 0x3FF8000000000000 :: 64 word]"
  let ?st = "myCompress_bitwise_double ?small empty_bitbuf" and ?tx = "altering (\<lambda>d. d[0 := 3])"
  let ?states = "[(?buf, no_counts), ([0, 0], no_counts)]"
  let ?crc = "do_crc32 checksum (data_bits ?st) (length (data_bits ?st))"
  have a: "toSmallDataset_double ?buf = Inr (0x3FF0000000000000, ?small)"
    "\<forall>x \<in> set ?buf. is_fin x \<and> \<not> (fsign x \<and> is_zero x)" "\<forall>x \<in> set ?small. is_fin x"
    "kept (last ?small) \<noteq> 0" by code_simp+
  then have k: "pos ?st \<noteq> 8 \<or> kept (last ?small) \<noteq> 0" by blast
  have p: "data_bits ?st = [135, 255, 0, 0, 0]" by code_simp
  have c: "do_crc32 checksum [135, 255, 0, 0, 0] (length [135, 255, 0, 0, 0 :: byte]) \<noteq> 0"
    "do_crc32 checksum [3, 255, 0, 0, 0] (length [3, 255, 0, 0, 0 :: byte]) \<noteq>
     do_crc32 checksum [135, 255, 0, 0, 0] (length [135, 255, 0, 0, 0 :: byte])" by code_simp+
  have net: "\<forall>rank < length ?states. rank \<noteq> 0 \<longrightarrow> tx_crc ?tx rank ?crc = ?crc \<and>
      tx_resend ?tx rank (data_bits ?st) = data_bits ?st \<and> crc_detects checksum ?tx (data_bits ?st) rank"
    using c unfolding p by (simp add: altering_def crc_detects_def)
  have nz: "?crc \<noteq> 0" using c(1) unfolding p .
  have s: "0 < length ?states" "fst (?states ! 0) = ?buf"
    "\<forall>rank < length ?states. length (fst (?states ! rank)) = length ?buf" by (simp_all add: All_less_Suc)
  from crc_bcast_delivers [OF a(1-3) refl k refl nz net s] obtain new out where
    "MPI_Bcast_bitwise_crc checksum ?tx (\<lambda>_. 0) ?states (length ?buf) 0 = Inr new" "fst (new ! 0) = ?buf"
    "\<forall>rank < length ?states. rank \<noteq> 0 \<longrightarrow> fst (new ! rank) = map (\<lambda>x. fadd x 0x3FF0000000000000) out" by blast
  then show ?thesis by auto
qed

text \<open>C2: \<open>MPI_Bcast_bitwise_crc_hamming\<close>, with the bit errors it adds itself, brings every other rank
  the same numbers if no block of the compressed data has more than two wrong bits when its
  check runs, the CRC tells altered from sent data, and the CRC, the numbers of check bits
  and the second copy arrive intact, for finite data without a negative zero whose last number is not
  lost (it has mantissa bits or does not end a byte): the least number added to decoded differences, of
  which the first three and those that were not predicted are within the error bound.  The root keeps
  its own numbers and counts one resend for each rank whose check failed.\<close>

theorem hamming_bcast_delivers:
  assumes "toSmallDataset_double buf = Inr (least, small)"
    and "\<forall>x \<in> set buf. is_fin x \<and> \<not> (fsign x \<and> is_zero x)" and "\<forall>x \<in> set small. is_fin x"
    and "st = myCompress_bitwise_double small empty_bitbuf" and "pos st \<noteq> 8 \<or> kept (last small) \<noteq> 0"
    and "bs = block_size_at BER (length (data_bits st))"
    and "\<forall>rank < length states. rank \<noteq> rt \<longrightarrow> intact_control crc32 tx bs (data_bits st) rank \<and>
      few_errors (flipped tx rnd) bs (data_bits st) rank \<and> crc_detects crc32 (flipped tx rnd) (data_bits st) rank"
    and "rt < length states" and "fst (states ! rt) = buf"
    and "\<forall>rank < length states. length (fst (states ! rank)) = length buf"
  shows "\<exists>new out. MPI_Bcast_bitwise_crc_hamming crc32 tx rnd states (length buf) rt = Inr new \<and>
    length new = length states \<and> fst (new ! rt) = buf \<and>
    (\<forall>rank < length states. rank \<noteq> rt \<longrightarrow> fst (new ! rank) = map (\<lambda>x. fadd x least) out) \<and>
    length out = length buf \<and>
    (\<forall>i < length small. i < 3 \<or> \<not> predicted small i \<longrightarrow>
       \<bar>fval (small ! i) - fval (out ! i)\<bar> \<le> fval absErrorBound) \<and>
    resend (snd (new ! rt)) = resend (snd (states ! rt)) + card {rank. rank < length states \<and> rank \<noteq> rt \<and>
      \<not> fst (abft_check crc32 (flipped tx rnd) bs (data_bits st) rt rank)}"
proof -
  let ?data = "data_bits st"
  let ?outcome = "abft_check crc32 (flipped tx rnd) bs ?data rt"
  have "\<forall>x \<in> set small. \<not> fsign x" and len: "length small = length buf"
    using double.small_nonneg [of buf least small] assms(1,2) by (simp_all add: toSmallDataset_double_def)
  then obtain out where out: "myDecompress_bitwise_double ?data (length buf) = Inr out"
      "length out = length buf" "near_pred small out"
    using pred_codec.decompressed [of small] assms(3-5) by (auto simp: complete_pred_def ends_well_def)
  have "length ?data = bytes st" using pred_codec.buffer_ok [of small] assms(4) by (simp add: bitbuf_ok_def)
  then have bs: "0 < bs"
    using compressed_nonempty [OF small_nonempty [OF assms(1)]] assms(4,6) by (simp add: BER_blocks)
  have ctl: "intact_control crc32 (flipped tx rnd) bs ?data rank \<longleftrightarrow> intact_control crc32 tx bs ?data rank" for rank
    by (simp add: intact_control_def flipped_def)
  have ok: "snd (?outcome rank) = ?data" if "rank < length states" "fst (?outcome rank)" for rank
  proof (cases "rank = rt")
    case False
    then show ?thesis using assms(7) that ctl by (intro check_accepts_only_sent [OF bs]) blast+
  qed (simp add: abft_check_def)
  have bad: "rank \<noteq> rt \<and> tx_resend tx rank ?data = ?data" if "rank < length states" "\<not> fst (?outcome rank)" for rank
    using assms(7) that by (auto simp: intact_control_def abft_check_def split: if_splits)
  have "MPI_Bcast_bitwise_crc_hamming crc32 tx rnd states (length buf) rt =
      checked_bcast myDecompress_bitwise_double tx ?outcome (least, ?data) states (length buf) rt"
  proof -
    have "share_sizes tx (map snd (encode_blocks bs ?data)) rt (length states) = Inr ()"
      using assms(7) by (auto simp: share_sizes_def list_all_iff intact_control_def)
    then show ?thesis
      using assms(1,4,6,9) bs by (simp add: MPI_Bcast_bitwise_crc_hamming_def compress_root_def Let_def)
  qed
  moreover have "\<exists>new. checked_bcast myDecompress_bitwise_double tx ?outcome (least, ?data) states (length buf) rt = Inr new \<and>
      length new = length states \<and> fst (new ! rt) = fst (states ! rt) \<and>
      (\<forall>rank < length states. rank \<noteq> rt \<longrightarrow> fst (new ! rank) = map (\<lambda>x. fadd x least) out) \<and>
      resend (snd (new ! rt)) = resend (snd (states ! rt)) + card (failed ?outcome rt (length states))"
    using ok bad out(1,2) assms(8,10) by (intro all_finished) blast+
  ultimately show ?thesis unfolding failed_def
    using out(2,3) assms(9) by (auto simp: near_pred_def)
qed

theorem hamming_bcast_delivers_witness:
  "\<exists>new out. MPI_Bcast_bitwise_crc_hamming checksum (altering (\<lambda>d. d[0 := 3])) (\<lambda>_ _. 0)
      [([0x3FF0000000000000, 0x4004000000000000], no_counts), ([0, 0], no_counts)]
      (length [0x3FF0000000000000, 0x4004000000000000 :: 64 word]) 0 = Inr new \<and>
    fst (new ! 0) = [0x3FF0000000000000, 0x4004000000000000] \<and> fst (new ! 1) = map (\<lambda>x. fadd x 0x3FF0000000000000) out"
proof -
  let ?buf = "[0x3FF0000000000000, 0x4004000000000000 :: 64 word]" and ?small = "[0, 0x3FF8000000000000 :: 64 word]"
  let ?st = "myCompress_bitwise_double ?small empty_bitbuf" and ?tx = "altering (\<lambda>d. d[0 := 3])"
  let ?states = "[(?buf, no_counts), ([0, 0], no_counts)]" and ?rnd = "\<lambda>_ _. 0 :: nat"
  let ?bs = "block_size_at BER (length (data_bits ?st))"
  have a: "toSmallDataset_double ?buf = Inr (0x3FF0000000000000, ?small)"
    "\<forall>x \<in> set ?buf. is_fin x \<and> \<not> (fsign x \<and> is_zero x)" "\<forall>x \<in> set ?small. is_fin x"
    "kept (last ?small) \<noteq> 0" by code_simp+
  then have k: "pos ?st \<noteq> 8 \<or> kept (last ?small) \<noteq> 0" by blast
  have p: "data_bits ?st = [135, 255, 0, 0, 0]" by code_simp
  have c: "do_crc32 checksum [3, 255, 0, 0, 0] (length [3, 255, 0, 0, 0 :: byte]) \<noteq>
     do_crc32 checksum [135, 255, 0, 0, 0] (length [135, 255, 0, 0, 0 :: byte])" by code_simp
  have e: "encode_blocks 5 [135, 255, 0, 0, 0] = [([True, True, False, False, True, False, True], 6)]" by code_simp
  have f: "flip_errors (\<lambda>_. 0) d = d" if "length d = 5" for d
    using that by (simp add: flip_errors_def one_error_in_value)
  have "few_errors (flipped ?tx ?rnd) ?bs (data_bits ?st) 1"
    unfolding p by (simp add: few_errors_def BER_blocks e altering_def flipped_def f block_count_def
        block_def block_bytes_def byte_bits_def upt_rec)
  moreover have "intact_control checksum ?tx ?bs (data_bits ?st) 1" by (simp add: intact_control_def altering_def)
  moreover have "crc_detects checksum (flipped ?tx ?rnd) (data_bits ?st) 1"
    using c unfolding p by (simp add: crc_detects_def flipped_def altering_def f)
  ultimately have net: "\<forall>rank < length ?states. rank \<noteq> 0 \<longrightarrow> intact_control checksum ?tx ?bs (data_bits ?st) rank \<and>
      few_errors (flipped ?tx ?rnd) ?bs (data_bits ?st) rank \<and> crc_detects checksum (flipped ?tx ?rnd) (data_bits ?st) rank"
    by (auto simp: less_Suc_eq)
  have s: "0 < length ?states" "fst (?states ! 0) = ?buf"
    "\<forall>rank < length ?states. length (fst (?states ! rank)) = length ?buf" by (simp_all add: All_less_Suc)
  from hamming_bcast_delivers [OF a(1-3) refl k refl net s] obtain new out where
    "MPI_Bcast_bitwise_crc_hamming checksum ?tx ?rnd ?states (length ?buf) 0 = Inr new" "fst (new ! 0) = ?buf"
    "\<forall>rank < length ?states. rank \<noteq> 0 \<longrightarrow> fst (new ! rank) = map (\<lambda>x. fadd x 0x3FF0000000000000) out" by blast
  then show ?thesis by auto
qed

text \<open>\<open>MPI_Bcast_bitwise_mask_crc\<close> brings every rank the same numbers, as exact as those of
  \<open>MPI_Bcast_bitwise_crc\<close>, if the mean of the differences meets the conditions of the bitmask
  codec; that no number is taken for a prefix follows from the prefix length computed.\<close>

theorem mask_bcast_delivers:
  assumes "toSmallDataset_double buf = Inr (least, small)"
    and "\<forall>x \<in> set buf. is_fin x \<and> \<not> (fsign x \<and> is_zero x)" and "\<forall>x \<in> set small. is_fin x \<and> fexp x < 2 ^ 11 - 2"
    and "med_dataset_double small 0 = Inr (medium, type)" and "mask_fits TYPE(64) type (mask_of medium)"
    and "st = myCompress_bitwise_double_mask small type (mask_of medium) empty_bitbuf"
    and "pos st \<noteq> 8 \<or> kept (last small) \<noteq> 0"
    and "crc = do_crc32 crc32 (data_bits st) (length (data_bits st))" and "crc \<noteq> 0"
    and "\<forall>rank < length states. rank \<noteq> rt \<longrightarrow> tx_crc tx rank crc = crc \<and>
      tx_resend tx rank (data_bits st) = data_bits st \<and> crc_detects crc32 tx (data_bits st) rank"
    and "rt < length states" and "fst (states ! rt) = buf"
    and "\<forall>rank < length states. length (fst (states ! rank)) = length buf"
  shows "\<exists>new out. MPI_Bcast_bitwise_mask_crc crc32 tx rnd states (length buf) rt = Inr new \<and>
    length new = length states \<and> fst (new ! rt) = buf \<and>
    (\<forall>rank < length states. rank \<noteq> rt \<longrightarrow> fst (new ! rank) = map (\<lambda>x. fadd x least) out) \<and>
    length out = length buf \<and>
    (\<forall>i < length small. i < 3 \<or> \<not> predicted small i \<longrightarrow>
       \<bar>fval (small ! i) - fval (out ! i)\<bar> \<le> fval absErrorBound)"
proof -
  let ?outcome = "crc_outcome crc32 tx rnd (data_bits st) rt"
  let ?dec = "\<lambda>packed num. myDecompress_bitwise_double_mask packed num type (mask_of medium)"
  have unsigned: "\<forall>x \<in> set small. \<not> fsign x" and len: "length small = length buf"
    using double.small_nonneg [of buf least small] assms(1,2) by (simp_all add: toSmallDataset_double_def)
  then have "\<forall>x \<in> set small. \<not> all_ones type (tostr x)"
    using double.med_dataset_prefix [of small 0 medium type] assms(3,4) fconv_double
    by (simp add: med_dataset_double_def format_sizes promote_def)
  then have "?dec (data_bits st) (length buf) = Inr (double.readings code_bits small)"
    using double.mask_result [OF assms(5), of small st] masked_double.myCompress_pred_written [of type medium small]
      unsigned assms(6,7) by (simp add: mask_functions double.separable_def mask_of_tostr len)
  moreover have "near_pred small (double.readings code_bits small)"
    using assms(3) not_predicted_start(1) pred_double_error unfolding near_pred_def by blast
  ultimately obtain out where out: "?dec (data_bits st) (length buf) = Inr out"
      "length out = length buf" "near_pred small out" using len by simp
  have net: "\<forall>rank < length states. rank \<noteq> rt \<longrightarrow>
      tx_crc tx rank (do_crc32 crc32 (data_bits st) (length (data_bits st))) =
        do_crc32 crc32 (data_bits st) (length (data_bits st)) \<and>
      tx_resend tx rank (data_bits st) = data_bits st \<and> crc_detects crc32 tx (data_bits st) rank"
    using assms(8,10) by simp
  have nz: "do_crc32 crc32 (data_bits st) (length (data_bits st)) \<noteq> 0" using assms(8,9) by simp
  have "MPI_Bcast_bitwise_mask_crc crc32 tx rnd states (length buf) rt =
      checked_bcast ?dec tx ?outcome (least, data_bits st) states (length buf) rt"
    using assms(1,4,6,12) by (simp add: MPI_Bcast_bitwise_mask_crc_def compress_root_def)
  moreover have "\<exists>new. checked_bcast ?dec tx ?outcome (least, data_bits st) states (length buf) rt = Inr new \<and>
      length new = length states \<and> fst (new ! rt) = fst (states ! rt) \<and>
      (\<forall>rank < length states. rank \<noteq> rt \<longrightarrow> fst (new ! rank) = map (\<lambda>x. fadd x least) out) \<and>
      resend (snd (new ! rt)) = resend (snd (states ! rt)) + card (failed ?outcome rt (length states))"
    using crc_data [OF net nz] out(1,2) assms(11,13) by (intro all_finished) blast+
  ultimately show ?thesis using out(2,3) assms(12) by (auto simp: near_pred_def)
qed

theorem mask_bcast_delivers_witness:
  "\<exists>new out. MPI_Bcast_bitwise_mask_crc checksum (altering (\<lambda>d. d[0 := 3])) (\<lambda>_. 7)
      [([0x3FF0000000000000, 0x4008000000000000, 0x4010000000000000], no_counts), ([0, 0, 0], no_counts)]
      (length [0x3FF0000000000000, 0x4008000000000000, 0x4010000000000000 :: 64 word]) 0 = Inr new \<and>
    fst (new ! 1) = map (\<lambda>x. fadd x 0x3FF0000000000000) out"
proof -
  let ?buf = "[0x3FF0000000000000, 0x4008000000000000, 0x4010000000000000 :: 64 word]"
  let ?small = "[0, 0x4000000000000000, 0x4008000000000000 :: 64 word]" and ?med = "0x3FFAAAAAAAAAAAAB"
  let ?st = "myCompress_bitwise_double_mask ?small 2 (mask_of ?med) empty_bitbuf" and ?tx = "altering (\<lambda>d. d[0 := 3])"
  let ?states = "[(?buf, no_counts), ([0, 0, 0], no_counts)]"
  let ?crc = "do_crc32 checksum (data_bits ?st) (length (data_bits ?st))"
  have a: "toSmallDataset_double ?buf = Inr (0x3FF0000000000000, ?small)"
    "\<forall>x \<in> set ?buf. is_fin x \<and> \<not> (fsign x \<and> is_zero x)" "\<forall>x \<in> set ?small. is_fin x \<and> fexp x < 2 ^ 11 - 2"
    "med_dataset_double ?small 0 = Inr (?med, 2)" by code_simp+
  have msk: "mask_of ?med =
      [False, False, True, True, True, True, True, True, True, True, True, True,
       True, False, True, False, True, False, True, False]" unfolding mask_of_tostr by code_simp
  have m: "mask_fits TYPE(64) 2 (mask_of ?med)" unfolding msk by code_simp
  have "kept (last ?small) \<noteq> 0" by code_simp
  then have k: "pos ?st \<noteq> 8 \<or> kept (last ?small) \<noteq> 0" ..
  have p: "data_bits ?st = [136, 0, 0, 0, 4, 0, 128, 0, 0]" unfolding msk by code_simp
  have c: "do_crc32 checksum [136, 0, 0, 0, 4, 0, 128, 0, 0] (length [136, 0, 0, 0, 4, 0, 128, 0, 0 :: byte]) \<noteq> 0"
    "do_crc32 checksum [3, 0, 0, 0, 4, 0, 128, 0, 0] (length [3, 0, 0, 0, 4, 0, 128, 0, 0 :: byte]) \<noteq>
     do_crc32 checksum [136, 0, 0, 0, 4, 0, 128, 0, 0] (length [136, 0, 0, 0, 4, 0, 128, 0, 0 :: byte])" by code_simp+
  have net: "\<forall>rank < length ?states. rank \<noteq> 0 \<longrightarrow> tx_crc ?tx rank ?crc = ?crc \<and>
      tx_resend ?tx rank (data_bits ?st) = data_bits ?st \<and> crc_detects checksum ?tx (data_bits ?st) rank"
    using c unfolding p by (simp add: altering_def crc_detects_def)
  have nz: "?crc \<noteq> 0" using c(1) unfolding p .
  have s: "0 < length ?states" "fst (?states ! 0) = ?buf"
    "\<forall>rank < length ?states. length (fst (?states ! rank)) = length ?buf" by (simp_all add: All_less_Suc)
  from mask_bcast_delivers [OF a(1-4) m refl k refl nz net s] obtain new out where
    "MPI_Bcast_bitwise_mask_crc checksum ?tx (\<lambda>_. 7) ?states (length ?buf) 0 = Inr new"
    "\<forall>rank < length ?states. rank \<noteq> 0 \<longrightarrow> fst (new ! rank) = map (\<lambda>x. fadd x 0x3FF0000000000000) out" by blast
  then show ?thesis by auto
qed

text \<open>C39: None of the three broadcasts ever waits for a second copy that the root does not send,
  whatever the network delivers, \<open>crc32\<close> computes and \<open>rand()\<close> returns; the answers of the ranks reach the root as
  given.  (Altered numbers of check bits are an error of their own, \<open>CountMismatch\<close>.)\<close>

theorem checked_bcasts_never_block:
  "MPI_Bcast_bitwise_crc crc32 tx rnd states count rt \<noteq> Inl Deadlock \<and>
   MPI_Bcast_bitwise_mask_crc crc32 tx rnd states count rt \<noteq> Inl Deadlock \<and>
   MPI_Bcast_bitwise_crc_hamming crc32 tx rnd' states count rt \<noteq> Inl Deadlock"
proof -
  have s: "toSmallDataset_double buf \<noteq> Inl Deadlock" "med_dataset_double buf t \<noteq> Inl Deadlock" for buf t
    by (simp_all add: toSmallDataset_double_def toSmallDataset_def med_dataset_double_def med_dataset_def Let_def)
  note b = checked_bcast_fault [OF decoder_fault] checked_bcast_fault [OF mask_decoder_fault]
  show ?thesis
    by (auto simp: MPI_Bcast_bitwise_crc_def MPI_Bcast_bitwise_mask_crc_def MPI_Bcast_bitwise_crc_hamming_def
        Let_def s b share_sizes_def dest!: res_bind_fault split: if_splits)
qed

end
