(* ===== verification/ByteCodec.thy ===== *)
theory ByteCodec
  imports
  PredCodec
begin

text \<open>
  The codec of \<open>app/src/dataCompression.c\<close> that works with whole numbers and characters:
  \<open>myCompress_double\<close>, \<open>myDecompress_double\<close> and, for \<open>float\<close>, \<open>myCompress\<close> and \<open>myDecompress\<close>.
  A number that one of four extrapolations meets within the error bound is replaced by a
  character, and its place (counted from 1) is noted.
\<close>

section \<open>The code\<close>

datatype code_char = Code_a | Code_b | Code_c | Code_d

text \<open>The three arrays the encoder lets grow.\<close>

record 'v packed =
  array_num :: "'v list"
  array_char :: "code_char list"
  array_char_displacement :: "int list"

record 'v before4 = "'v before" +
  before_value4 :: 'v

definition no_values4 :: "'w::len word before4" where
  "no_values4 = \<lparr>before_value1 = fint (- 1), before_value2 = fint (- 1), before_value3 = fint (- 1),
     before_value4 = fint (- 1)\<rparr>"

definition some_unset :: "'w::len word before4 \<Rightarrow> bool" where
  "some_unset h \<longleftrightarrow> unset (before_value4 h) \<or> unset (before_value3 h) \<or> unset (before_value2 h) \<or> unset (before_value1 h)"

definition push_value4 :: "'w::len word before4 \<Rightarrow> 'w word \<Rightarrow> 'w word before4" where
  "push_value4 h v =
     (if unset (before_value4 h) then h\<lparr>before_value4 := v\<rparr>
      else if unset (before_value3 h) then h\<lparr>before_value3 := v\<rparr>
      else if unset (before_value2 h) then h\<lparr>before_value2 := v\<rparr>
      else if unset (before_value1 h) then h\<lparr>before_value1 := v\<rparr>
      else \<lparr>before_value1 = v, before_value2 = before_value1 h, before_value3 = before_value2 h,
            before_value4 = before_value3 h\<rparr>)"

definition extrapolate2 :: "'w::len word \<Rightarrow> 'w word \<Rightarrow> 'w word" where
  "extrapolate2 v1 v2 = fsub (fmul (fint 2) v1) v2"

definition extrapolate3 :: "'w::len word \<Rightarrow> 'w word \<Rightarrow> 'w word \<Rightarrow> 'w word" where
  "extrapolate3 v1 v2 v3 = fadd (fsub (fmul (fint 3) v1) (fmul (fint 3) v2)) v3"

definition extrapolate4 :: "'w::len word \<Rightarrow> 'w word \<Rightarrow> 'w word \<Rightarrow> 'w word \<Rightarrow> 'w word" where
  "extrapolate4 v1 v2 v3 v4 = fsub (fadd (fsub (fmul (fint 4) v1) (fmul (fint 6) v2)) (fmul (fint 4) v3)) v4"

definition extrapolation :: "code_char \<Rightarrow> 'w::len word \<Rightarrow> 'w word \<Rightarrow> 'w word \<Rightarrow> 'w word \<Rightarrow> 'w word" where
  "extrapolation c v1 v2 v3 v4 =
     (case c of Code_a \<Rightarrow> v1 | Code_b \<Rightarrow> extrapolate2 v1 v2 | Code_c \<Rightarrow> extrapolate3 v1 v2 v3
      | Code_d \<Rightarrow> extrapolate4 v1 v2 v3 v4)"

definition predict_value :: "'w::len word before4 \<Rightarrow> code_char \<Rightarrow> 'w word" where
  "predict_value h c =
     extrapolation c (before_value1 h) (before_value2 h) (before_value3 h) (before_value4 h)"

definition distance_of :: "'w::len word before4 \<Rightarrow> 'w word \<Rightarrow> code_char \<Rightarrow> 'w word" where
  "distance_of h real_value c = ffabs (fsub (predict_value h c) real_value)"

text \<open>The first of the closest extrapolations.\<close>

definition closer :: "'w::len word before4 \<Rightarrow> 'w word \<Rightarrow> code_char \<Rightarrow> code_char \<Rightarrow> code_char" where
  "closer h real_value c best =
     (if flt (distance_of h real_value c) (distance_of h real_value best) then c else best)"

definition compress_type :: "'w::len word before4 \<Rightarrow> 'w word \<Rightarrow> code_char" where
  "compress_type h real_value =
     closer h real_value Code_d (closer h real_value Code_c (closer h real_value Code_b Code_a))"

definition is_predicted :: "'w::len word before4 \<Rightarrow> 'w word \<Rightarrow> bool" where
  "is_predicted h real_value \<longleftrightarrow> \<not> some_unset h \<and>
     fle (promote (distance_of h real_value (compress_type h real_value))) absErrorBound"

definition pack_step :: "'w::len word packed \<times> 'w word before4 \<Rightarrow> 'w word \<Rightarrow> 'w word packed \<times> 'w word before4" where
  "pack_step s real_value =
     (case s of (out, h) \<Rightarrow>
        (if is_predicted h real_value then
           out\<lparr>array_char := array_char out @ [compress_type h real_value],
               array_char_displacement := array_char_displacement out @
                 [int (length (array_num out) + (length (array_char out) + 1))]\<rparr>
         else out\<lparr>array_num := array_num out @ [real_value]\<rparr>,
         push_value4 h real_value))"

definition pack_numbers :: "'w::len word list \<Rightarrow> 'w word packed" where
  "pack_numbers data =
     fst (foldl pack_step (\<lparr>array_num = [], array_char = [], array_char_displacement = []\<rparr>, no_values4) data)"

definition myCompress_double :: "64 word list \<Rightarrow> 64 word packed" where
  "myCompress_double = pack_numbers"

definition myCompress :: "32 word list \<Rightarrow> 32 word packed" where
  "myCompress = pack_numbers"

text \<open>
  The decoder compares every place with the next entry of \<open>array_char_displacement\<close>, unless
  that is \<open>NULL\<close>; it does not know how many entries there are.
\<close>

definition back_value :: "'w::len word list \<Rightarrow> nat \<Rightarrow> 'w word result" where
  "back_value data k = (if k \<le> length data then Inr (data ! (length data - k)) else Inl OutOfBounds)"

definition unpack_code :: "code_char \<Rightarrow> 'w::len word list \<Rightarrow> 'w word result" where
  "unpack_code c data =
     (case c of
        Code_a \<Rightarrow> back_value data 1
      | Code_b \<Rightarrow> res_bind (back_value data 1) (\<lambda>v1. res_bind (back_value data 2) (\<lambda>v2.
          Inr (extrapolate2 v1 v2)))
      | Code_c \<Rightarrow> res_bind (back_value data 1) (\<lambda>v1. res_bind (back_value data 2) (\<lambda>v2.
          res_bind (back_value data 3) (\<lambda>v3. Inr (extrapolate3 v1 v2 v3))))
      | Code_d \<Rightarrow> res_bind (back_value data 1) (\<lambda>v1. res_bind (back_value data 2) (\<lambda>v2.
          res_bind (back_value data 3) (\<lambda>v3. res_bind (back_value data 4) (\<lambda>v4.
            Inr (extrapolate4 v1 v2 v3 v4))))))"

definition unpack_step ::
  "'w::len word list \<Rightarrow> code_char list \<Rightarrow> int list option \<Rightarrow> 'w word list \<times> nat \<times> nat \<Rightarrow> nat \<Rightarrow>
   ('w word list \<times> nat \<times> nat) result" where
  "unpack_step nums chars places s i =
     (case s of (data, num_p, char_p) \<Rightarrow>
        res_bind (case places of None \<Rightarrow> Inr False
                  | Some ds \<Rightarrow> res_bind (nth_result ds char_p) (\<lambda>d. Inr (d - 1 = int i))) (\<lambda>hit.
          if hit then res_bind (nth_result chars char_p) (\<lambda>c. res_bind (unpack_code c data) (\<lambda>v.
            Inr (data @ [v], num_p, char_p + 1)))
          else res_bind (nth_result nums num_p) (\<lambda>v. Inr (data @ [v], num_p + 1, char_p))))"

definition unpack_numbers ::
  "'w::len word list \<Rightarrow> code_char list \<Rightarrow> int list option \<Rightarrow> nat \<Rightarrow> 'w word list result" where
  "unpack_numbers nums chars places num =
     res_bind (res_fold (unpack_step nums chars places) ([], 0, 0) [0..<num]) (\<lambda>s. Inr (fst s))"

definition myDecompress_double ::
  "64 word list \<Rightarrow> code_char list \<Rightarrow> int list option \<Rightarrow> nat \<Rightarrow> 64 word list result" where
  "myDecompress_double = unpack_numbers"

definition myDecompress ::
  "32 word list \<Rightarrow> code_char list \<Rightarrow> int list option \<Rightarrow> nat \<Rightarrow> 32 word list result" where
  "myDecompress = unpack_numbers"

section \<open>What the encoder leaves in its arrays\<close>

abbreviation "filled \<equiv> (\<lambda>out. length (array_num out) + length (array_char out))"

lemma pack_fold:
  assumes "fin = fst (foldl pack_step (out, h) xs)"
  obtains N C D where "array_num fin = array_num out @ N" "array_char fin = array_char out @ C"
    "array_char_displacement fin = array_char_displacement out @ D" "length C = length D"
    "length N + length C = length xs" "\<forall>d \<in> set D. int (filled out) < d \<and> d \<le> int (filled out + length xs)"
proof -
  have "\<exists>N C D. array_num fin = array_num out @ N \<and> array_char fin = array_char out @ C \<and>
    array_char_displacement fin = array_char_displacement out @ D \<and> length C = length D \<and>
    length N + length C = length xs \<and> (\<forall>d \<in> set D. int (filled out) < d \<and> d \<le> int (filled out + length xs))"
    using assms
  proof (induction xs arbitrary: out h)
    case (Cons x xs)
    obtain out1 where s: "pack_step (out, h) x = (out1, push_value4 h x)" by (simp add: pack_step_def)
    then obtain N1 C1 D1 where out1: "array_num out1 = array_num out @ N1" "array_char out1 = array_char out @ C1"
        "array_char_displacement out1 = array_char_displacement out @ D1"
        "length C1 = length D1" "length N1 + length C1 = 1" "\<forall>d \<in> set D1. d = int (filled out + 1)"
      by (auto simp: pack_step_def split: if_splits)
    from Cons.IH [of out1 "push_value4 h x"] Cons.prems s obtain N C D where fin:
        "array_num fin = array_num out1 @ N" "array_char fin = array_char out1 @ C"
        "array_char_displacement fin = array_char_displacement out1 @ D" "length C = length D"
        "length N + length C = length xs" "\<forall>d \<in> set D. int (filled out1) < d \<and> d \<le> int (filled out1 + length xs)"
      by auto
    have "array_num fin = array_num out @ (N1 @ N)" "array_char fin = array_char out @ (C1 @ C)"
      "array_char_displacement fin = array_char_displacement out @ (D1 @ D)"
      "length (C1 @ C) = length (D1 @ D)" "length (N1 @ N) + length (C1 @ C) = length (x # xs)"
      "\<forall>d \<in> set (D1 @ D). int (filled out) < d \<and> d \<le> int (filled out + length (x # xs))"
      using fin out1 by auto
    then show ?case by blast
  qed auto
  then show ?thesis using that by blast
qed

text \<open>The first prediction is made after four numbers.\<close>

definition count_unset :: "'w::len word before4 \<Rightarrow> nat" where
  "count_unset h = of_bool (unset (before_value1 h)) + of_bool (unset (before_value2 h)) +
     of_bool (unset (before_value3 h)) + of_bool (unset (before_value4 h))"

lemma count_unset_push: "count_unset h \<le> count_unset (push_value4 h v) + 1"
  by (auto simp: count_unset_def push_value4_def)

lemma predicted_set: "is_predicted h x \<Longrightarrow> count_unset h = 0"
  by (simp add: is_predicted_def some_unset_def count_unset_def)

section \<open>What the decoder makes of them\<close>

definition reading_of :: "'w::len word list \<Rightarrow> code_char \<Rightarrow> 'w word" where
  "reading_of out c = extrapolation c (out ! (length out - 1)) (out ! (length out - 2)) (out ! (length out - 3))
     (out ! (length out - 4))"

fun reread :: "'w::len word before4 \<Rightarrow> 'w word list \<Rightarrow> 'w word list \<Rightarrow> 'w word list" where
  "reread h out [] = out"
| "reread h out (x # xs) =
     reread (push_value4 h x) (out @ [if is_predicted h x then reading_of out (compress_type h x) else x]) xs"

lemma unpack_code_long: "4 \<le> length out \<Longrightarrow> unpack_code c out = Inr (reading_of out c)"
  by (cases c) (simp_all add: unpack_code_def back_value_def reading_of_def extrapolation_def)

text \<open>One round, when \<open>places\<close> goes on with \<open>d\<close>, the next place or what lies behind the array.\<close>

lemma unpack_predicted:
  assumes "places ! p = int i + 1" and "p < length places" and "p < length chars" and "chars ! p = c" and "4 \<le> length out"
  shows "unpack_step nums chars (Some places) (out, n, p) i = Inr (out @ [reading_of out c], n, p + 1)"
  using assms by (simp add: unpack_step_def nth_result_def unpack_code_long)

lemma unpack_whole:
  assumes "places ! p \<noteq> int i + 1" and "p < length places" and "n < length nums" and "nums ! n = x"
  shows "unpack_step nums chars (Some places) (out, n, p) i = Inr (out @ [x], n + 1, p)"
  using assms by (auto simp: unpack_step_def nth_result_def)

lemma unpack_past:
  "length places \<le> p \<Longrightarrow> unpack_step nums chars (Some places) (out, n, p) i = Inl OutOfBounds"
  by (simp add: unpack_step_def nth_result_def)

lemma unpack_one:
  assumes "fin = fst (foldl pack_step (out, h) (x # xs))"
    and "length (array_char_displacement out) = length (array_char out)"
    and "length recon = filled out" and "4 \<le> filled out + count_unset h"
    and "places = array_char_displacement fin @ later" and "length (array_char out) < length places"
    and "later \<noteq> [] \<longrightarrow> hd later \<le> 0 \<or> int (filled out + length (x # xs)) < hd later"
  obtains out1 v where "fin = fst (foldl pack_step (out1, push_value4 h x) xs)"
    "v = (if is_predicted h x then reading_of recon (compress_type h x) else x)"
    "unpack_step (array_num fin) (array_char fin) (Some places)
       (recon, length (array_num out), length (array_char out)) (filled out) =
     Inr (recon @ [v], length (array_num out1), length (array_char out1))"
    "filled out1 = filled out + 1" "length (array_char_displacement out1) = length (array_char out1)"
    "4 \<le> filled out1 + count_unset (push_value4 h x)"
proof -
  let ?step = "unpack_step (array_num fin) (array_char fin) (Some places)"
  let ?p = "length (array_char out)" and ?n = "length (array_num out)"
  define out1 where "out1 = fst (pack_step (out, h) x)"
  have s: "pack_step (out, h) x = (out1, push_value4 h x)" by (simp add: out1_def pack_step_def)
  then have fin: "fin = fst (foldl pack_step (out1, push_value4 h x) xs)" using assms(1) by simp
  obtain N C D where f: "array_num fin = array_num out1 @ N" "array_char fin = array_char out1 @ C"
      "array_char_displacement fin = array_char_displacement out1 @ D" "length C = length D"
      "\<forall>d \<in> set D. int (filled out1) < d"
    using pack_fold [OF fin] by metis
  define v where "v = (if is_predicted h x then reading_of recon (compress_type h x) else x)"
  have one: "?step (recon, ?n, ?p) (filled out) = Inr (recon @ [v], length (array_num out1), length (array_char out1))
      \<and> filled out1 = filled out + 1 \<and> length (array_char_displacement out1) = length (array_char out1)"
  proof (cases "is_predicted h x")
    case True
    then have o: "array_char out1 = array_char out @ [compress_type h x]" "array_num out1 = array_num out"
        "array_char_displacement out1 = array_char_displacement out @ [int (filled out + 1)]"
      by (simp_all add: out1_def pack_step_def)
    have "4 \<le> length recon" using assms(3,4) predicted_set [OF True] by simp
    moreover have "v = reading_of recon (compress_type h x)" using True by (simp add: v_def)
    moreover have "places ! ?p = int (filled out) + 1" "?p < length (array_char fin)"
      "array_char fin ! ?p = compress_type h x"
      using assms(2,5) by (simp_all add: f o nth_append)
    ultimately have "?step (recon, ?n, ?p) (filled out) = Inr (recon @ [v], ?n, ?p + 1)"
      using assms(6) unpack_predicted by metis
    then show ?thesis using o assms(2) by simp
  next
    case False
    then have o: "array_char out1 = array_char out" "array_num out1 = array_num out @ [x]"
        "array_char_displacement out1 = array_char_displacement out"
      by (simp_all add: out1_def pack_step_def)
    have p: "places ! ?p = hd (D @ later)" and "D @ later \<noteq> []"
      using assms(2,5,6) by (cases D; cases later; simp add: f o nth_append)+
    then have "places ! ?p \<noteq> int (filled out) + 1"
      using f(5) assms(7) o by (cases D) auto
    moreover have "?n < length (array_num fin)" "array_num fin ! ?n = x" "v = x"
      using False by (simp_all add: f o nth_append v_def)
    ultimately have "?step (recon, ?n, ?p) (filled out) = Inr (recon @ [v], ?n + 1, ?p)"
      using assms(6) unpack_whole by metis
    then show ?thesis using o assms(2) by simp
  qed
  have "4 \<le> filled out1 + count_unset (push_value4 h x)"
    using assms(4) one count_unset_push [of h x] by linarith
  then show thesis using that [OF fin v_def] one by blast
qed

lemma unpack_all_places:
  assumes "fin = fst (foldl pack_step (out, h) xs)" and "length (array_char_displacement out) = length (array_char out)"
    and "length recon = filled out" and "4 \<le> filled out + count_unset h"
    and "later \<noteq> []" and "hd later \<le> 0 \<or> int (filled out + length xs) < hd later"
  shows "res_fold (unpack_step (array_num fin) (array_char fin) (Some (array_char_displacement fin @ later)))
      (recon, length (array_num out), length (array_char out)) [filled out..<filled out + length xs] =
    Inr (reread h recon xs, length (array_num fin), length (array_char fin))"
  using assms
proof (induction xs arbitrary: out h recon)
  case (Cons x xs)
  let ?step = "unpack_step (array_num fin) (array_char fin) (Some (array_char_displacement fin @ later))"
  obtain N C D where "array_char_displacement fin = array_char_displacement out @ D"
    using pack_fold [OF Cons.prems(1)] by metis
  then have "length (array_char out) < length (array_char_displacement fin @ later)"
    using Cons.prems(2,5) by simp
  then obtain out1 v where one: "fin = fst (foldl pack_step (out1, push_value4 h x) xs)"
      "v = (if is_predicted h x then reading_of recon (compress_type h x) else x)"
      "?step (recon, length (array_num out), length (array_char out)) (filled out) =
        Inr (recon @ [v], length (array_num out1), length (array_char out1))"
      "filled out1 = filled out + 1" "length (array_char_displacement out1) = length (array_char out1)"
      "4 \<le> filled out1 + count_unset (push_value4 h x)"
    using unpack_one [OF Cons.prems(1-4) refl] Cons.prems(6) by metis
  have rest: "res_fold ?step (recon @ [v], length (array_num out1), length (array_char out1))
      [filled out + 1..<filled out + 1 + length xs] =
    Inr (reread (push_value4 h x) (recon @ [v]) xs, length (array_num fin), length (array_char fin))"
    using Cons.IH [OF one(1,5) _ one(6) Cons.prems(5), of "recon @ [v]"] one(4) Cons.prems(3,6) by auto
  have "[filled out..<filled out + length (x # xs)] = filled out # [filled out + 1..<filled out + 1 + length xs]"
    by (simp add: upt_conv_Cons del: upt_Suc)
  then show ?case using one(2,3) rest by simp
qed simp

text \<open>With no entry behind the last place, any number after the last predicted one is too many.\<close>

lemma unpack_exact:
  assumes "fin = fst (foldl pack_step (out, h) xs)" and "length (array_char_displacement out) = length (array_char out)"
    and "length recon = filled out" and "4 \<le> filled out + count_unset h"
    and "xs \<noteq> []" and "\<not> is_predicted (foldl push_value4 h (butlast xs)) (last xs)"
  shows "res_fold (unpack_step (array_num fin) (array_char fin) (Some (array_char_displacement fin)))
      (recon, length (array_num out), length (array_char out)) [filled out..<filled out + length xs] = Inl OutOfBounds"
  using assms
proof (induction xs arbitrary: out h recon)
  case (Cons x xs)
  let ?places = "array_char_displacement fin"
  let ?step = "unpack_step (array_num fin) (array_char fin) (Some ?places)"
  have upt: "[filled out..<filled out + length (x # xs)] = filled out # [filled out + 1..<filled out + 1 + length xs]"
    by (simp add: upt_conv_Cons del: upt_Suc)
  show ?case
  proof (cases "length (array_char out) < length ?places")
    case True
    obtain out1 v where one: "fin = fst (foldl pack_step (out1, push_value4 h x) xs)"
        "?step (recon, length (array_num out), length (array_char out)) (filled out) =
          Inr (recon @ [v], length (array_num out1), length (array_char out1))"
        "filled out1 = filled out + 1" "length (array_char_displacement out1) = length (array_char out1)"
        "4 \<le> filled out1 + count_unset (push_value4 h x)"
      by (rule unpack_one [OF Cons.prems(1-4) append_Nil2 [symmetric] True]) simp
    have "xs \<noteq> []"
    proof
      assume "xs = []"
      then have "fin = out\<lparr>array_num := array_num out @ [x]\<rparr>"
        using Cons.prems(1,6) by (simp add: pack_step_def)
      then show False using True Cons.prems(2) by simp
    qed
    then have "res_fold ?step (recon @ [v], length (array_num out1), length (array_char out1))
        [filled out + 1..<filled out + 1 + length xs] = Inl OutOfBounds"
      using Cons.IH [OF one(1,4) _ one(5), of "recon @ [v]"] one(3) Cons.prems(3,6) by auto
    then show ?thesis using one(2) upt by simp
  next
    case False
    then show ?thesis unfolding upt by (simp add: unpack_past)
  qed
qed simp

text \<open>If the last number is predicted, there is a place left to look at before every number.\<close>

lemma unpack_exact_places:
  assumes "fin = fst (foldl pack_step (out, h) xs)" and "length (array_char_displacement out) = length (array_char out)"
    and "length recon = filled out" and "4 \<le> filled out + count_unset h"
    and "xs \<noteq> [] \<longrightarrow> is_predicted (foldl push_value4 h (butlast xs)) (last xs)"
  shows "res_fold (unpack_step (array_num fin) (array_char fin) (Some (array_char_displacement fin)))
      (recon, length (array_num out), length (array_char out)) [filled out..<filled out + length xs] =
    Inr (reread h recon xs, length (array_num fin), length (array_char fin))"
  using assms
proof (induction xs arbitrary: out h recon)
  case (Cons x xs)
  let ?places = "array_char_displacement fin"
  let ?step = "unpack_step (array_num fin) (array_char fin) (Some ?places)"
  have left: "length (array_char_displacement out1) < length (array_char_displacement (fst (foldl pack_step (out1, g) ys)))"
    if "ys \<noteq> []" "is_predicted (foldl push_value4 g (butlast ys)) (last ys)" for out1 g and ys :: "'a word list"
    using that
  proof (induction ys arbitrary: out1 g)
    case (Cons y ys)
    obtain out2 where s: "pack_step (out1, g) y = (out2, push_value4 g y)" by (simp add: pack_step_def)
    have le: "length (array_char_displacement out1) \<le> length (array_char_displacement out2)"
      using s by (auto simp: pack_step_def split: if_splits)
    show ?case
    proof (cases "ys = []")
      case True
      then show ?thesis using Cons.prems s by (auto simp: pack_step_def)
    next
      case False
      then show ?thesis using Cons.IH [of "push_value4 g y" out2] Cons.prems s le by simp
    qed
  qed simp
  have "length (array_char out) < length ?places"
    using left [of "x # xs" h out] Cons.prems(1,2,5) by simp
  then obtain out1 v where one: "fin = fst (foldl pack_step (out1, push_value4 h x) xs)"
      "v = (if is_predicted h x then reading_of recon (compress_type h x) else x)"
      "?step (recon, length (array_num out), length (array_char out)) (filled out) =
        Inr (recon @ [v], length (array_num out1), length (array_char out1))"
      "filled out1 = filled out + 1" "length (array_char_displacement out1) = length (array_char out1)"
      "4 \<le> filled out1 + count_unset (push_value4 h x)"
    by (rule unpack_one [OF Cons.prems(1-4) append_Nil2 [symmetric]]) simp
  have "res_fold ?step (recon @ [v], length (array_num out1), length (array_char out1))
      [filled out + 1..<filled out + 1 + length xs] =
    Inr (reread (push_value4 h x) (recon @ [v]) xs, length (array_num fin), length (array_char fin))"
    using Cons.IH [OF one(1,5) _ one(6), of "recon @ [v]"] one(4) Cons.prems(3,5) by (cases xs) auto
  moreover have "[filled out..<filled out + length (x # xs)] = filled out # [filled out + 1..<filled out + 1 + length xs]"
    by (simp add: upt_conv_Cons del: upt_Suc)
  ultimately show ?case using one(2,3) by simp
qed simp

text \<open>The values the decoder arrives at.\<close>

lemma length_reread [simp]: "length (reread h out xs) = length out + length xs"
  by (induction xs arbitrary: h out) simp_all

lemma take_reread: "take (length out) (reread h out xs) = out"
proof (induction xs arbitrary: h out)
  case (Cons x xs)
  show ?case using arg_cong [OF Cons.IH [of "out @ [v]" "push_value4 h x" for v], of "take (length out)"]
    by (simp add: min_def)
qed simp

lemma nth_reread:
  "i < length xs \<Longrightarrow> reread h out xs ! (length out + i) =
    (if is_predicted (foldl push_value4 h (take i xs)) (xs ! i)
     then reading_of (take (length out + i) (reread h out xs)) (compress_type (foldl push_value4 h (take i xs)) (xs ! i))
     else xs ! i)"
proof (induction xs arbitrary: h out i)
  case (Cons x xs)
  let ?v = "if is_predicted h x then reading_of out (compress_type h x) else x"
  show ?case
  proof (cases i)
    case 0
    have "take (length out + 1) (reread h out (x # xs)) = out @ [?v]"
      using take_reread [of "out @ [?v]" "push_value4 h x" xs] by simp
    then have "take (length out + 1) (reread h out (x # xs)) ! length out = ?v" by (simp only: nth_append_length)
    then have "reread h out (x # xs) ! length out = ?v" by (simp del: reread.simps)
    moreover have "take (length out) (reread h out (x # xs)) = out" by (rule take_reread)
    ultimately show ?thesis using 0 by (simp only: add_0_right nth_Cons_0 take_0 foldl.simps)
  next
    case (Suc j)
    then show ?thesis using Cons.IH [of j "push_value4 h x" "out @ [?v]"] Cons.prems by simp
  qed
qed simp

definition known_before :: "'w::len word list \<Rightarrow> nat \<Rightarrow> 'w word before4" where
  "known_before data i = foldl push_value4 no_values4 (take i data)"

text \<open>Number \<open>i\<close> is replaced by a character.\<close>

definition predicted_at :: "'w::len word list \<Rightarrow> nat \<Rightarrow> bool" where
  "predicted_at data i \<longleftrightarrow> is_predicted (known_before data i) (data ! i)"

definition code_at :: "'w::len word list \<Rightarrow> nat \<Rightarrow> code_char" where
  "code_at data i = compress_type (known_before data i) (data ! i)"

lemma known_before_Suc:
  "i < length data \<Longrightarrow> known_before data (Suc i) = push_value4 (known_before data i) (data ! i)"
  by (simp add: known_before_def take_Suc_conv_app_nth)

text \<open>
  What the decoder may make of \<open>data\<close>: a number that was not predicted comes back exactly, a
  predicted one as the extrapolation of the four numbers the decoder has returned before it.
  If no number is -1, one whose four predecessors were sent whole is within the error bound.
\<close>

definition reading :: "'w::len word list \<Rightarrow> 'w word list \<Rightarrow> bool" where
  "reading data out \<longleftrightarrow> length out = length data \<and>
     (\<forall>i < length data. if predicted_at data i
        then 4 \<le> i \<and> out ! i =
          extrapolation (code_at data i) (out ! (i - 1)) (out ! (i - 2)) (out ! (i - 3)) (out ! (i - 4))
        else out ! i = data ! i) \<and>
     ((\<forall>x \<in> set data. \<not> unset x) \<longrightarrow>
        (\<forall>i < length data. predicted_at data i \<and> (\<forall>j < i. i \<le> j + 4 \<longrightarrow> \<not> predicted_at data j) \<longrightarrow>
           fle (promote (ffabs (fsub (out ! i) (data ! i)))) absErrorBound))"

text \<open>For both formats -1 is the number that stands for none.\<close>

locale marked_format =
  fixes T :: "'w::len itself"
  assumes unset_minus_one: "unset (fint (- 1) :: 'w word)"
begin

lemma count_unset_none: "count_unset (no_values4 :: 'w word before4) = 4"
  using unset_minus_one by (simp add: count_unset_def no_values4_def)

lemma count_unset_known: "i \<le> length (data :: 'w word list) \<Longrightarrow> 4 \<le> i + count_unset (known_before data i)"
proof (induction i)
  case (Suc i)
  then show ?case using count_unset_push [of "known_before data i" "data ! i"]
    by (simp add: known_before_Suc)
qed (simp add: known_before_def count_unset_none)

lemma predicted_after_four:
  assumes "predicted_at (data :: 'w word list) i" and "i < length data"
  shows "4 \<le> i"
  using assms count_unset_known [of i data] predicted_set [of "known_before data i" "data ! i"]
  by (simp add: predicted_at_def)

text \<open>Without -1 among them the four known numbers are the last four.\<close>

lemma known_four:
  assumes "\<forall>x \<in> set data. \<not> unset x" and "4 \<le> i" and "i \<le> length (data :: 'w word list)"
  shows "known_before data i = \<lparr>before_value1 = data ! (i - 1), before_value2 = data ! (i - 2),
    before_value3 = data ! (i - 3), before_value4 = data ! (i - 4)\<rparr>"
  using assms(2,3)
proof (induction i rule: dec_induct)
  case base
  have "take 4 data = [data ! 0, data ! 1, data ! 2, data ! 3]"
    using base by (intro nth_equalityI) (auto simp: less_Suc_eq numeral_eq_Suc)
  moreover have "\<not> unset (data ! j)" if "j < 4" for j
    using base assms(1) that by simp
  ultimately show ?case using unset_minus_one
    by (simp add: known_before_def no_values4_def push_value4_def)
next
  case (step i)
  then show ?case using assms(1)
    by (simp add: known_before_Suc push_value4_def numeral_eq_Suc Suc_diff_le)
qed

lemma unset_known:
  assumes "\<forall>x \<in> set data. \<not> unset x" and "i \<le> length (data :: 'w word list)"
  shows "some_unset (known_before data i) \<longleftrightarrow> i < 4"
proof (cases "i < 4")
  case True
  then show ?thesis using count_unset_known [OF assms(2)] by (auto simp: count_unset_def some_unset_def of_bool_def split: if_splits)
next
  case False
  then show ?thesis using known_four [OF assms(1) _ assms(2)] assms by (simp add: some_unset_def)
qed

text \<open>The result of the decoder, and what it makes of every number.\<close>

lemma unpack_result:
  assumes "later \<noteq> []" and "hd later \<le> 0 \<or> int (length (data :: 'w word list)) < hd later"
  shows "unpack_numbers (array_num (pack_numbers data)) (array_char (pack_numbers data))
      (Some (array_char_displacement (pack_numbers data) @ later)) (length data) =
    Inr (reread no_values4 [] data)"
proof -
  let ?none = "\<lparr>array_num = [], array_char = [], array_char_displacement = []\<rparr> :: 'w word packed"
  from unpack_all_places [of "pack_numbers data" ?none no_values4 data "[]" later] assms
  show ?thesis by (simp add: unpack_numbers_def pack_numbers_def count_unset_none)
qed

lemma unpack_exact_result:
  assumes "data \<noteq> []" and "\<not> predicted_at data (length data - 1)"
  shows "unpack_numbers (array_num (pack_numbers data)) (array_char (pack_numbers data))
      (Some (array_char_displacement (pack_numbers data))) (length (data :: 'w word list)) = Inl OutOfBounds"
proof -
  let ?none = "\<lparr>array_num = [], array_char = [], array_char_displacement = []\<rparr> :: 'w word packed"
  have "\<not> is_predicted (foldl push_value4 no_values4 (butlast data)) (last data)"
    using assms by (simp add: predicted_at_def known_before_def butlast_conv_take last_conv_nth)
  then show ?thesis using unpack_exact [of "pack_numbers data" ?none no_values4 data "[]"] assms(1)
    by (simp add: unpack_numbers_def pack_numbers_def count_unset_none)
qed

lemma unpack_places_result:
  assumes "(data :: 'w word list) \<noteq> []"
  shows "unpack_numbers (array_num (pack_numbers data)) (array_char (pack_numbers data))
      (Some (array_char_displacement (pack_numbers data))) (length data) =
    (if predicted_at data (length data - 1) then Inr (reread no_values4 [] data) else Inl OutOfBounds)"
proof (cases "predicted_at data (length data - 1)")
  case True
  let ?none = "\<lparr>array_num = [], array_char = [], array_char_displacement = []\<rparr> :: 'w word packed"
  have "is_predicted (foldl push_value4 no_values4 (butlast data)) (last data)"
    using assms True by (simp add: predicted_at_def known_before_def butlast_conv_take last_conv_nth)
  then show ?thesis using unpack_exact_places [of "pack_numbers data" ?none no_values4 data "[]"] True
    by (simp add: unpack_numbers_def pack_numbers_def count_unset_none)
qed (use unpack_exact_result [OF assms] in simp)

lemma nth_result_of:
  assumes "i < length (data :: 'w word list)" and "out = reread no_values4 [] data"
  shows "out ! i = (if predicted_at data i
    then extrapolation (code_at data i) (out ! (i - 1)) (out ! (i - 2)) (out ! (i - 3)) (out ! (i - 4))
    else data ! i)"
proof (cases "predicted_at data i")
  case True
  have "4 \<le> i" using predicted_after_four [OF True assms(1)] .
  then have "reading_of (take i out) c = extrapolation c (out ! (i - 1)) (out ! (i - 2)) (out ! (i - 3)) (out ! (i - 4))"
    for c using assms by (simp add: reading_of_def min_def)
  then show ?thesis
    using nth_reread [of i data no_values4 "[]"] assms True
    by (simp add: predicted_at_def code_at_def known_before_def)
next
  case False
  then show ?thesis using nth_reread [of i data no_values4 "[]"] assms
    by (simp add: predicted_at_def known_before_def)
qed

lemma near_result_of:
  assumes "i < length (data :: 'w word list)" and "out = reread no_values4 [] data"
    and "\<forall>x \<in> set data. \<not> unset x" and "predicted_at data i" and "\<forall>j < i. i \<le> j + 4 \<longrightarrow> \<not> predicted_at data j"
  shows "fle (promote (ffabs (fsub (out ! i) (data ! i)))) absErrorBound"
proof -
  have i: "4 \<le> i" using predicted_after_four [OF assms(4,1)] .
  have same: "out ! (i - k) = data ! (i - k)" if "0 < k" "k \<le> 4" for k
    using nth_result_of [of "i - k", OF _ assms(2)] assms(1,5) that i by simp
  have "out ! i = predict_value (known_before data i) (code_at data i)"
    using nth_result_of [OF assms(1,2)] assms(4) same known_four [OF assms(3) i] assms(1)
    by (simp add: predict_value_def)
  then show ?thesis
    using assms(4) by (simp add: predicted_at_def is_predicted_def distance_of_def code_at_def)
qed

lemma reading_reread: "reading (data :: 'w word list) (reread no_values4 [] data)"
  unfolding reading_def
  using nth_result_of [of _ data, OF _ refl] predicted_after_four [of data] near_result_of [of _ data, OF _ refl]
  by simp

end

interpretation marked_double: marked_format "TYPE(64)"
  by unfold_locales code_simp

interpretation marked_float: marked_format "TYPE(32)"
  by unfold_locales code_simp

text \<open>When nothing is predicted there is no array of places.\<close>

lemma pack_nothing: "array_char (pack_numbers data) = [] \<Longrightarrow> array_num (pack_numbers data) = data"
proof -
  have "array_num fin = array_num out @ xs"
    if "fin = fst (foldl pack_step (out, h) xs)" "array_char fin = []" for fin out h and xs :: "'a word list"
    using that
  proof (induction xs arbitrary: out h)
    case (Cons x xs)
    obtain out1 where s: "pack_step (out, h) x = (out1, push_value4 h x)" by (simp add: pack_step_def)
    have fin: "fin = fst (foldl pack_step (out1, push_value4 h x) xs)" using s Cons.prems(1) by simp
    have "array_char out1 = []" using pack_fold [OF fin] Cons.prems(2) by (metis append_is_Nil_conv)
    then have "array_num out1 = array_num out @ [x]"
      using s by (auto simp: pack_step_def split: if_splits)
    then show ?case using Cons.IH [OF fin Cons.prems(2)] by simp
  qed simp
  from this [of "pack_numbers data" "\<lparr>array_num = [], array_char = [], array_char_displacement = []\<rparr>" no_values4 data]
  show "array_char (pack_numbers data) = [] \<Longrightarrow> array_num (pack_numbers data) = data"
    by (simp add: pack_numbers_def)
qed

lemma unpack_none: "unpack_numbers nums chars None (length nums) = Inr nums"
proof -
  have "res_fold (unpack_step nums chars None) ([], 0, 0) [0..<k] = Inr (take k nums, k, 0)" if "k \<le> length nums" for k
    using that
  proof (induction k)
    case (Suc k)
    then show ?case
      by (simp add: res_fold_append unpack_step_def nth_result_def take_Suc_conv_app_nth)
  qed simp
  then show ?thesis by (simp add: unpack_numbers_def)
qed

section \<open>Properties\<close>

lemmas byte_functions = myCompress_double_def myCompress_def myDecompress_double_def myDecompress_def



text \<open>Given exactly the encoder's array of places, both decoders read past its end if some number
  was predicted but not the last one; if none was predicted, the decoders return the numbers without
  the array.\<close>

theorem byte_reads_past_places:
  assumes "ds \<noteq> []" and "\<not> predicted_at ds (length ds - 1)" and "fs \<noteq> []" and "\<not> predicted_at fs (length fs - 1)"
  shows "myDecompress_double (array_num (myCompress_double ds)) (array_char (myCompress_double ds))
      (Some (array_char_displacement (myCompress_double ds))) (length ds) = Inl OutOfBounds \<and>
    myDecompress (array_num (myCompress fs)) (array_char (myCompress fs))
      (Some (array_char_displacement (myCompress fs))) (length fs) = Inl OutOfBounds \<and>
    (array_char (myCompress_double ds) = [] \<longrightarrow>
      myDecompress_double (array_num (myCompress_double ds)) [] None (length ds) = Inr ds) \<and>
    (array_char (myCompress fs) = [] \<longrightarrow> myDecompress (array_num (myCompress fs)) [] None (length fs) = Inr fs)"
  using marked_double.unpack_exact_result [OF assms(1,2)] marked_float.unpack_exact_result [OF assms(3,4)]
    pack_nothing [of ds] pack_nothing [of fs] unpack_none [of ds "[]"] unpack_none [of fs "[]"]
  by (auto simp: byte_functions)

text \<open>Of 1, 2, 3, 4, 5, 10 the fifth number is predicted and the last one is not.\<close>

theorem byte_reads_past_places_witness:
  "myDecompress_double
      (array_num (myCompress_double [0x3FF0000000000000, 0x4000000000000000, 0x4008000000000000, 0x4010000000000000, 0x4014000000000000, 0x4024000000000000]))
      (array_char (myCompress_double [0x3FF0000000000000, 0x4000000000000000, 0x4008000000000000, 0x4010000000000000, 0x4014000000000000, 0x4024000000000000]))
      (Some (array_char_displacement (myCompress_double [0x3FF0000000000000, 0x4000000000000000, 0x4008000000000000, 0x4010000000000000, 0x4014000000000000, 0x4024000000000000]))) 6 = Inl OutOfBounds \<and>
    myDecompress (array_num (myCompress [0x3F800000])) [] None 1 = Inr [0x3F800000]"
proof -
  have "\<not> predicted_at [0x3FF0000000000000, 0x4000000000000000, 0x4008000000000000, 0x4010000000000000, 0x4014000000000000, 0x4024000000000000 :: 64 word]
      (length [0x3FF0000000000000, 0x4000000000000000, 0x4008000000000000, 0x4010000000000000, 0x4014000000000000, 0x4024000000000000 :: 64 word] - 1)"
    by code_simp
  moreover have "\<not> predicted_at [0x3F800000 :: 32 word] (length [0x3F800000 :: 32 word] - 1)"
    and none: "array_char (myCompress [0x3F800000]) = []" by code_simp+
  moreover have len: "length [0x3FF0000000000000, 0x4000000000000000, 0x4008000000000000, 0x4010000000000000, 0x4014000000000000, 0x4024000000000000 :: 64 word] = 6"
    "length [0x3F800000 :: 32 word] = 1" by simp_all
  ultimately show ?thesis
    using byte_reads_past_places [of "[0x3FF0000000000000, 0x4000000000000000, 0x4008000000000000, 0x4010000000000000, 0x4014000000000000, 0x4024000000000000]" "[0x3F800000]"] unfolding len
    by (metis list.discI)
qed

text \<open>-1 stands for a number not yet known: of 1, 2, 3, 4, -1, 5, 6 the encoder lets
  5 take the place of -1 and predicts 6 without error from 5 and 4; the decoder extrapolates 5 and
  -1 and returns 11.\<close>

theorem byte_minus_one_misread:
  "myDecompress_double
     (array_num (myCompress_double [0x3FF0000000000000, 0x4000000000000000, 0x4008000000000000, 0x4010000000000000,
        0xBFF0000000000000, 0x4014000000000000, 0x4018000000000000]))
     (array_char (myCompress_double [0x3FF0000000000000, 0x4000000000000000, 0x4008000000000000, 0x4010000000000000,
        0xBFF0000000000000, 0x4014000000000000, 0x4018000000000000]))
     (Some (array_char_displacement (myCompress_double [0x3FF0000000000000, 0x4000000000000000, 0x4008000000000000,
        0x4010000000000000, 0xBFF0000000000000, 0x4014000000000000, 0x4018000000000000]) @ [0])) 7 =
   Inr [0x3FF0000000000000, 0x4000000000000000, 0x4008000000000000, 0x4010000000000000,
        0xBFF0000000000000, 0x4014000000000000, 0x4026000000000000]"
proof -
  have p: "myCompress_double [0x3FF0000000000000, 0x4000000000000000, 0x4008000000000000, 0x4010000000000000,
      0xBFF0000000000000, 0x4014000000000000, 0x4018000000000000] =
    \<lparr>array_num = [0x3FF0000000000000, 0x4000000000000000, 0x4008000000000000, 0x4010000000000000,
       0xBFF0000000000000, 0x4014000000000000], array_char = [Code_b], array_char_displacement = [7]\<rparr>"
    by code_simp
  show ?thesis unfolding p packed.simps append.simps by code_simp
qed

end
