(* ===== verification/Ratios.thy ===== *)
theory Ratios
  imports
  ByteCodec
  NpCodec
begin

text \<open>
  The estimates of compression ratios in \<open>app/src/dataCompression.c\<close>.  They run through the numbers
  as an encoder does but only count bits, of the bitwise codec without prediction
  (\<open>calCompressRatio_*\<close>), of the codec of characters (\<open>*_ij_ik_jk\<close>), of one like SZ (\<open>*_sz\<close>) and of
  two lossless ones; each exists for a plane of a three-dimensional array (\<open>*_himeno_*\<close>), some
  for arrays of \<open>float\<close> and \<open>double\<close> as well.  \<open>byte_or_bit\<close> is 2.
\<close>

section \<open>The code\<close>

text \<open>A quotient of counters is one of floats.\<close>

definition ratio :: "nat \<Rightarrow> nat \<Rightarrow> 32 word" where
  "ratio compressed origin = fdiv (fint (int compressed)) (fint (int origin))"

definition bits_step :: "nat \<Rightarrow> 'w::len word \<Rightarrow> nat" where
  "bits_step bits_after_compress x = bits_after_compress +
     (1 + ebits TYPE('w) + nat (mantissa_bits_within_error_bound TYPE('w) (tostr x)))"

definition calCompressRatio_bitwise :: "'w::len word list \<Rightarrow> 32 word" where
  "calCompressRatio_bitwise data = ratio (foldl bits_step 0 data) (LENGTH('w) * length data)"

text \<open>\<open>calCompressRatio_bitwise_double2\<close> takes floats and counts the bits of doubles.\<close>

definition calCompressRatio_bitwise_double2 :: "32 word list \<Rightarrow> 32 word" where
  "calCompressRatio_bitwise_double2 data = calCompressRatio_bitwise (map (fconv :: 32 word \<Rightarrow> 64 word) data)"

definition calCompressRatio_bitwise_double :: "64 word list \<Rightarrow> 32 word" where
  "calCompressRatio_bitwise_double = calCompressRatio_bitwise"

definition calCompressRatio_bitwise_float :: "32 word list \<Rightarrow> 32 word" where
  "calCompressRatio_bitwise_float = calCompressRatio_bitwise"

subsection \<open>A plane of a three-dimensional array\<close>

definition MIMAX :: int where "MIMAX = 129"
definition MJMAX :: int where "MJMAX = 129"
definition MKMAX :: int where "MKMAX = 131"

type_synonym grid = "int \<Rightarrow> int \<Rightarrow> int \<Rightarrow> 32 word"

definition cell :: "grid \<Rightarrow> int \<Rightarrow> int \<Rightarrow> int \<Rightarrow> 32 word result" where
  "cell data i j k =
     (if 0 \<le> i \<and> i < MIMAX \<and> 0 \<le> j \<and> j < MJMAX \<and> 0 \<le> k \<and> k < MKMAX then Inr (data i j k) else Inl OutOfBounds)"

definition plane_value :: "grid \<Rightarrow> int \<Rightarrow> int \<Rightarrow> int \<Rightarrow> int \<Rightarrow> 32 word result" where
  "plane_value data ijk v a b =
     (if ijk = 1 then cell data v a b else if ijk = 2 then cell data a v b else cell data a b v)"

text \<open>For another \<open>ijk\<close> the bounds of the loops, \<open>A\<close> and \<open>B\<close>, are never set.\<close>

definition plane_size :: "int \<Rightarrow> int \<Rightarrow> int \<Rightarrow> int \<Rightarrow> (int \<times> int) result" where
  "plane_size ijk imax jmax kmax =
     (if ijk = 1 then Inr (jmax, kmax) else if ijk = 2 then Inr (imax, kmax)
      else if ijk = 3 then Inr (imax, jmax) else Inl Uninitialised)"

definition scan_plane ::
  "('s \<Rightarrow> 32 word \<Rightarrow> 's result) \<Rightarrow> 's \<Rightarrow> grid \<Rightarrow> int \<Rightarrow> int \<Rightarrow> int \<Rightarrow> int \<Rightarrow> int \<Rightarrow> 's result" where
  "scan_plane step s data ijk v imax jmax kmax =
     res_bind (plane_size ijk imax jmax kmax) (\<lambda>(A, B).
       res_fold (\<lambda>s a. res_fold (\<lambda>s b. res_bind (plane_value data ijk v a b) (step s)) s [0..B - 1]) s [0..A - 1])"

definition transform_3d_array_to_1d_array ::
  "grid \<Rightarrow> int \<Rightarrow> int \<Rightarrow> int \<Rightarrow> int \<Rightarrow> int \<Rightarrow> 32 word list result" where
  "transform_3d_array_to_1d_array = scan_plane (\<lambda>array_1d x. Inr (array_1d @ [x])) []"

subsection \<open>The codec of characters\<close>

definition packed_ratio :: "'w::len word packed \<Rightarrow> 32 word" where
  "packed_ratio p =
     ratio (length (array_char p) * 2 + length (array_num p) * LENGTH('w))
       ((length (array_char p) + length (array_num p)) * LENGTH('w))"

definition calcCompressionRatio_himeno_ij_ik_jk :: "grid \<Rightarrow> int \<Rightarrow> int \<Rightarrow> int \<Rightarrow> int \<Rightarrow> int \<Rightarrow> 32 word result" where
  "calcCompressionRatio_himeno_ij_ik_jk data ijk v imax jmax kmax =
     res_bind (scan_plane (\<lambda>s x. Inr (pack_step s x))
       (\<lparr>array_num = [], array_char = [], array_char_displacement = []\<rparr>, no_values4) data ijk v imax jmax kmax)
       (\<lambda>s. Inr (packed_ratio (fst s)))"

subsection \<open>The estimate for SZ\<close>

text \<open>Half the spread of the three predictions gives the mantissa bits of a number not predicted.\<close>

definition predict_diff :: "'w::len word before \<Rightarrow> 'w word" where
  "predict_diff h =
     (let p1 = before_value1 h; p2 = predict_value2 h; p3 = predict_value3 h;
          (hi, lo) = (if flt p2 p1 then (p1, p2) else (p2, p1));
          (hi, lo) = (if flt hi p3 then (p3, lo) else if flt p3 lo then (hi, p3) else (hi, lo))
      in fsub hi lo)"

text \<open>\<open>get_bin\<close> is \<open>getFloatBin\<close> or \<open>getDoubleBin\<close>.  The state: the numbers before, the bits of the
  numbers and the bits of their compressed form.\<close>

type_synonym 'h count = "'h \<times> nat \<times> nat"

definition sz_step :: "('w::len word \<Rightarrow> bool list result) \<Rightarrow> 'w word before count \<Rightarrow> 'w word \<Rightarrow> 'w word before count result" where
  "sz_step get_bin s real_value =
     (case s of (h, origin_bits, compressed_bits) \<Rightarrow>
        res_bind
          (if unset (before_value3 h) \<or> unset (before_value2 h) \<or> unset (before_value1 h) then Inr (LENGTH('w))
           else if fle (promote (fst (best_prediction h real_value))) absErrorBound then Inr 2
           else res_bind (get_bin (fdiv (predict_diff h) (fint 2))) (\<lambda>c.
             Inr (1 + ebits TYPE('w) + nat (mantissa_bits_within_error_bound TYPE('w) c))))
          (\<lambda>n. Inr (push_value h real_value, origin_bits + LENGTH('w), compressed_bits + n)))"

definition count_ratio :: "'h count \<Rightarrow> 32 word" where
  "count_ratio s = (case s of (h, origin_bits, compressed_bits) \<Rightarrow> ratio compressed_bits origin_bits)"

definition calcCompressionRatio_himeno_sz :: "grid \<Rightarrow> int \<Rightarrow> int \<Rightarrow> int \<Rightarrow> int \<Rightarrow> int \<Rightarrow> 32 word result" where
  "calcCompressionRatio_himeno_sz data ijk v imax jmax kmax =
     res_bind (scan_plane (sz_step getFloatBin) (no_values, 0, 0) data ijk v imax jmax kmax) (\<lambda>s. Inr (count_ratio s))"

definition calcCompressionRatio_sz_float :: "32 word list \<Rightarrow> 32 word result" where
  "calcCompressionRatio_sz_float data =
     res_bind (res_fold (sz_step getFloatBin) (no_values, 0, 0) data) (\<lambda>s. Inr (count_ratio s))"

definition calcCompressionRatio_sz_double :: "64 word list \<Rightarrow> 32 word result" where
  "calcCompressionRatio_sz_double data =
     res_bind (res_fold (sz_step getDoubleBin) (no_values, 0, 0) data) (\<lambda>s. Inr (count_ratio s))"

subsection \<open>The lossless estimates\<close>

text \<open>The difference to the fourth extrapolation from its first bit that is set after the sign; \<open>None\<close>
  when there is none.\<close>

definition significant ::
  "('w::len word \<Rightarrow> bool list result) \<Rightarrow> 'w word before4 \<Rightarrow> 'w word \<Rightarrow> nat option result" where
  "significant get_bin h real_value =
     res_bind (get_bin (fsub (predict_value h Code_d) real_value)) (\<lambda>c.
       Inr (map_option (\<lambda>i. LENGTH('w) - i) (find (\<lambda>i. c ! i) [1..<LENGTH('w)])))"

definition performance_step ::
  "('w::len word \<Rightarrow> bool list result) \<Rightarrow> 'w word before4 count \<Rightarrow> 'w word \<Rightarrow> 'w word before4 count result" where
  "performance_step get_bin s real_value =
     (case s of (h, origin_bits, compressed_bits) \<Rightarrow>
        res_bind
          (if some_unset h then Inr (LENGTH('w))
           else res_bind (significant get_bin h real_value) (\<lambda>m.
             Inr (case m of None \<Rightarrow> 0 | Some nonzero \<Rightarrow> nonzero + 3 + 1)))
          (\<lambda>n. Inr (push_value4 h real_value, origin_bits + LENGTH('w), compressed_bits + n)))"

definition calcCompressionRatio_himeno_nolossy_performance ::
  "grid \<Rightarrow> int \<Rightarrow> int \<Rightarrow> int \<Rightarrow> int \<Rightarrow> int \<Rightarrow> 32 word result" where
  "calcCompressionRatio_himeno_nolossy_performance data ijk v imax jmax kmax =
     res_bind (scan_plane (performance_step getFloatBin) (no_values4, 0, 0) data ijk v imax jmax kmax)
       (\<lambda>s. Inr (count_ratio s))"

definition calcCompressionRatio_nolossy_performance_float :: "32 word list \<Rightarrow> 32 word result" where
  "calcCompressionRatio_nolossy_performance_float data =
     res_bind (res_fold (performance_step getFloatBin) (no_values4, 0, 0) data) (\<lambda>s. Inr (count_ratio s))"

definition calcCompressionRatio_nolossy_performance_double :: "64 word list \<Rightarrow> 32 word result" where
  "calcCompressionRatio_nolossy_performance_double data =
     res_bind (res_fold (performance_step getDoubleBin) (no_values4, 0, 0) data) (\<lambda>s. Inr (count_ratio s))"

text \<open>Compressed data blocks of \<open>cdb\<close> bits, \<open>indication\<close> of them reserved; a number takes a field
  of \<open>re1\<close>, \<open>re2\<close> or \<open>re3\<close> bits and \<open>llrb + ex\<close> more.  The fifth case leaves \<open>data_bits\<close> unset.\<close>

definition field_bits :: "nat \<Rightarrow> nat result" where
  "field_bits nonzero =
     (if nonzero \<le> 2 then Inr (2 + 2 + 1) else if nonzero \<le> 4 then Inr (4 + 2 + 1)
      else if nonzero \<le> 32 then Inr (32 + 2 + 1) else Inl Uninitialised)"

record 'h area =
  known :: 'h
  origin_bits :: nat
  cdb_num :: nat
  occupied_bits :: nat

definition cdb :: nat where "cdb = 512"
definition indication :: nat where "indication = 5"

definition put_field :: "nat \<Rightarrow> 'h area \<Rightarrow> 'h area" where
  "put_field width s =
     (if occupied_bits s + width > cdb - indication
      then s\<lparr>cdb_num := cdb_num s + 1, occupied_bits := width\<rparr>
      else s\<lparr>occupied_bits := occupied_bits s + width\<rparr>)"

definition area_step ::
  "('w::len word \<Rightarrow> bool list result) \<Rightarrow> 'w word before4 area \<Rightarrow> 'w word \<Rightarrow> 'w word before4 area result" where
  "area_step get_bin s real_value =
     res_bind
       (if some_unset (known s) then Inr (s\<lparr>occupied_bits := occupied_bits s + (32 + 2 + 1)\<rparr>)
        else res_bind (significant get_bin (known s) real_value) (\<lambda>m.
          case m of None \<Rightarrow> Inr s
          | Some nonzero \<Rightarrow> res_bind (field_bits nonzero) (\<lambda>width. Inr (put_field width s))))
       (\<lambda>t. Inr (t\<lparr>known := push_value4 (known s) real_value, origin_bits := origin_bits s + LENGTH('w)\<rparr>))"

definition no_area :: "'w::len word before4 area" where
  "no_area = \<lparr>known = no_values4, origin_bits = 0, cdb_num = 1, occupied_bits = 0\<rparr>"

definition area_ratio :: "'h area \<Rightarrow> 32 word" where
  "area_ratio s = ratio (cdb_num s * cdb) (origin_bits s)"

definition calcCompressionRatio_himeno_nolossy_area ::
  "grid \<Rightarrow> int \<Rightarrow> int \<Rightarrow> int \<Rightarrow> int \<Rightarrow> int \<Rightarrow> 32 word result" where
  "calcCompressionRatio_himeno_nolossy_area data ijk v imax jmax kmax =
     res_bind (scan_plane (area_step getFloatBin) no_area data ijk v imax jmax kmax) (\<lambda>s. Inr (area_ratio s))"

definition calcCompressionRatio_nolossy_area_float :: "32 word list \<Rightarrow> 32 word result" where
  "calcCompressionRatio_nolossy_area_float data =
     res_bind (res_fold (area_step getFloatBin) no_area data) (\<lambda>s. Inr (area_ratio s))"

definition calcCompressionRatio_nolossy_area_double :: "64 word list \<Rightarrow> 32 word result" where
  "calcCompressionRatio_nolossy_area_double data =
     res_bind (res_fold (area_step getDoubleBin) no_area data) (\<lambda>s. Inr (area_ratio s))"

section \<open>Planes and arrays\<close>

text \<open>A loop over the planes is the loop over the array that \<open>transform_3d_array_to_1d_array\<close> makes.\<close>

lemma scan_plane_array:
  assumes "\<And>s x. step s x = Inr (g s x)"
  shows "scan_plane step s data ijk v imax jmax kmax =
    res_bind (transform_3d_array_to_1d_array data ijk v imax jmax kmax) (res_fold step s)"
proof -
  let ?h = "foldl g s"
  have cell: "res_bind (plane_value data ijk v a b) (step (?h ys)) =
      res_bind (res_bind (plane_value data ijk v a b) (\<lambda>x. Inr (ys @ [x]))) (\<lambda>t. Inr (?h t))" for a b ys
    by (cases "plane_value data ijk v a b") (simp_all add: assms)
  have row: "res_fold (\<lambda>s b. res_bind (plane_value data ijk v a b) (step s)) (?h ys) bs =
      res_bind (res_fold (\<lambda>s b. res_bind (plane_value data ijk v a b) (\<lambda>x. Inr (s @ [x]))) ys bs) (\<lambda>t. Inr (?h t))"
    for a ys bs by (rule res_fold_abs) (rule cell)
  have "res_fold (\<lambda>s a. res_fold (\<lambda>s b. res_bind (plane_value data ijk v a b) (step s)) s bs) (?h ys) as =
      res_bind (res_fold (\<lambda>s a. res_fold (\<lambda>s b. res_bind (plane_value data ijk v a b) (\<lambda>x. Inr (s @ [x]))) s bs) ys as)
        (\<lambda>t. Inr (?h t))" for ys as bs by (rule res_fold_abs) (rule row)
  from this [of _ "[]"] have planes: "res_fold (\<lambda>s a. res_fold (\<lambda>s b. res_bind (plane_value data ijk v a b) (step s)) s bs) s as =
      res_bind (res_fold (\<lambda>s a. res_fold (\<lambda>s b. res_bind (plane_value data ijk v a b) (\<lambda>x. Inr (s @ [x]))) s bs) [] as)
        (res_fold step s)" for bs as
    by (simp only: res_fold_total [OF assms] foldl.simps)
  show ?thesis
    unfolding scan_plane_def transform_3d_array_to_1d_array_def
    by (cases "plane_size ijk imax jmax kmax") (simp_all add: planes split: prod.split)
qed

lemma getFloatBin_tostr: "getFloatBin x = Inr (tostr x)"
  using float_bin_correct_double_bin_undefined by (simp add: floattostr_eq)

lemma getDoubleBin_fails: "getDoubleBin x = Inl BadShift"
  using float_bin_correct_double_bin_undefined by blast

text \<open>None of the steps over floats fails: a difference has at most 31 significant bits.\<close>

lemma significant_float:
  obtains m where "significant getFloatBin h (x :: 32 word) = Inr m" "\<And>n. m = Some n \<Longrightarrow> n \<le> 31"
proof -
  let ?m = "map_option (\<lambda>i. 32 - i) (find (\<lambda>i. tostr (fsub (predict_value h Code_d) x) ! i) [1..<32])"
  have "significant getFloatBin h x = Inr ?m" by (simp add: significant_def getFloatBin_tostr del: upt_Suc)
  moreover have "n \<le> 31" if "?m = Some n" for n
    using that by (auto simp: find_Some_iff simp del: upt_Suc)
  ultimately show thesis using that by blast
qed

lemma field_bits_range: "field_bits n = Inr w \<Longrightarrow> 5 \<le> w \<and> w \<le> 35"
  by (auto simp: field_bits_def split: if_splits)

lemma sz_step_float: "\<exists>t. sz_step getFloatBin s x = Inr t"
  by (auto simp: sz_step_def getFloatBin_tostr split: prod.split)

lemma performance_step_float: "\<exists>t. performance_step getFloatBin s x = Inr t"
proof -
  obtain h n m where s: "s = (h, n, m)" by (cases s)
  obtain k where "significant getFloatBin h x = Inr k" by (rule significant_float)
  then show ?thesis by (simp add: s performance_step_def)
qed

lemma area_step_float: "\<exists>t. area_step getFloatBin s x = Inr t"
proof -
  obtain k where k: "significant getFloatBin (known s) x = Inr k" "\<And>n. k = Some n \<Longrightarrow> n \<le> 31"
    by (rule significant_float) blast
  then show ?thesis by (cases k) (auto simp: area_step_def field_bits_def)
qed

lemma scan_plane_total:
  assumes "\<And>s x. \<exists>t. step s x = Inr t"
  shows "scan_plane step s data ijk v imax jmax kmax =
    res_bind (transform_3d_array_to_1d_array data ijk v imax jmax kmax) (res_fold step s)"
proof -
  obtain g where "\<And>s x. step s x = Inr (g s x)" using assms by metis
  then show ?thesis by (rule scan_plane_array)
qed

lemmas plane_estimates = calcCompressionRatio_himeno_sz_def calcCompressionRatio_sz_float_def
  calcCompressionRatio_himeno_nolossy_performance_def calcCompressionRatio_nolossy_performance_float_def
  calcCompressionRatio_himeno_nolossy_area_def calcCompressionRatio_nolossy_area_float_def
  calcCompressionRatio_himeno_ij_ik_jk_def myCompress_def pack_numbers_def

lemma res_fold_plane:
  assumes "\<And>a b. a \<in> set as \<Longrightarrow> b \<in> set bs \<Longrightarrow> f a b = Inr (g a b)"
  shows "res_fold (\<lambda>s a. res_fold (\<lambda>s b. res_bind (f a b) (\<lambda>x. Inr (s @ [x]))) s bs) ys as =
    Inr (ys @ concat (map (\<lambda>a. map (g a) bs) as))"
proof -
  have row: "res_fold (\<lambda>s b. res_bind (f a b) (\<lambda>x. Inr (s @ [x]))) ys bs = Inr (ys @ map (g a) bs)"
    if "a \<in> set as" for a ys using assms that by (intro res_fold_collect) simp
  then show ?thesis by (induction as arbitrary: ys) simp_all
qed

subsection \<open>The bits of the lossless estimate\<close>

text \<open>The bits that number \<open>i\<close> takes, none if it is extrapolated without any difference.\<close>

definition area_field :: "32 word list \<Rightarrow> nat \<Rightarrow> nat" where
  "area_field data i =
     (if some_unset (known_before data i) then 35
      else case significant getFloatBin (known_before data i) (data ! i) of
        Inr (Some nonzero) \<Rightarrow> (if nonzero \<le> 2 then 5 else if nonzero \<le> 4 then 7 else 35)
      | _ \<Rightarrow> 0)"

definition area_bits :: "32 word list \<Rightarrow> nat" where
  "area_bits data = sum_list (map (area_field data) [0..<length data])"

text \<open>A block that is full has no room for one more field of at most 35 bits.\<close>

definition area_ok :: "nat \<Rightarrow> 'h area \<Rightarrow> bool" where
  "area_ok need s \<longleftrightarrow> 1 \<le> cdb_num s \<and> occupied_bits s \<le> cdb - indication \<and>
     need \<le> (cdb_num s - 1) * (cdb - indication) + occupied_bits s \<and>
     (cdb_num s - 1) * (cdb - indication - 34) + occupied_bits s \<le> need"

lemma put_field_ok:
  assumes "area_ok need s" and "w \<le> 35"
  shows "area_ok (need + w) (put_field w s)"
proof -
  obtain k where k: "cdb_num s = Suc k" using assms(1) by (cases "cdb_num s") (auto simp: area_ok_def)
  then show ?thesis using assms
    by (auto simp: area_ok_def put_field_def cdb_def indication_def algebra_simps)
qed

lemma area_ok_update [simp]: "area_ok need (s\<lparr>known := h, origin_bits := n\<rparr>) = area_ok need s"
  by (simp add: area_ok_def)

lemma area_known: "area_step get_bin s x = Inr t \<Longrightarrow> known t = push_value4 (known s) x"
  by (auto simp: area_step_def res_bind_Inr_iff)

lemma area_step_ok:
  assumes "area_step getFloatBin s (data ! i) = Inr t" and "known s = known_before data i"
    and "area_ok need s" and "some_unset (known s) \<Longrightarrow> occupied_bits s \<le> 105"
  shows "area_ok (need + area_field data i) t"
proof (cases "some_unset (known s)")
  case True
  then have "area_ok (need + 35) (s\<lparr>occupied_bits := occupied_bits s + 35\<rparr>)"
    using assms(3,4) by (auto simp: area_ok_def cdb_def indication_def)
  then show ?thesis using True assms(1,2) by (auto simp: area_step_def area_field_def)
next
  case False
  obtain k where k: "significant getFloatBin (known s) (data ! i) = Inr k" "\<And>n. k = Some n \<Longrightarrow> n \<le> 31"
    by (rule significant_float) blast
  show ?thesis
  proof (cases k)
    case None
    then show ?thesis using False assms k(1) by (auto simp: area_step_def area_field_def)
  next
    case (Some n)
    let ?w = "area_field data i"
    have w: "field_bits n = Inr ?w" "?w \<le> 35"
      using False assms(2) k Some by (auto simp: area_field_def field_bits_def)
    then have "t = (put_field ?w s)\<lparr>known := push_value4 (known s) (data ! i), origin_bits := origin_bits s + 32\<rparr>"
      using False assms(1) k(1) Some by (simp add: area_step_def)
    then show ?thesis using put_field_ok [OF assms(3) w(2)] by simp
  qed
qed

lemma area_run_ok:
  assumes "\<forall>x \<in> set data. \<not> unset x" and "i \<le> length data"
    and "res_fold (area_step getFloatBin) no_area (take i data) = Inr s"
  shows "known s = known_before data i \<and> area_ok (sum_list (map (area_field data) [0..<i])) s \<and>
    (i \<le> 4 \<longrightarrow> occupied_bits s = 35 * i)"
  using assms(2,3)
proof (induction i arbitrary: s)
  case 0
  then show ?case by (auto simp: no_area_def known_before_def area_ok_def)
next
  case (Suc i)
  then have "i < length data" by simp
  then have "take (Suc i) data = take i data @ [data ! i]" by (rule take_Suc_conv_app_nth)
  then have "res_bind (res_fold (area_step getFloatBin) no_area (take i data))
      (\<lambda>r. area_step getFloatBin r (data ! i)) = Inr s"
    using Suc.prems(2) by (simp only: res_fold_append res_fold_single)
  then obtain r where r: "res_fold (area_step getFloatBin) no_area (take i data) = Inr r"
      "area_step getFloatBin r (data ! i) = Inr s"
    unfolding res_bind_Inr_iff by blast
  note IH = Suc.IH [OF _ r(1)]
  have u: "some_unset (known r) \<longleftrightarrow> i < 4"
    using IH marked_float.unset_known [OF assms(1), of i] Suc.prems(1) by simp
  then have "area_ok (sum_list (map (area_field data) [0..<i]) + area_field data i) s"
    using IH Suc.prems(1) r(2) by (intro area_step_ok) auto
  moreover have "known s = known_before data (Suc i)"
    using area_known [OF r(2)] IH Suc.prems(1) by (simp add: known_before_Suc)
  moreover have "occupied_bits s = 35 * Suc i" if "i < 4"
    using that u r(2) IH Suc.prems(1) by (auto simp: area_step_def)
  ultimately show ?case by auto
qed

context ieee_format
begin

lemma bits_counted: "foldl bits_step n data = n + length (concat (map code_bits (data :: 'w word list)))"
  by (induction data arbitrary: n) (simp_all add: bits_step_def length_code_bits kept_def)

end

section \<open>Properties\<close>

text \<open>The estimate of the bitwise codec without prediction is exact: it is the quotient of the bits
  \<open>myCompress_bitwise_double_np\<close> (for floats \<open>myCompress_bitwise_np\<close>) writes and the bits of the numbers.\<close>

theorem bitwise_estimate_exact:
  "calCompressRatio_bitwise_double ds =
     ratio (length (written (myCompress_bitwise_double_np ds empty_bitbuf))) (64 * length ds) \<and>
   calCompressRatio_bitwise_float fs =
     ratio (length (written (myCompress_bitwise_np fs empty_bitbuf))) (32 * length fs) \<and>
   calCompressRatio_bitwise_double2 fs =
     ratio (length (written (myCompress_bitwise_double_np (map fconv fs) empty_bitbuf))) (64 * length fs)"
proof -
  note bits = double.bits_counted [of 0] single.bits_counted [of 0]
  have d: "length (written (myCompress_bitwise_double_np ds empty_bitbuf)) = foldl bits_step 0 ds" for ds
    using double.myCompress_np_written [of empty_bitbuf ds] bits by (simp add: np_functions)
  have f: "length (written (myCompress_bitwise_np fs empty_bitbuf)) = foldl bits_step 0 fs"
    using single.myCompress_np_written [of empty_bitbuf fs] bits by (simp add: np_functions)
  show ?thesis
    by (simp add: d f calCompressRatio_bitwise_double_def calCompressRatio_bitwise_float_def
        calCompressRatio_bitwise_double2_def calCompressRatio_bitwise_def)
qed

text \<open>Each estimate for a plane is the estimate for the array of the plane's numbers, the same error
  included, if the array leaves its bounds or the plane is none; the estimate for the codec of characters counts
  what \<open>myCompress\<close> makes of that array.\<close>

theorem himeno_estimates_of_planes:
  "calcCompressionRatio_himeno_sz data ijk v imax jmax kmax =
     res_bind (transform_3d_array_to_1d_array data ijk v imax jmax kmax) calcCompressionRatio_sz_float \<and>
   calcCompressionRatio_himeno_nolossy_performance data ijk v imax jmax kmax =
     res_bind (transform_3d_array_to_1d_array data ijk v imax jmax kmax) calcCompressionRatio_nolossy_performance_float \<and>
   calcCompressionRatio_himeno_nolossy_area data ijk v imax jmax kmax =
     res_bind (transform_3d_array_to_1d_array data ijk v imax jmax kmax) calcCompressionRatio_nolossy_area_float \<and>
   calcCompressionRatio_himeno_ij_ik_jk data ijk v imax jmax kmax =
     res_bind (transform_3d_array_to_1d_array data ijk v imax jmax kmax) (\<lambda>xs. Inr (packed_ratio (myCompress xs)))"
proof -
  have "scan_plane (\<lambda>s x. Inr (pack_step s x)) s data ijk v imax jmax kmax =
      res_bind (transform_3d_array_to_1d_array data ijk v imax jmax kmax) (\<lambda>xs. Inr (foldl pack_step s xs))" for s
    by (simp only: scan_plane_array [OF refl] res_fold_total [OF refl])
  then show ?thesis
    by (simp add: plane_estimates [abs_def] res_bind_assoc scan_plane_total [OF sz_step_float]
        scan_plane_total [OF performance_step_float] scan_plane_total [OF area_step_float])
qed


text \<open>\<open>transform_3d_array_to_1d_array\<close> lists the numbers of the plane \<open>v\<close> row by row, if the plane lies within
  the array; for an \<open>ijk\<close> other than 1, 2 and 3 it reads variables that were never set.\<close>

theorem transform_lists_plane:
  assumes "0 \<le> v" and "imax \<le> MIMAX" and "jmax \<le> MJMAX" and "kmax \<le> MKMAX"
  shows "(v < MIMAX \<longrightarrow> transform_3d_array_to_1d_array data 1 v imax jmax kmax =
      Inr [data v a b. a \<leftarrow> [0..jmax - 1], b \<leftarrow> [0..kmax - 1]]) \<and>
    (v < MJMAX \<longrightarrow> transform_3d_array_to_1d_array data 2 v imax jmax kmax =
      Inr [data a v b. a \<leftarrow> [0..imax - 1], b \<leftarrow> [0..kmax - 1]]) \<and>
    (v < MKMAX \<longrightarrow> transform_3d_array_to_1d_array data 3 v imax jmax kmax =
      Inr [data a b v. a \<leftarrow> [0..imax - 1], b \<leftarrow> [0..jmax - 1]]) \<and>
    (ijk \<notin> {1, 2, 3} \<longrightarrow> transform_3d_array_to_1d_array data ijk v imax jmax kmax = Inl Uninitialised)"
  using assms
  by (auto simp: transform_3d_array_to_1d_array_def scan_plane_def plane_size_def plane_value_def cell_def
      intro!: res_fold_plane [of _ _ _ _ "[]", simplified])

theorem transform_lists_plane_witness:
  "transform_3d_array_to_1d_array (\<lambda>i j k. of_int (i + 10 * j + 100 * k)) 2 5 2 7 3 = Inr [50, 150, 250, 51, 151, 251]"
  using transform_lists_plane [of 5 2 7 3 "\<lambda>i j k. of_int (i + 10 * j + 100 * k)"]
  by (simp add: MIMAX_def MJMAX_def MKMAX_def upto.simps)

text \<open>The lossless estimate by areas never fails.  If no number is -1, every block has at most 507
  bits in use, all the fields have room in the \<open>cdb_num\<close> blocks, and all blocks but the last have at least 473 bits in use.\<close>

theorem area_blocks_filled:
  assumes "\<forall>x \<in> set data. \<not> unset x"
  shows "\<exists>s. res_fold (area_step getFloatBin) no_area data = Inr s \<and>
    calcCompressionRatio_nolossy_area_float data = Inr (area_ratio s) \<and>
    occupied_bits s \<le> 507 \<and> area_bits data \<le> cdb_num s * 507 \<and> (cdb_num s - 1) * 473 \<le> area_bits data"
proof -
  obtain g where "\<And>s x. area_step getFloatBin s x = Inr (g s x)" using area_step_float by metis
  then obtain s where s: "res_fold (area_step getFloatBin) no_area data = Inr s"
    using res_fold_total by metis
  then have "area_ok (area_bits data) s"
    using area_run_ok [OF assms order_refl, of s] by (simp add: area_bits_def)
  moreover obtain k where "cdb_num s = Suc k"
    using calculation by (cases "cdb_num s") (auto simp: area_ok_def)
  ultimately show ?thesis using s
    by (auto simp: area_ok_def cdb_def indication_def calcCompressionRatio_nolossy_area_float_def)
qed

theorem area_blocks_filled_witness:
  "\<exists>s. res_fold (area_step getFloatBin) no_area [0, 0, 0, 0, 0x3F800000] = Inr s \<and>
    calcCompressionRatio_nolossy_area_float [0, 0, 0, 0, 0x3F800000] = Inr (area_ratio s) \<and>
    occupied_bits s \<le> 507 \<and> area_bits [0, 0, 0, 0, 0x3F800000] \<le> cdb_num s * 507 \<and>
    (cdb_num s - 1) * 473 \<le> area_bits [0, 0, 0, 0, 0x3F800000]"
proof (rule area_blocks_filled)
  have "\<not> unset (0 :: 32 word)" "\<not> unset (0x3F800000 :: 32 word)" by code_simp+
  then show "\<forall>x \<in> set [0, 0, 0, 0, 0x3F800000 :: 32 word]. \<not> unset x" by simp
qed

text \<open>The estimates for doubles use \<open>getDoubleBin\<close>: after four numbers other than -1 the lossless ones shift
  an \<open>int\<close> by 63, after three the one for SZ does unless the fourth number is predicted.\<close>

theorem double_estimates_undefined:
  assumes "\<not> unset a" and "\<not> unset b" and "\<not> unset c" and "\<not> unset d"
  shows "calcCompressionRatio_nolossy_performance_double (a # b # c # d # x # ds) = Inl BadShift \<and>
    calcCompressionRatio_nolossy_area_double (a # b # c # d # x # ds) = Inl BadShift \<and>
    (\<not> fle (promote (fst (best_prediction \<lparr>before_value1 = c, before_value2 = b, before_value3 = a\<rparr> d))) absErrorBound \<longrightarrow>
      calcCompressionRatio_sz_double (a # b # c # d # ds) = Inl BadShift)"
  using assms marked_double.unset_minus_one
  by (simp add: calcCompressionRatio_nolossy_performance_double_def calcCompressionRatio_nolossy_area_double_def
      calcCompressionRatio_sz_double_def performance_step_def area_step_def sz_step_def no_area_def
      no_values4_def no_values_def push_value4_def push_value_def some_unset_def significant_def getDoubleBin_fails)

theorem double_estimates_undefined_witness:
  "calcCompressionRatio_nolossy_performance_double [0, 0, 0, 0, 0] = Inl BadShift \<and>
   calcCompressionRatio_nolossy_area_double [0, 0, 0, 0, 0] = Inl BadShift"
proof -
  have "\<not> unset (0 :: 64 word)" by code_simp
  then show ?thesis using double_estimates_undefined [of 0 0 0 0 0 "[]"] by simp
qed

text \<open>Two things the lossless estimates do not count.  A number that is extrapolated exactly takes no bits at all:
  1, 2, 3, 4, 5, 6, 7, 8 are estimated at half their size.  And while the first four numbers are -1
  no block is ever full: \<open>n\<close> numbers -1 leave \<open>35 n\<close> bits in the first one.\<close>

theorem lossless_estimates_undercount:
  "calcCompressionRatio_nolossy_performance_float
     [0x3F800000, 0x40000000, 0x40400000, 0x40800000, 0x40A00000, 0x40C00000, 0x40E00000, 0x41000000] = Inr 0x3F000000 \<and>
   (\<exists>s. res_fold (area_step getFloatBin) no_area (replicate n (fint (- 1))) = Inr s \<and>
      cdb_num s = 1 \<and> occupied_bits s = 35 * n)"
proof
  show "calcCompressionRatio_nolossy_performance_float
     [0x3F800000, 0x40000000, 0x40400000, 0x40800000, 0x40A00000, 0x40C00000, 0x40E00000, 0x41000000] = Inr 0x3F000000"
    by code_simp
  have "push_value4 no_values4 (fint (- 1)) = (no_values4 :: 32 word before4)" "some_unset (no_values4 :: 32 word before4)"
    using marked_float.unset_minus_one by (simp_all add: push_value4_def no_values4_def some_unset_def)
  then have one: "area_step getFloatBin s (fint (- 1)) =
      Inr (s\<lparr>occupied_bits := occupied_bits s + 35, known := no_values4, origin_bits := origin_bits s + 32\<rparr>)"
    if "known s = no_values4" for s using that by (simp add: area_step_def)
  have "\<exists>t. res_fold (area_step getFloatBin) s (replicate n (fint (- 1))) = Inr t \<and>
      cdb_num t = cdb_num s \<and> occupied_bits t = occupied_bits s + 35 * n" if "known s = no_values4" for s
    using that
  proof (induction n arbitrary: s)
    case (Suc n)
    let ?t = "s\<lparr>occupied_bits := occupied_bits s + 35, known := no_values4, origin_bits := origin_bits s + 32\<rparr>"
    have "known ?t = no_values4" by simp
    from Suc.IH [OF this] show ?case using one [OF Suc.prems] by (simp add: ac_simps)
  qed simp
  from this [of no_area] show "\<exists>s. res_fold (area_step getFloatBin) no_area (replicate n (fint (- 1))) = Inr s \<and>
      cdb_num s = 1 \<and> occupied_bits s = 35 * n"
    by (simp add: no_area_def)
qed

end
