(* ===== verification/CtBcast.thy ===== *)
theory CtBcast
  imports CompBcast ByteCodec
begin

text \<open>
  The broadcasts of the drivers \<open>mm_comp.c\<close>, \<open>lu_comp.c\<close> and \<open>kmeans_comp.c\<close> of \<open>app/src\<close>: the
  number \<open>CT\<close> on the command line chooses how an array is compressed.  8, 9 and 10 are the broadcasts of
  \<open>dataCompression.c\<close>; 1, 4, 5, 6 and 7 are written out in the drivers, without a check of what
  arrives; 0 sends the array as it is, and any other number sends nothing.  For 4 the program sz, which is not
  part of the repository, is a parameter.
\<close>

section \<open>The code\<close>

text \<open>What lies outside the program: the checksum, the messages and \<open>rand()\<close> of a checked broadcast, sz, and
  the numbers sz makes of its own output.\<close>

record surroundings =
  crc_fun :: crc32_fun
  messages :: transport
  rand_crc :: "nat \<Rightarrow> nat"
  rand_flips :: "nat \<Rightarrow> nat \<Rightarrow> nat"
  sz :: "64 word list \<Rightarrow> byte list"
  unsz :: "byte list \<Rightarrow> nat \<Rightarrow> 64 word"

text \<open>The compressions: what is added to the ratio, and the numbers the ranks other than the root take.\<close>

type_synonym received = "(counters \<Rightarrow> counters) \<times> 64 word list"

definition by_bits ::
  "(64 word list \<Rightarrow> bitbuf \<Rightarrow> bitbuf) \<Rightarrow> (byte list \<Rightarrow> nat \<Rightarrow> 64 word list result) \<Rightarrow> 64 word \<times> 64 word list \<Rightarrow> nat \<Rightarrow>
   received result" where
  "by_bits compress decompress s count =
     (case compress_root compress s of (least, data) \<Rightarrow>
        res_bind (decompress data count) (\<lambda>nums. res_bind (add_least least count nums) (\<lambda>new.
          Inr (add_ratio (length data) count, new))))"

definition by_sz :: "surroundings \<Rightarrow> 64 word list \<Rightarrow> nat \<Rightarrow> received result" where
  "by_sz sur buf count =
     (let data = sz sur buf in Inr (add_ratio (length data) count, map (unsz sur data) [0..<count]))"

definition add_char_ratio :: "nat \<Rightarrow> nat \<Rightarrow> counters \<Rightarrow> counters" where
  "add_char_ratio num_c num_p cs =
     cs\<lparr>compress_ratio := fadd (compress_ratio cs)
          (fdiv (fint (int (num_c + num_p * 8))) (fint (int ((num_c + num_p) * 8))))\<rparr>"

text \<open>When no number was predicted the ranks use an array with the single place -1.\<close>

definition by_chars :: "64 word list \<Rightarrow> nat \<Rightarrow> received result" where
  "by_chars buf count =
     (let msg = myCompress_double buf; num_p = length (array_num msg); num_c = count - num_p;
          disp = (if num_c = 0 then [-1] else array_char_displacement msg)
      in res_bind (myDecompress_double (array_num msg) (array_char msg) (Some disp) count) (\<lambda>new.
           Inr (add_char_ratio num_c num_p, new)))"

definition received :: "surroundings \<Rightarrow> int \<Rightarrow> 64 word list \<Rightarrow> nat \<Rightarrow> received result" where
  "received sur CT buf count =
     (if CT = 7 then res_bind (toSmallDataset_double buf) (\<lambda>s. res_bind (med_dataset_double (snd s) 0) (\<lambda>(medium, type).
        by_bits (\<lambda>small. myCompress_bitwise_double_mask small type (mask_of medium))
          (\<lambda>packed num. myDecompress_bitwise_double_mask packed num type (mask_of medium)) s count))
      else if CT = 6 then res_bind (toSmallDataset_double buf) (\<lambda>s.
        by_bits myCompress_bitwise_double_np myDecompress_bitwise_double_np s count)
      else if CT = 5 then res_bind (toSmallDataset_double buf) (\<lambda>s.
        by_bits myCompress_bitwise_double myDecompress_bitwise_double s count)
      else if CT = 4 then by_sz sur buf count
      else by_chars buf count)"

text \<open>Every rank decompresses, the root to add up the error.  \<open>total_gosa\<close> puts the mean error into \<open>gosa\<close>.\<close>

definition add_distance :: "64 word list \<Rightarrow> 64 word list \<Rightarrow> 64 word \<Rightarrow> nat \<Rightarrow> 64 word" where
  "add_distance new buffer gs i = fadd gs (ffabs (fsub (new ! i) (buffer ! i)))"

definition mean_error :: "bool \<Rightarrow> 64 word list \<Rightarrow> 64 word list \<Rightarrow> nat \<Rightarrow> 64 word" where
  "mean_error is_root new buffer count =
     fdiv (if is_root then foldl (add_distance new buffer) (fint 0) [0..<count] else fint 0) (fint (int count))"

definition take_received ::
  "(64 word \<Rightarrow> 64 word \<Rightarrow> 64 word) \<Rightarrow> received \<Rightarrow> nat \<Rightarrow> bool \<Rightarrow> 64 word list \<times> counters \<Rightarrow> 64 word list \<times> counters" where
  "take_received total_gosa r count is_root s =
     (case r of (count_bytes, new) \<Rightarrow> case s of (buffer, cs) \<Rightarrow>
        let cs = count_bytes cs
        in (if is_root then buffer else new @ drop count buffer,
            cs\<lparr>gosa := total_gosa (gosa cs) (mean_error is_root new buffer count)\<rparr>))"

definition MPI_Bcast_array :: "(64 word list \<times> counters) list \<Rightarrow> nat \<Rightarrow> nat \<Rightarrow> (64 word list \<times> counters) list" where
  "MPI_Bcast_array states count rt =
     map (\<lambda>(buffer, cs). (take count (fst (states ! rt)) @ drop count buffer, cs)) states"

definition bcast_ct ::
  "(64 word \<Rightarrow> 64 word \<Rightarrow> 64 word) \<Rightarrow> surroundings \<Rightarrow> int \<Rightarrow> (64 word list \<times> counters) list \<Rightarrow> nat \<Rightarrow> nat \<Rightarrow>
   (64 word list \<times> counters) list result" where
  "bcast_ct total_sz sur CT states count rt =
     (if CT = 10 then MPI_Bcast_bitwise_crc_hamming (crc_fun sur) (messages sur) (rand_flips sur) states count rt
      else if CT = 9 then MPI_Bcast_bitwise_mask_crc (crc_fun sur) (messages sur) (rand_crc sur) states count rt
      else if CT = 8 then MPI_Bcast_bitwise_crc (crc_fun sur) (messages sur) (rand_crc sur) states count rt
      else if CT \<in> {7, 6, 5, 4, 1}
      then res_bind (received sur CT (take count (fst (states ! rt))) count) (\<lambda>r.
             Inr (map (\<lambda>rank. take_received (if CT = 4 then total_sz else fadd) r count (rank = rt) (states ! rank))
               [0..<length states]))
      else if CT = 0 then Inr (MPI_Bcast_array states count rt)
      else Inr states)"

section \<open>The root keeps its array\<close>

lemma res_fold_out:
  assumes "res_fold f out xs = Inr res"
    and "\<And>out x res. x \<in> set xs \<Longrightarrow> f out x = Inr res \<Longrightarrow> \<exists>y. res = out @ [y] \<and> P x y"
  shows "\<exists>ys. res = out @ ys \<and> length ys = length xs \<and> (\<forall>i < length xs. P (xs ! i) (ys ! i))"
  using assms
proof (induction xs arbitrary: out)
  case (Cons x xs)
  then obtain mid where mid: "f out x = Inr mid" "res_fold f mid xs = Inr res"
    by (auto split: sum.splits)
  obtain y where y: "mid = out @ [y]" "P x y" using Cons.prems(2) mid(1) by (metis list.set_intros(1))
  from Cons.IH [OF mid(2)] Cons.prems(2) obtain ys where
    "res = mid @ ys" "length ys = length xs" "\<forall>i < length xs. P (xs ! i) (ys ! i)" by auto
  then show ?case using y by (intro exI [of _ "y # ys"]) (auto simp: nth_Cons split: nat.split)
qed simp

lemma finish_root: "finish decompress least count True packed (buffer, cs) = Inr s \<Longrightarrow> fst s = buffer"
  by (auto simp: finish_def res_bind_Inr_iff Let_def)

lemma checked_bcast_root:
  assumes "checked_bcast decompress tx outcome root_data states count rt = Inr new" and "rt < length states"
  shows "length new = length states \<and> fst (new ! rt) = fst (states ! rt)"
proof -
  obtain least data where r: "root_data = (least, data)" by (cases root_data)
  from assms(1) have "\<exists>ys. new = [] @ ys \<and> length ys = length [0..<length states] \<and>
      (\<forall>i < length [0..<length states]. [0..<length states] ! i = rt \<longrightarrow> fst (ys ! i) = fst (states ! ([0..<length states] ! i)))"
    unfolding r checked_bcast_def prod.case Let_def
    by (rule res_fold_out) (auto simp: res_bind_Inr_iff dest!: finish_root split: prod.splits if_splits)
  then show ?thesis using assms(2) by auto
qed

lemma checked_bcasts_root:
  assumes "MPI_Bcast_bitwise_crc crc32 tx rnd states count rt = Inr new \<or>
      MPI_Bcast_bitwise_mask_crc crc32 tx rnd states count rt = Inr new \<or>
      MPI_Bcast_bitwise_crc_hamming crc32 tx rnd' states count rt = Inr new"
    and "rt < length states"
  shows "length new = length states \<and> fst (new ! rt) = fst (states ! rt)"
proof -
  obtain decompress outcome root_data where
    "checked_bcast decompress tx outcome root_data states count rt = Inr new"
    using assms(1)
    unfolding MPI_Bcast_bitwise_crc_def MPI_Bcast_bitwise_mask_crc_def MPI_Bcast_bitwise_crc_hamming_def Let_def
    by (elim disjE) (auto simp: res_bind_Inr_iff compress_root_def split: if_splits prod.splits)
  then show ?thesis using assms(2) by (rule checked_bcast_root)
qed

lemma take_received_root: "fst (take_received add r count True s) = fst s"
  by (cases r; cases s) (simp add: take_received_def Let_def)

lemma bcast_ct_root:
  assumes "bcast_ct total_sz sur CT states count rt = Inr new" and "rt < length states"
  shows "length new = length states \<and> fst (new ! rt) = fst (states ! rt)"
proof -
  consider "CT \<in> {8, 9, 10}" | "CT \<in> {7, 6, 5, 4, 1}" | "CT = 0" | "new = states"
    using assms(1) by (auto simp: bcast_ct_def split: if_splits)
  then show ?thesis
  proof cases
    case 1
    then show ?thesis using assms(1)
      by (intro checked_bcasts_root [OF _ assms(2)]) (auto simp: bcast_ct_def)
  next
    case 2
    then show ?thesis using assms by (auto simp: bcast_ct_def res_bind_Inr_iff take_received_root)
  next
    case 3
    then show ?thesis using assms by (auto simp: bcast_ct_def MPI_Bcast_array_def split: prod.splits)
  qed simp
qed

section \<open>A network without errors\<close>

definition faultless :: "transport \<Rightarrow> bool" where
  "faultless tx \<longleftrightarrow> (\<forall>rank data crc. tx_data tx rank data = data \<and> tx_crc tx rank crc = crc \<and> tx_resend tx rank data = data)"

text \<open>What \<open>finish\<close> does, in terms of the numbers received.\<close>

lemma finish_received:
  "finish decompress least count is_root packed s =
    res_bind (decompress packed count) (\<lambda>nums. res_bind (add_least least count nums) (\<lambda>new.
      Inr (take_received fadd (id, new) count is_root s)))"
proof -
  have "foldl (add_error nums least buffer) gs is = foldl (add_distance new buffer) gs is"
    if "add_least least count nums = Inr new" "set is \<subseteq> {0..<count}" for nums new buffer gs "is"
    using that(2)
  proof (induction "is" arbitrary: gs)
    case (Cons i "is")
    then have "new ! i = fadd (nums ! i) least"
      using that(1) by (auto simp: add_least_def split: if_splits)
    then show ?case using Cons by (simp add: add_error_def add_distance_def)
  qed simp
  from this [where ?is = "[0..<count]"] show ?thesis
    by (cases s; cases "decompress packed count"; cases is_root)
      (auto simp: finish_def take_received_def mean_error_def res_bind_case Let_def split: sum.split)
qed

lemma res_fold_cong: "(\<And>s x. x \<in> set xs \<Longrightarrow> f s x = g s x) \<Longrightarrow> res_fold f s xs = res_fold g s xs"
  by (induction xs arbitrary: s) (auto split: sum.split)

lemma res_fold_constant:
  assumes "xs \<noteq> []"
  shows "res_fold (\<lambda>out x. res_bind r (\<lambda>y. Inr (out @ [h y x]))) [] xs = res_bind r (\<lambda>y. Inr (map (h y) xs))"
proof (cases r)
  case (Inl e)
  then show ?thesis using assms by (cases xs) simp_all
next
  case (Inr y)
  then have "res_fold (\<lambda>out x. res_bind r (\<lambda>y. Inr (out @ [h y x]))) out xs = Inr (out @ map (h y) xs)" for out
    by (induction xs arbitrary: out) simp_all
  then show ?thesis using Inr by simp
qed

definition without_resend :: "64 word list \<times> counters \<Rightarrow> 64 word list \<times> counters" where
  "without_resend s = (fst s, (snd s)\<lparr>resend := 0\<rparr>)"

definition forget_resend :: "(64 word list \<times> counters) list result \<Rightarrow> (64 word list \<times> counters) list result" where
  "forget_resend r = res_bind r (\<lambda>new. Inr (map without_resend new))"

lemma without_resend_received:
  "without_resend (take_received fadd (id, new) count is_root
      (fst s, if is_root then (add_ratio n count (snd s))\<lparr>resend := k\<rparr> else add_ratio n count (snd s))) =
    without_resend (take_received fadd (add_ratio n count, new) count is_root s)"
  by (cases s) (simp add: without_resend_def take_received_def Let_def)

lemma checked_bcast_faultless:
  assumes "faultless tx" and "rt < length states"
    and "\<And>rank. rank < length states \<Longrightarrow> snd (outcome rank) = data"
  shows "forget_resend (checked_bcast decompress tx outcome (least, data) states count rt) =
    forget_resend (res_bind (decompress data count) (\<lambda>nums. res_bind (add_least least count nums) (\<lambda>new.
      Inr (map (\<lambda>rank. take_received fadd (add_ratio (length data) count, new) count (rank = rt) (states ! rank))
        [0..<length states]))))"
proof -
  let ?sends = "resend_list (map (\<lambda>i. fst (outcome i)) [0..<length states]) rt (length states)"
  let ?cs = "\<lambda>rank. if rank = rt then (add_ratio (length data) count (snd (states ! rank)))
      \<lparr>resend := resend (add_ratio (length data) count (snd (states ! rank))) + length ?sends\<rparr>
    else add_ratio (length data) count (snd (states ! rank))"
  let ?new = "res_bind (decompress data count) (add_least least count)"
  have again: "receive_again tx ?sends data rt rank (outcome rank) = Inr data" if "rank < length states" for rank
    using assms(1,3) that resend_matches [OF that, of rt outcome] by (simp add: receive_again_def faultless_def)
  have "checked_bcast decompress tx outcome (least, data) states count rt =
      res_fold (\<lambda>out rank. res_bind ?new (\<lambda>new. Inr (out @ [take_received fadd (id, new) count (rank = rt)
        (fst (states ! rank), ?cs rank)]))) [] [0..<length states]"
    unfolding checked_bcast_def prod.case Let_def
    by (rule res_fold_cong) (simp add: again finish_received res_bind_assoc split: prod.split)
  also have "\<dots> = res_bind ?new (\<lambda>new. Inr (map (\<lambda>rank. take_received fadd (id, new) count (rank = rt)
      (fst (states ! rank), ?cs rank)) [0..<length states]))"
    using assms(2) by (intro res_fold_constant) auto
  finally show ?thesis
    by (simp add: forget_resend_def res_bind_assoc comp_def without_resend_received)
qed

lemma crc_outcome_faultless: "faultless tx \<Longrightarrow> snd (crc_outcome crc32 tx rnd data rt rank) = data"
  by (simp add: crc_outcome_def faultless_def Let_def)

lemma by_bits_all:
  "res_bind (by_bits compress decompress s count) (\<lambda>r. Inr (map (\<lambda>rank. take_received fadd r count (rank = rt) (states ! rank))
      [0..<length states])) =
   (case compress_root compress s of (least, data) \<Rightarrow>
     res_bind (decompress data count) (\<lambda>nums. res_bind (add_least least count nums) (\<lambda>new.
       Inr (map (\<lambda>rank. take_received fadd (add_ratio (length data) count, new) count (rank = rt) (states ! rank))
         [0..<length states]))))"
  by (simp add: by_bits_def res_bind_assoc split: prod.split)

lemma checked_by_bits:
  assumes "faultless tx" and "rt < length states"
  shows "forget_resend (checked_bcast decompress tx (crc_outcome crc32 tx rnd (snd (compress_root compress s)) rt)
      (compress_root compress s) states count rt) =
    forget_resend (res_bind (by_bits compress decompress s count) (\<lambda>r.
      Inr (map (\<lambda>rank. take_received fadd r count (rank = rt) (states ! rank)) [0..<length states])))"
proof (cases "compress_root compress s")
  case (Pair least data)
  then show ?thesis
    using checked_bcast_faultless [OF assms, of "crc_outcome crc32 tx rnd data rt" data] assms(1)
    by (simp add: by_bits_all crc_outcome_faultless)
qed

section \<open>What is received\<close>

lemma unpack_step_length:
  "unpack_step nums chars places (data, n, p) i = Inr (data', n', p') \<Longrightarrow> length data' = length data + 1"
  by (auto simp: unpack_step_def res_bind_Inr_iff split: if_splits)

lemma unpack_fold_length:
  "res_fold (unpack_step nums chars places) (data, n, p) is = Inr (data', n', p') \<Longrightarrow> length data' = length data + length is"
proof (induction "is" arbitrary: data n p)
  case (Cons i "is")
  then obtain data1 n1 p1 where "unpack_step nums chars places (data, n, p) i = Inr (data1, n1, p1)"
      "res_fold (unpack_step nums chars places) (data1, n1, p1) is = Inr (data', n', p')"
    by (auto split: sum.splits)
  then show ?case using Cons.IH unpack_step_length by fastforce
qed simp

lemma unpack_numbers_length: "unpack_numbers nums chars places num = Inr data \<Longrightarrow> length data = num"
  using unpack_fold_length [of nums chars places "[]" 0 0 "[0..<num]"] by (auto simp: unpack_numbers_def res_bind_Inr_iff)

lemma add_least_length: "add_least least num nums = Inr new \<Longrightarrow> length new = num"
  by (auto simp: add_least_def split: if_splits)

lemma received_length:
  assumes "received sur CT buf count = Inr r"
  shows "length (snd r) = count"
  using assms
  by (auto simp: received_def by_bits_def by_sz_def by_chars_def compress_root_def myDecompress_double_def res_bind_Inr_iff Let_def
      dest: add_least_length unpack_numbers_length split: if_splits prod.splits)

lemma received_keeps:
  assumes "received sur CT buf count = Inr r"
  shows "gosa (fst r cs) = gosa cs"
  using assms
  by (auto simp: received_def by_bits_def by_sz_def by_chars_def compress_root_def res_bind_Inr_iff Let_def
      add_ratio_def add_char_ratio_def split: if_splits prod.splits)

lemma add_distance_front:
  assumes "length new = count" and "set is \<subseteq> {0..<count}"
  shows "foldl (add_distance (new @ rest) buffer) gs is = foldl (add_distance new buffer) gs is"
  using assms(2)
proof (induction "is" arbitrary: gs)
  case (Cons i "is")
  then have "add_distance (new @ rest) buffer gs i = add_distance new buffer gs i"
    using assms(1) by (simp add: add_distance_def nth_append)
  then show ?case using Cons by simp
qed simp

section \<open>Properties\<close>

text \<open>C20: Over a network that delivers every message as it was sent, the checked broadcasts of the drivers do what the
  unchecked ones do: CT = 8 leaves on every rank the numbers, the ratio and the error of CT = 5, and CT = 9 those of
  CT = 7, or fails in the same way, whatever errors rand() simulates.  Only the resends differ.\<close>

theorem checked_is_unchecked:
  assumes "faultless (messages sur)" and "rt < length states"
  shows "forget_resend (bcast_ct total_sz sur 8 states count rt) = forget_resend (bcast_ct total_sz sur 5 states count rt) \<and>
    forget_resend (bcast_ct total_sz sur 9 states count rt) = forget_resend (bcast_ct total_sz sur 7 states count rt)"
proof -
  have bind: "forget_resend (res_bind r f) = forget_resend (res_bind r g)"
    if "\<And>s. forget_resend (f s) = forget_resend (g s)"
    for r :: "'x result" and f g :: "'x \<Rightarrow> (64 word list \<times> counters) list result"
    using that by (cases r) simp_all
  show ?thesis
    unfolding bcast_ct_def received_def MPI_Bcast_bitwise_crc_def MPI_Bcast_bitwise_mask_crc_def
    using checked_by_bits [OF assms]
    by (auto simp: res_bind_assoc Let_def intro!: bind split: prod.split)
qed

text \<open>Surroundings in which every CRC test fails, to run the model with: the first number \<open>rand()\<close> returns is 0.\<close>

definition quiet :: surroundings where
  "quiet = \<lparr>crc_fun = checksum, messages = altering (\<lambda>d. d), rand_crc = (\<lambda>_. 0), rand_flips = (\<lambda>_ _. 0),
     sz = (\<lambda>_. []), unsz = (\<lambda>_ _. 0)\<rparr>"

text \<open>1 and 2.5 as they are received; on two ranks they make a mean distance of 2 to the power of -22.\<close>

lemma received_example:
  "received quiet 5 [0x3FF0000000000000, 0x4004000000000000] 2 = Inr (add_ratio 5 2, [0x3FF0000000000000, 0x4004000040000000])"
proof -
  have a: "toSmallDataset_double [0x3FF0000000000000, 0x4004000000000000] = Inr (0x3FF0000000000000, [0, 0x3FF8000000000000])"
    and b: "compress_root myCompress_bitwise_double (0x3FF0000000000000, [0, 0x3FF8000000000000]) = (0x3FF0000000000000, [135, 255, 0, 0, 0])"
    and c: "res_bind (myDecompress_bitwise_double [135, 255, 0, 0, 0] 2) (add_least 0x3FF0000000000000 2) =
      Inr [0x3FF0000000000000, 0x4004000040000000]" by code_simp+
  obtain nums where "myDecompress_bitwise_double [135, 255, 0, 0, 0] 2 = Inr nums"
      "add_least 0x3FF0000000000000 2 nums = Inr [0x3FF0000000000000, 0x4004000040000000]"
    using c unfolding res_bind_Inr_iff by blast
  then show ?thesis by (simp add: received_def by_bits_def a b eval_nat_numeral)
qed

lemma bcast_example:
  "bcast_ct fadd quiet 5 [([0x3FF0000000000000, 0x4004000000000000], no_counts), ([0, 0], no_counts)] 2 0 =
    Inr (map (\<lambda>rank. take_received fadd (add_ratio 5 2, [0x3FF0000000000000, 0x4004000040000000]) 2 (rank = 0)
      ([([0x3FF0000000000000, 0x4004000000000000], no_counts), ([0, 0], no_counts)] ! rank)) [0..<2])"
  by (simp add: bcast_ct_def received_example numeral_2_eq_2 [symmetric])

theorem checked_is_unchecked_witness:
  "map fst (projr (forget_resend (bcast_ct fadd quiet 8 [([0x3FF0000000000000, 0x4004000000000000], no_counts), ([0, 0], no_counts)] 2 0))) =
    [[0x3FF0000000000000, 0x4004000000000000], [0x3FF0000000000000, 0x4004000040000000]]"
proof -
  let ?states = "[([0x3FF0000000000000, 0x4004000000000000], no_counts), ([0, 0], no_counts)]"
  have "faultless (messages quiet)" by (simp add: faultless_def quiet_def altering_def)
  then have "forget_resend (bcast_ct fadd quiet 8 ?states 2 0) = forget_resend (bcast_ct fadd quiet 5 ?states 2 0)"
    by (rule checked_is_unchecked [THEN conjunct1]) simp
  then show ?thesis
    unfolding bcast_example by (simp add: forget_resend_def without_resend_def take_received_def Let_def numeral_2_eq_2)
qed

text \<open>C21: The error the drivers report is the error the other ranks have.  After a broadcast with CT = 1, 5, 6 or 7 all ranks
  but the root hold the same numbers, the root keeps its own, and the gosa of the root has grown by the mean distance
  between the two, summed up in the order of the array.\<close>

theorem gosa_is_mean_distance:
  assumes "bcast_ct total_sz sur CT states count rt = Inr new" and "CT \<in> {1, 5, 6, 7}"
    and "rt < length states" and "rank < length states" and "rank \<noteq> rt"
  shows "fst (new ! rt) = fst (states ! rt) \<and>
    (\<exists>nums. length nums = count \<and>
       (\<forall>other < length states. other \<noteq> rt \<longrightarrow> fst (new ! other) = nums @ drop count (fst (states ! other)))) \<and>
    gosa (snd (new ! rt)) = fadd (gosa (snd (states ! rt)))
      (fdiv (foldl (add_distance (fst (new ! rank)) (fst (states ! rt))) (fint 0) [0..<count]) (fint (int count)))"
proof -
  obtain count_bytes nums where r: "received sur CT (take count (fst (states ! rt))) count = Inr (count_bytes, nums)"
    and new: "new = map (\<lambda>rank. take_received (if CT = 4 then total_sz else fadd) (count_bytes, nums) count (rank = rt) (states ! rank))
      [0..<length states]"
    using assms(1,2) by (auto simp: bcast_ct_def res_bind_Inr_iff)
  have len: "length nums = count" using received_length [OF r] by simp
  have root: "fst (new ! rt) = fst (states ! rt)" using new assms(3) by (simp add: take_received_root)
  have others: "\<forall>other < length states. other \<noteq> rt \<longrightarrow> fst (new ! other) = nums @ drop count (fst (states ! other))"
    by (simp add: new take_received_def Let_def split: prod.split)
  then have "fst (new ! rank) = nums @ drop count (fst (states ! rank))" using assms(4,5) by blast
  moreover have "gosa (snd (new ! rt)) = fadd (gosa (snd (states ! rt)))
      (fdiv (foldl (add_distance nums (fst (states ! rt))) (fint 0) [0..<count]) (fint (int count)))"
    using assms(2,3) received_keeps [OF r] by (auto simp: new take_received_def mean_error_def Let_def split: prod.split)
  ultimately show ?thesis using root others len by (auto simp: add_distance_front)
qed

theorem gosa_is_mean_distance_witness:
  "\<exists>new. bcast_ct fadd quiet 5 [([0x3FF0000000000000, 0x4004000000000000], no_counts), ([0, 0], no_counts)] 2 0 = Inr new \<and>
     fst (new ! 1) = [0x3FF0000000000000, 0x4004000040000000] \<and> gosa (snd (new ! 0)) = 0x3E90000000000000"
proof -
  let ?states = "[([0x3FF0000000000000, 0x4004000000000000 :: 64 word], no_counts), ([0, 0], no_counts)]"
  obtain new where new: "bcast_ct fadd quiet 5 ?states 2 0 = Inr new"
      "fst (new ! 1) = [0x3FF0000000000000, 0x4004000040000000]"
    unfolding bcast_example by (simp add: take_received_def Let_def numeral_2_eq_2)
  have "gosa (snd (new ! 0)) = fadd (gosa (snd (?states ! 0)))
      (fdiv (foldl (add_distance (fst (new ! 1)) (fst (?states ! 0))) (fint 0) [0..<2]) (fint (int 2)))"
    by (intro gosa_is_mean_distance [OF new(1), THEN conjunct2, THEN conjunct2]) simp_all
  moreover have "fadd (gosa no_counts) (fdiv (foldl (add_distance [0x3FF0000000000000, 0x4004000040000000]
      [0x3FF0000000000000, 0x4004000000000000]) (fint 0) [0..<2]) (fint (int 2))) = 0x3E90000000000000" by code_simp
  ultimately show ?thesis using new by simp
qed

end
