(* ===== verification/MatMul.thy ===== *)
theory MatMul
  imports AbftBcast
begin

text \<open>
  The matrix multiplication of \<open>app/src/mm/mm.c\<close>, and of \<open>mm_abft.c\<close>, which sends the matrices with
  \<open>MPI_Bcast_abft\<close>.  The program runs once per rank; the state of such a program is the list
  of what each rank holds, and a broadcast turns the root's array into one array per rank.
  The two files and the printing are left out: \<open>m_1\<close> and \<open>m_2\<close> are what
  \<open>get_matrix_struct\<close> has read.
\<close>

section \<open>The code\<close>

record matrix_struct =
  rows :: nat
  cols :: nat
  mat_data :: "64 word list list"

text \<open>\<open>calloc\<close> gives every row \<open>cols\<close> elements.\<close>

definition matrix_ok :: "matrix_struct \<Rightarrow> bool" where
  "matrix_ok m \<longleftrightarrow> length (mat_data m) = rows m \<and> (\<forall>r \<in> set (mat_data m). length r = cols m)"

definition mat_2D_to_1D :: "matrix_struct \<Rightarrow> 64 word list" where
  "mat_2D_to_1D m = concat (map (\<lambda>i. take (cols m) (mat_data m ! i)) [0..<rows m])"

text \<open>The block of rows of one rank; \<open>p0\<close> to \<open>p3\<close> are the four \<open>matrix_properties\<close>.\<close>

definition multiply_step ::
  "nat \<Rightarrow> nat \<Rightarrow> 64 word list \<Rightarrow> 64 word list \<Rightarrow> nat \<Rightarrow> nat \<Rightarrow> nat \<Rightarrow> 64 word list \<Rightarrow> nat \<Rightarrow> 64 word list result" where
  "multiply_step p1 p3 m_a m_b i j position result_matrix k =
     res_bind (nth_result m_a (i * p1 + k)) (\<lambda>a. res_bind (nth_result m_b (k * p3 + j)) (\<lambda>b.
       res_bind (nth_result result_matrix position) (\<lambda>r.
         Inr (result_matrix[position := fadd r (fmul a b)]))))"

definition multiply_rows ::
  "nat \<Rightarrow> nat \<Rightarrow> nat \<Rightarrow> nat \<Rightarrow> 64 word list \<Rightarrow> 64 word list \<Rightarrow> nat \<Rightarrow> nat \<Rightarrow> 64 word list result" where
  "multiply_rows p0 p1 p2 p3 m_a m_b num_worker rank =
     res_bind (res_fold (\<lambda>s i. res_fold (\<lambda>(result_matrix, position) j.
         res_bind (res_fold (multiply_step p1 p3 m_a m_b i j position) result_matrix [0..<p2]) (\<lambda>result_matrix.
           Inr (result_matrix, position + 1))) s [0..<p3])
       (replicate (p0 * p3 div num_worker) 0, 0)
       [rank * (p0 div num_worker)..<(rank + 1) * (p0 div num_worker)]) (\<lambda>s. Inr (fst s))"

text \<open>The whole program; \<open>share_a\<close> and \<open>share_b\<close> are the broadcasts of the two matrices.  The root
  gathers the blocks in the order of the ranks.\<close>

definition mm_main ::
  "(64 word list \<Rightarrow> 64 word list list result) \<Rightarrow> (64 word list \<Rightarrow> 64 word list list result) \<Rightarrow> nat \<Rightarrow>
   matrix_struct \<Rightarrow> matrix_struct \<Rightarrow> 64 word list result" where
  "mm_main share_a share_b num_worker m_1 m_2 =
     (if cols m_1 \<noteq> rows m_2 then Inl ExitFailure
      else if rows m_1 mod num_worker \<noteq> 0 then Inl ExitFailure
      else res_bind (share_a (mat_2D_to_1D m_1)) (\<lambda>as. res_bind (share_b (mat_2D_to_1D m_2)) (\<lambda>bs.
        res_bind (res_fold (\<lambda>out rank.
            res_bind (multiply_rows (rows m_1) (cols m_1) (rows m_2) (cols m_2) (as ! rank) (bs ! rank) num_worker rank)
              (\<lambda>result_matrix. Inr (out @ [result_matrix]))) [] [0..<num_worker])
          (\<lambda>blocks. Inr (concat blocks)))))"

definition mm :: "nat \<Rightarrow> matrix_struct \<Rightarrow> matrix_struct \<Rightarrow> 64 word list result" where
  "mm num_worker = mm_main (\<lambda>m. Inr (replicate num_worker m)) (\<lambda>m. Inr (replicate num_worker m)) num_worker"

definition mm_abft ::
  "crc32_fun \<Rightarrow> transport \<Rightarrow> transport \<Rightarrow> nat \<Rightarrow> matrix_struct \<Rightarrow> matrix_struct \<Rightarrow> 64 word list result" where
  "mm_abft crc32 tx_a tx_b num_worker =
     mm_main (\<lambda>m. MPI_Bcast_abft crc32 tx_a m (length m) 0 num_worker)
       (\<lambda>m. MPI_Bcast_abft crc32 tx_b m (length m) 0 num_worker) num_worker"

section \<open>A loop that fills an array from the front\<close>

lemma res_fold_fill:
  assumes "\<And>done m x. x \<in> set xs \<Longrightarrow> f (done @ replicate (c + m) z, length done) x =
      Inr (done @ g x @ replicate m z, length done + c)"
    and "\<And>x. x \<in> set xs \<Longrightarrow> length (g x) = c"
  shows "res_fold f (done @ replicate (c * length xs + m) z, length done) xs =
    Inr (done @ concat (map g xs) @ replicate m z, length done + c * length xs)"
  using assms
proof (induction xs arbitrary: "done")
  case (Cons x xs)
  have "f (done @ replicate (c * length (x # xs) + m) z, length done) x =
      Inr ((done @ g x) @ replicate (c * length xs + m) z, length (done @ g x))"
    using Cons.prems(1) [of x "done" "c * length xs + m"] Cons.prems(2) [of x] by (simp add: add.assoc)
  moreover have "res_fold f ((done @ g x) @ replicate (c * length xs + m) z, length (done @ g x)) xs =
      Inr ((done @ g x) @ concat (map g xs) @ replicate m z, length (done @ g x) + c * length xs)"
    using Cons.prems by (intro Cons.IH) auto
  ultimately show ?case using Cons.prems(2) [of x] by simp
qed simp

lemma index_less: "i < p \<Longrightarrow> k < n \<Longrightarrow> i * n + k < p * (n :: nat)"
proof -
  assume "i < p" "k < n"
  then have "i * n + k < Suc i * n" "Suc i * n \<le> p * n" by (simp, intro mult_le_mono1) simp
  then show ?thesis by linarith
qed

section \<open>The blocks\<close>

text \<open>An element of the product, summed up in the order of the code.\<close>

definition entry :: "nat \<Rightarrow> nat \<Rightarrow> 64 word list \<Rightarrow> 64 word list \<Rightarrow> nat \<Rightarrow> nat \<Rightarrow> 64 word" where
  "entry n p3 m_a m_b i j = foldl (\<lambda>s k. fadd s (fmul (m_a ! (i * n + k)) (m_b ! (k * p3 + j)))) 0 [0..<n]"

lemma multiply_element:
  assumes "length m_a = p0 * n" and "length m_b = n * p3" and "i < p0" and "j < p3"
  shows "res_fold (multiply_step n p3 m_a m_b i j (length done)) (done @ replicate (1 + m) 0) [0..<n] =
    Inr (done @ entry n p3 m_a m_b i j # replicate m 0)"
proof -
  have "res_fold (multiply_step n p3 m_a m_b i j (length done)) (done @ s # rest) ks =
      Inr (done @ foldl (\<lambda>s k. fadd s (fmul (m_a ! (i * n + k)) (m_b ! (k * p3 + j)))) s ks # rest)"
    if "set ks \<subseteq> {0..<n}" for ks s and rest :: "64 word list"
    using that
  proof (induction ks arbitrary: s)
    case (Cons k ks)
    then have "k < n" by simp
    then have "i * n + k < p0 * n" "k * p3 + j < n * p3"
      using assms(3,4) by (metis index_less, metis index_less)
    then show ?case using Cons assms(1,2) by (simp add: multiply_step_def)
  qed simp
  from this [of "[0..<n]" 0 "replicate m 0"] show ?thesis by (simp add: entry_def)
qed

lemma multiply_rows_block:
  assumes "length m_a = p0 * n" and "length m_b = n * p3" and "p0 mod nw = 0" and "rank < nw"
  shows "multiply_rows p0 n n p3 m_a m_b nw rank =
    Inr (concat (map (\<lambda>i. map (entry n p3 m_a m_b i) [0..<p3]) [rank * (p0 div nw)..<(rank + 1) * (p0 div nw)]))"
proof -
  let ?q = "p0 div nw" and ?element = "\<lambda>i (r, position) j.
    res_bind (res_fold (multiply_step n p3 m_a m_b i j position) r [0..<n]) (\<lambda>r. Inr (r, position + 1))"
  let ?rows = "[rank * ?q..<(rank + 1) * ?q]"
  have p0: "p0 = nw * ?q" using assms(3) by auto
  have "p0 * p3 = nw * (p3 * ?q)" by (subst p0) simp
  then have "p0 * p3 div nw = nw * (p3 * ?q) div nw" by (simp only:)
  then have size: "p0 * p3 div nw = p3 * length ?rows" using assms(4) by simp
  have "(rank + 1) * ?q \<le> nw * ?q" using assms(4) by (intro mult_le_mono1) simp
  then have i: "i < p0" if "i \<in> set ?rows" for i using that p0 by simp
  have row: "res_fold (?element i) (done @ replicate (p3 + m) 0, length done) [0..<p3] =
      Inr (done @ map (entry n p3 m_a m_b i) [0..<p3] @ replicate m 0, length done + p3)"
    if "i \<in> set ?rows" for i m "done"
  proof -
    have "?element i (done @ replicate (1 + m) 0, length done) j =
        Inr (done @ [entry n p3 m_a m_b i j] @ replicate m 0, length done + 1)" if "j \<in> set [0..<p3]" for "done" m j
      using multiply_element [OF assms(1,2) i [OF \<open>i \<in> set ?rows\<close>], of j "done" m] that by simp
    from res_fold_fill [of "[0..<p3]" "?element i" 1 0 "\<lambda>j. [entry n p3 m_a m_b i j]", OF this]
    show ?thesis by (simp add: concat_map_singleton)
  qed
  show ?thesis
    unfolding multiply_rows_def size
    using res_fold_fill [of ?rows "\<lambda>s i. res_fold (?element i) s [0..<p3]" p3 0
        "\<lambda>i. map (entry n p3 m_a m_b i) [0..<p3]" "[]" 0, OF row] by simp
qed

lemma length_mat_2D_to_1D: "matrix_ok m \<Longrightarrow> length (mat_2D_to_1D m) = rows m * cols m"
proof -
  assume m: "matrix_ok m"
  have "length (concat (map (\<lambda>i. take (cols m) (mat_data m ! i)) [0..<k])) = k * cols m" if "k \<le> rows m" for k
    using that m by (induction k) (auto simp: matrix_ok_def)
  then show ?thesis by (simp add: mat_2D_to_1D_def)
qed

lemma mat_2D_to_1D_concat: "matrix_ok m \<Longrightarrow> mat_2D_to_1D m = concat (mat_data m)"
proof -
  assume m: "matrix_ok m"
  then have "map (\<lambda>i. take (cols m) (mat_data m ! i)) [0..<rows m] = map ((!) (mat_data m)) [0..<length (mat_data m)]"
    by (intro map_cong) (auto simp: matrix_ok_def)
  then show ?thesis by (simp add: mat_2D_to_1D_def map_nth)
qed

lemma nth_mat_2D_to_1D:
  assumes "matrix_ok m" and "i < rows m" and "k < cols m"
  shows "mat_2D_to_1D m ! (i * cols m + k) = mat_data m ! i ! k"
proof -
  have "i * cols m + k < cols m * length (mat_data m)"
    using index_less [OF assms(2,3)] assms(1) by (simp add: matrix_ok_def mult.commute)
  then have "concat (mat_data m) ! (i * cols m + k) =
      mat_data m ! ((i * cols m + k) div cols m) ! ((i * cols m + k) mod cols m)"
    using assms by (intro nth_concat_const) (auto simp: matrix_ok_def)
  moreover have "(i * cols m + k) div cols m = i" "(i * cols m + k) mod cols m = k"
    using assms(3) by simp_all
  ultimately show ?thesis using assms(1) by (simp only: mat_2D_to_1D_concat)
qed

text \<open>The product of the two matrices, row by row.\<close>

definition product :: "matrix_struct \<Rightarrow> matrix_struct \<Rightarrow> 64 word list" where
  "product m_1 m_2 = concat (map (\<lambda>i. map (\<lambda>j.
     foldl (\<lambda>s k. fadd s (fmul (mat_data m_1 ! i ! k) (mat_data m_2 ! k ! j))) 0 [0..<cols m_1])
     [0..<cols m_2]) [0..<rows m_1])"

lemma entry_product:
  assumes "matrix_ok m_1" and "matrix_ok m_2" and "cols m_1 = rows m_2" and "i < rows m_1" and "j < cols m_2"
  shows "entry (cols m_1) (cols m_2) (mat_2D_to_1D m_1) (mat_2D_to_1D m_2) i j =
    foldl (\<lambda>s k. fadd s (fmul (mat_data m_1 ! i ! k) (mat_data m_2 ! k ! j))) 0 [0..<cols m_1]"
  unfolding entry_def using assms nth_mat_2D_to_1D [OF assms(1,4)]
  by (intro foldl_cong) (auto simp: nth_mat_2D_to_1D)

lemma concat_map_concat: "concat (map (\<lambda>x. concat (g x)) xs) = concat (concat (map g xs))"
  by (induction xs) simp_all

lemma product_size: "length (product m_1 m_2) = rows m_1 * cols m_2"
proof -
  have "length (concat (map (\<lambda>i. map (g i) [0..<c]) [0..<k])) = k * c" for g :: "nat \<Rightarrow> nat \<Rightarrow> 64 word" and c k :: nat
    by (induction k) simp_all
  then show ?thesis by (simp add: product_def)
qed

text \<open>The blocks of all ranks, when every rank has matrices of its own.\<close>

lemma mm_main_blocks:
  assumes "cols m_1 = rows m_2" and "rows m_1 mod nw = 0"
    and "share_a (mat_2D_to_1D m_1) = Inr as" and "share_b (mat_2D_to_1D m_2) = Inr bs"
    and "\<And>rank. rank < nw \<Longrightarrow> length (as ! rank) = rows m_1 * cols m_1 \<and> length (bs ! rank) = cols m_1 * cols m_2"
    and "\<And>rank i j. rank < nw \<Longrightarrow> i \<in> {rank * (rows m_1 div nw)..<(rank + 1) * (rows m_1 div nw)} \<Longrightarrow> j < cols m_2 \<Longrightarrow>
      entry (cols m_1) (cols m_2) (as ! rank) (bs ! rank) i j = f i j"
  shows "mm_main share_a share_b nw m_1 m_2 = Inr (concat (map (\<lambda>i. map (f i) [0..<cols m_2]) [0..<rows m_1]))"
proof -
  let ?q = "rows m_1 div nw" and ?p3 = "cols m_2"
  let ?block = "\<lambda>rank. concat (map (\<lambda>i. map (f i) [0..<?p3]) [rank * ?q..<(rank + 1) * ?q])"
  have "multiply_rows (rows m_1) (cols m_1) (rows m_2) ?p3 (as ! rank) (bs ! rank) nw rank = Inr (?block rank)"
    if r: "rank < nw" for rank
  proof -
    have "map (entry (cols m_1) ?p3 (as ! rank) (bs ! rank) i) [0..<?p3] = map (f i) [0..<?p3]"
      if "i \<in> set [rank * ?q..<(rank + 1) * ?q]" for i
      using that assms(6) [OF r] by (intro map_cong) auto
    then have same: "map (\<lambda>i. map (entry (cols m_1) ?p3 (as ! rank) (bs ! rank) i) [0..<?p3]) [rank * ?q..<(rank + 1) * ?q] =
        map (\<lambda>i. map (f i) [0..<?p3]) [rank * ?q..<(rank + 1) * ?q]"
      by (intro map_cong) auto
    have "multiply_rows (rows m_1) (cols m_1) (cols m_1) ?p3 (as ! rank) (bs ! rank) nw rank =
        Inr (concat (map (\<lambda>i. map (entry (cols m_1) ?p3 (as ! rank) (bs ! rank) i) [0..<?p3]) [rank * ?q..<(rank + 1) * ?q]))"
      using assms(2,5) r by (intro multiply_rows_block) simp_all
    then show ?thesis by (simp only: same assms(1) [symmetric])
  qed
  then have blocks: "res_fold (\<lambda>out rank. res_bind (multiply_rows (rows m_1) (cols m_1) (rows m_2) ?p3
        (as ! rank) (bs ! rank) nw rank) (\<lambda>r. Inr (out @ [r]))) [] [0..<nw] = Inr ([] @ map ?block [0..<nw])"
    by (intro res_fold_collect) simp
  have "nw * ?q = rows m_1" using assms(2) by auto
  then have "concat (map ?block [0..<nw]) = concat (map (\<lambda>i. map (f i) [0..<?p3]) [0..<rows m_1])"
    using concat_blocks [of "\<lambda>i. map (f i) [0..<?p3]" ?q nw] by (simp only: concat_map_concat)
  then show ?thesis using assms(1-4) blocks by (simp add: mm_main_def)
qed

lemma mm_main_product:
  assumes "matrix_ok m_1" and "matrix_ok m_2" and "cols m_1 = rows m_2" and "rows m_1 mod nw = 0"
    and "share_a (mat_2D_to_1D m_1) = Inr (replicate nw (mat_2D_to_1D m_1))"
    and "share_b (mat_2D_to_1D m_2) = Inr (replicate nw (mat_2D_to_1D m_2))" and "0 < nw"
  shows "mm_main share_a share_b nw m_1 m_2 = Inr (product m_1 m_2)"
  unfolding product_def
proof (rule mm_main_blocks)
  show "cols m_1 = rows m_2" "rows m_1 mod nw = 0" by (rule assms)+
  show "share_a (mat_2D_to_1D m_1) = Inr (replicate nw (mat_2D_to_1D m_1))"
    "share_b (mat_2D_to_1D m_2) = Inr (replicate nw (mat_2D_to_1D m_2))" by (rule assms)+
next
  fix rank i j
  assume r: "rank < nw" and i: "i \<in> {rank * (rows m_1 div nw)..<(rank + 1) * (rows m_1 div nw)}" and j: "j < cols m_2"
  have "(rank + 1) * (rows m_1 div nw) \<le> nw * (rows m_1 div nw)" using r by (intro mult_le_mono1) simp
  also have "\<dots> = rows m_1" using assms(4) by auto
  finally have "i < rows m_1" using i by simp
  then show "entry (cols m_1) (cols m_2) (replicate nw (mat_2D_to_1D m_1) ! rank) (replicate nw (mat_2D_to_1D m_2) ! rank) i j =
      foldl (\<lambda>s k. fadd s (fmul (mat_data m_1 ! i ! k) (mat_data m_2 ! k ! j))) 0 [0..<cols m_1]"
    using r entry_product [OF assms(1-3) _ j] by simp
qed (use assms in \<open>simp add: length_mat_2D_to_1D\<close>)

section \<open>Properties\<close>

text \<open>C12: \<open>mm\<close> returns the product of the two matrices, row by row, with every element summed up from the first column
  of the first matrix to the last, whatever the number of ranks that share the rows evenly; in particular
  no rank leaves the bounds of its arrays.  Matrices that do not fit and rows that cannot be shared evenly end the program.\<close>

theorem mm_is_product:
  assumes "matrix_ok m_1" and "matrix_ok m_2" and "0 < num_worker"
  shows "mm num_worker m_1 m_2 =
    (if cols m_1 = rows m_2 \<and> rows m_1 mod num_worker = 0 then Inr (product m_1 m_2) else Inl ExitFailure)"
  using mm_main_product [OF assms(1,2)] assms(3) by (auto simp: mm_def mm_main_def)

text \<open>Twice the first row and its negative, on two ranks: 1, 2 / -1, -2 times the column 3, 4.\<close>

theorem mm_is_product_witness:
  "mm 2 \<lparr>rows = 2, cols = 2, mat_data = [[0x3FF0000000000000, 0x4000000000000000], [0xBFF0000000000000, 0xC000000000000000]]\<rparr>
     \<lparr>rows = 2, cols = 1, mat_data = [[0x4008000000000000], [0x4010000000000000]]\<rparr> =
   Inr [0x4026000000000000, 0xC026000000000000]"
proof -
  let ?m_1 = "\<lparr>rows = 2, cols = 2, mat_data = [[0x3FF0000000000000, 0x4000000000000000], [0xBFF0000000000000, 0xC000000000000000]]\<rparr>"
    and ?m_2 = "\<lparr>rows = 2, cols = 1, mat_data = [[0x4008000000000000], [0x4010000000000000]]\<rparr>"
  have "product ?m_1 ?m_2 = [0x4026000000000000, 0xC026000000000000]" by code_simp
  moreover have "mm 2 ?m_1 ?m_2 = Inr (product ?m_1 ?m_2)"
    by (subst mm_is_product) (simp_all add: matrix_ok_def)
  ultimately show ?thesis by simp
qed

text \<open>C15: \<open>mm_abft\<close> returns the product of the matrices although the network alters the data, if for both matrices no block
  arrives with more than two wrong bits, the CRC tells altered data from the data sent, and the control messages arrive intact.\<close>

theorem mm_abft_is_product:
  assumes "matrix_ok m_1" and "matrix_ok m_2" and "cols m_1 = rows m_2" and "rows m_1 mod num_worker = 0" and "0 < num_worker"
    and "\<forall>(tx, m) \<in> {(tx_a, m_1), (tx_b, m_2)}. 0 < rows m * cols m \<and>
      (\<forall>rank < num_worker. rank \<noteq> 0 \<longrightarrow> repairable crc32 tx (concat (mat_data m)) rank)"
  shows "mm_abft crc32 tx_a tx_b num_worker m_1 m_2 = Inr (product m_1 m_2)"
proof -
  have share: "MPI_Bcast_abft crc32 tx (mat_2D_to_1D m) (length (mat_2D_to_1D m)) 0 num_worker =
      Inr (replicate num_worker (mat_2D_to_1D m))" if "(tx, m) \<in> {(tx_a, m_1), (tx_b, m_2)}" for tx m
  proof (rule abft_all_receive)
    have m: "matrix_ok m" using that assms(1,2) by auto
    note tx = bspec [OF assms(6) that, unfolded prod.case]
    show "0 < length (mat_2D_to_1D m)" using tx length_mat_2D_to_1D [OF m] by simp
    show "\<forall>rank < num_worker. rank \<noteq> 0 \<longrightarrow> repairable crc32 tx (mat_2D_to_1D m) rank"
      using tx by (simp add: mat_2D_to_1D_concat [OF m])
  qed (rule assms(5))
  then show ?thesis
    using mm_main_product [OF assms(1-4) _ _ assms(5)] by (simp add: mm_abft_def)
qed

text \<open>1.5 and 3 (two rows) times 1.5, on two ranks; two bits of the first byte of each message are flipped.\<close>

lemma repairable_1_5_3: "repairable checksum (altering (\<lambda>d. d[0 := 3])) [0x3FF8000000000000, 0x4008000000000000] rank"
proof -
  have crc: "do_crc32 checksum [3, 0, 0, 0, 0, 0, 248, 63, 0, 0, 0, 0, 0, 0, 8, 64] (length [3, 0, 0, 0, 0, 0, 248, 63, 0, 0, 0, 0, 0, 0, 8, 64 :: byte]) \<noteq>
      do_crc32 checksum [0, 0, 0, 0, 0, 0, 248, 63, 0, 0, 0, 0, 0, 0, 8, 64] (length [0, 0, 0, 0, 0, 0, 248, 63, 0, 0, 0, 0, 0, 0, 8, 64 :: byte])"
    and d: "doubles_to_bytes [0x3FF8000000000000, 0x4008000000000000] = [0, 0, 0, 0, 0, 0, 248, 63, 0, 0, 0, 0, 0, 0, 8, 64]"
    by code_simp+
  show ?thesis by (rule repairable_altering [OF d]) (use crc in \<open>simp_all add: byte_bits_def upt_rec\<close>)
qed

theorem mm_abft_is_product_witness:
  "mm_abft checksum (altering (\<lambda>d. d[0 := 3])) (altering (\<lambda>d. d[0 := 3])) 2
     \<lparr>rows = 2, cols = 1, mat_data = [[0x3FF8000000000000], [0x4008000000000000]]\<rparr>
     \<lparr>rows = 1, cols = 1, mat_data = [[0x3FF8000000000000]]\<rparr> = Inr [0x4002000000000000, 0x4012000000000000]"
proof -
  let ?m_1 = "\<lparr>rows = 2, cols = 1, mat_data = [[0x3FF8000000000000], [0x4008000000000000]]\<rparr>"
    and ?m_2 = "\<lparr>rows = 1, cols = 1, mat_data = [[0x3FF8000000000000]]\<rparr>"
  have "product ?m_1 ?m_2 = [0x4002000000000000, 0x4012000000000000]" by code_simp
  moreover have "mm_abft checksum (altering (\<lambda>d. d[0 := 3])) (altering (\<lambda>d. d[0 := 3])) 2 ?m_1 ?m_2 = Inr (product ?m_1 ?m_2)"
    by (rule mm_abft_is_product) (simp_all add: matrix_ok_def repairable_1_5 repairable_1_5_3)
  ultimately show ?thesis by simp
qed

end
