(* ===== verification/LuFact.thy ===== *)
theory LuFact
  imports AbftBcast
begin

text \<open>
  The LU decomposition of \<open>app/src/lu/lu.c\<close>, and of \<open>lu_abft.c\<close>, which sends the rows with
  \<open>MPI_Bcast_abft\<close>.  Every rank has a whole matrix, \<open>n * n\<close> numbers in one array, which it fills
  with random numbers before it starts MPI; rank \<open>j % p\<close> eliminates in row \<open>j\<close> and broadcasts
  the row.  The state is the list of the matrices of the ranks; what \<open>rand()\<close> returns to each
  of them is a parameter.
\<close>

section \<open>The code\<close>

text \<open>The elements from \<open>&A[j * n + d]\<close> to the end of row \<open>j\<close>.\<close>

definition row_from :: "nat \<Rightarrow> nat \<Rightarrow> nat \<Rightarrow> 64 word list \<Rightarrow> 64 word list" where
  "row_from n d j A = take (n - d) (drop (j * n + d) A)"

definition put_row :: "nat \<Rightarrow> nat \<Rightarrow> nat \<Rightarrow> 64 word list \<Rightarrow> 64 word list \<Rightarrow> 64 word list" where
  "put_row n d j row A = take (j * n + d) A @ row @ drop (j * n + d + length row) A"

definition forw_elim :: "64 word list \<Rightarrow> 64 word list \<Rightarrow> nat \<Rightarrow> 64 word list" where
  "forw_elim origin master_row size_mx =
     (if feq (origin ! 0) (fint 0) then origin
      else let k = fdiv (origin ! 0) (master_row ! 0)
           in (foldl (\<lambda>row i. row[i := fsub (row ! i) (fmul k (master_row ! i))]) origin [1..<size_mx])[0 := k])"

definition eliminate :: "nat \<Rightarrow> nat \<Rightarrow> 64 word list \<Rightarrow> nat \<Rightarrow> 64 word list" where
  "eliminate n d A j = put_row n d j (forw_elim (row_from n d j A) (row_from n d d A) (n - d)) A"

text \<open>One round of the outer loop: every rank eliminates in its rows; then all rows are broadcast,
  \<open>share d j row\<close> being the broadcast of row \<open>j\<close>.\<close>

definition eliminate_own :: "nat \<Rightarrow> nat \<Rightarrow> nat \<Rightarrow> nat \<Rightarrow> 64 word list \<Rightarrow> 64 word list" where
  "eliminate_own n p d rank A =
     foldl (\<lambda>A j. if j mod p = rank then eliminate n d A j else A) A [d + 1..<n]"

definition share_row ::
  "(nat \<Rightarrow> nat \<Rightarrow> 64 word list \<Rightarrow> 64 word list list result) \<Rightarrow> nat \<Rightarrow> nat \<Rightarrow> nat \<Rightarrow> 64 word list list \<Rightarrow> nat \<Rightarrow>
   64 word list list result" where
  "share_row share n p d As j =
     res_bind (share d j (row_from n d j (As ! (j mod p)))) (\<lambda>rows.
       Inr (map2 (put_row n d j) rows As))"

definition lu_step ::
  "(nat \<Rightarrow> nat \<Rightarrow> 64 word list \<Rightarrow> 64 word list list result) \<Rightarrow> nat \<Rightarrow> nat \<Rightarrow> 64 word list list \<Rightarrow> nat \<Rightarrow>
   64 word list list result" where
  "lu_step share n p As d =
     res_fold (share_row share n p d) (map (\<lambda>rank. eliminate_own n p d rank (As ! rank)) [0..<p]) [d + 1..<n]"

definition lu_main ::
  "(nat \<Rightarrow> nat \<Rightarrow> 64 word list \<Rightarrow> 64 word list list result) \<Rightarrow> nat \<Rightarrow> nat \<Rightarrow> 64 word list list \<Rightarrow>
   64 word list list result" where
  "lu_main share n p As = res_fold (lu_step share n p) As [0..<n - 1]"

definition lu :: "nat \<Rightarrow> nat \<Rightarrow> 64 word list list \<Rightarrow> 64 word list list result" where
  "lu n p = lu_main (\<lambda>d j row. Inr (replicate p row)) n p"

definition lu_abft ::
  "crc32_fun \<Rightarrow> (nat \<Rightarrow> nat \<Rightarrow> transport) \<Rightarrow> nat \<Rightarrow> nat \<Rightarrow> 64 word list list \<Rightarrow> 64 word list list result" where
  "lu_abft crc32 tx n p = lu_main (\<lambda>d j row. MPI_Bcast_abft crc32 (tx d j) row (length row) (j mod p) p) n p"

text \<open>The matrix a rank starts with, from the values of \<open>rand()\<close>, which are not negative.\<close>

definition gen_mx :: "(nat \<Rightarrow> nat) \<Rightarrow> nat \<Rightarrow> 64 word list" where
  "gen_mx rnd size_mx = map (\<lambda>i. fint (int (rnd i) mod 101 - 50)) [0..<size_mx * size_mx]"

text \<open>What the root prints of its matrix.\<close>

definition U_print :: "64 word list \<Rightarrow> nat \<Rightarrow> 64 word list list" where
  "U_print M size_mx = map (\<lambda>i. map (\<lambda>j. if j \<ge> i then M ! (i * size_mx + j) else fint 0) [0..<size_mx]) [0..<size_mx]"

definition L_print :: "64 word list \<Rightarrow> nat \<Rightarrow> 64 word list list" where
  "L_print M size_mx = map (\<lambda>i. map (\<lambda>j. if j > i then fint 0 else if i = j then fint 1 else M ! (i * size_mx + j)) [0..<size_mx]) [0..<size_mx]"

section \<open>Rows of an array\<close>

text \<open>Several rows replaced at once.\<close>

definition put_rows :: "nat \<Rightarrow> nat \<Rightarrow> (nat \<Rightarrow> 64 word list) \<Rightarrow> nat list \<Rightarrow> 64 word list \<Rightarrow> 64 word list" where
  "put_rows n d f js A = foldl (\<lambda>A j. put_row n d j (f j) A) A js"

lemma row_end: "j < n \<Longrightarrow> d \<le> n \<Longrightarrow> j * n + d \<le> n * (n :: nat)"
proof -
  assume "j < n" "d \<le> n"
  then have "j * n + d \<le> Suc j * n" "Suc j * n \<le> n * n" by (simp, intro mult_le_mono1) simp
  then show ?thesis by linarith
qed

lemma length_row_from: "length A = n * n \<Longrightarrow> j < n \<Longrightarrow> d \<le> n \<Longrightarrow> length (row_from n d j A) = n - d"
  using row_end [of j n n] by (simp add: row_from_def)

lemma length_put_row:
  "length A = n * n \<Longrightarrow> j < n \<Longrightarrow> d \<le> n \<Longrightarrow> length row = n - d \<Longrightarrow> length (put_row n d j row A) = n * n"
  using row_end [of j n n] by (simp add: put_row_def)

text \<open>Element \<open>c\<close> of row \<open>r\<close>.\<close>

lemma nth_put_row:
  assumes "length A = n * n" and "j < n" and "d \<le> n" and "length row = n - d" and "r < n" and "c < n"
  shows "put_row n d j row A ! (r * n + c) = (if r = j \<and> d \<le> c then row ! (c - d) else A ! (r * n + c))"
proof -
  have e: "j * n + n \<le> n * n" using row_end [OF assms(2) order_refl] .
  consider "r < j" | "r = j" | "j < r" by linarith
  then show ?thesis
  proof cases
    case 1
    then have "r * n + n \<le> j * n" by (metis Suc_leI add.commute mult_Suc mult_le_mono1)
    then show ?thesis using 1 assms e by (simp add: put_row_def nth_append)
  next
    case 2
    then show ?thesis using assms e by (auto simp: put_row_def nth_append)
  next
    case 3
    then have "j * n + n \<le> r * n" by (metis Suc_leI add.commute mult_Suc mult_le_mono1)
    moreover have "r * n + c < n * n" using row_end [OF assms(5), of n] assms(6) by linarith
    moreover have "\<not> r * n + c < j * n + d" "\<not> r * n + c - (j * n + d) < n - d"
      using calculation(1) assms(3) by linarith+
    ultimately show ?thesis using 3 assms e by (simp add: put_row_def nth_append)
  qed
qed

lemma nth_row_from:
  "length A = n * n \<Longrightarrow> j < n \<Longrightarrow> d \<le> n \<Longrightarrow> k < n - d \<Longrightarrow> row_from n d j A ! k = A ! (j * n + (d + k))"
  using row_end [of j n n] by (simp add: row_from_def add.assoc)

text \<open>Matrices are equal when their elements are.\<close>

lemma matrix_eqI:
  assumes "length A = n * n" and "length B = n * n"
    and "\<And>r c. r < n \<Longrightarrow> c < n \<Longrightarrow> A ! (r * n + c) = B ! (r * n + c)"
  shows "A = B"
proof (rule nth_equalityI)
  fix i
  assume "i < length A"
  then have i: "i < n * n" and "0 < n" using assms(1) by (auto intro: gr0I)
  then have "i div n < n" "i mod n < n" by (simp_all add: less_mult_imp_div_less)
  then show "A ! i = B ! i" using assms(3) [of "i div n" "i mod n"] by simp
qed (simp add: assms)

lemma length_put_rows:
  assumes "d \<le> n" and "\<And>j. j \<in> set js \<Longrightarrow> length (f j) = n - d" and "set js \<subseteq> {0..<n}"
  shows "length A = n * n \<Longrightarrow> length (put_rows n d f js A) = n * n"
  using assms by (induction js arbitrary: A) (simp_all add: put_rows_def length_put_row)

lemma nth_put_rows:
  assumes "d \<le> n" and "\<And>j. j \<in> set js \<Longrightarrow> length (f j) = n - d" and "set js \<subseteq> {0..<n}"
    and "length A = n * n" and "r < n" and "c < n"
  shows "put_rows n d f js A ! (r * n + c) = (if r \<in> set js \<and> d \<le> c then f r ! (c - d) else A ! (r * n + c))"
  using assms
proof (induction js arbitrary: A)
  case (Cons j js)
  then show ?case using nth_put_row [of A n j d "f j" r c]
    by (auto simp: put_rows_def length_put_row)
qed (simp add: put_rows_def)

section \<open>One round\<close>

text \<open>What row \<open>j\<close> becomes.\<close>

definition eliminated :: "nat \<Rightarrow> nat \<Rightarrow> 64 word list \<Rightarrow> nat \<Rightarrow> 64 word list" where
  "eliminated n d A j = forw_elim (row_from n d j A) (row_from n d d A) (n - d)"

lemma length_forw_elim [simp]: "length (forw_elim origin master_row m) = length origin"
proof -
  have "length (foldl (\<lambda>row i. row[i := fsub (row ! i) (fmul k (master_row ! i))]) row is) = length row"
    for k row and "is" :: "nat list"
    by (induction "is" arbitrary: row) simp_all
  then show ?thesis by (simp add: forw_elim_def Let_def)
qed

lemma length_eliminated:
  "length A = n * n \<Longrightarrow> j < n \<Longrightarrow> d \<le> n \<Longrightarrow> length (eliminated n d A j) = n - d"
  by (simp add: eliminated_def length_row_from)

lemma row_from_put_row:
  assumes "length A = n * n" and "j < n" and "d \<le> n" and "length row = n - d" and "r < n"
  shows "row_from n d r (put_row n d j row A) = (if r = j then row else row_from n d r A)"
proof (rule nth_equalityI)
  fix k
  assume "k < length (row_from n d r (put_row n d j row A))"
  then have k: "k < n - d" using assms by (simp add: length_row_from length_put_row)
  then show "row_from n d r (put_row n d j row A) ! k = (if r = j then row else row_from n d r A) ! k"
    using assms nth_put_row [OF assms(1-5), of "d + k"] by (simp add: nth_row_from length_put_row)
qed (use assms in \<open>simp add: length_row_from length_put_row\<close>)

text \<open>Rows are eliminated independently of each other.\<close>

lemma eliminate_rows:
  assumes "length A = n * n" and "d < n" and "distinct js" and "set js \<subseteq> {d + 1..<n}"
  shows "foldl (\<lambda>A j. if P j then eliminate n d A j else A) A js =
    put_rows n d (eliminated n d A) (filter P js) A"
proof -
  have "foldl (\<lambda>A j. if P j then eliminate n d A j else A) B js = put_rows n d (eliminated n d A) (filter P js) B"
    if "length B = n * n" "row_from n d d B = row_from n d d A" "\<forall>j \<in> set js. row_from n d j B = row_from n d j A" for B
    using that assms(3,4)
  proof (induction js arbitrary: B)
    case (Cons j js)
    let ?B = "put_row n d j (eliminated n d A j) B"
    have j: "j < n" "d < j" using Cons.prems(5) by auto
    have row: "row_from n d r ?B = (if r = j then eliminated n d A j else row_from n d r B)" if "r < n" for r
      using that j assms(1,2) Cons.prems(1) by (intro row_from_put_row) (simp_all add: length_eliminated)
    have len: "length ?B = n * n"
      using j assms(1,2) Cons.prems(1) by (intro length_put_row) (simp_all add: length_eliminated)
    have one: "eliminate n d B j = ?B" using Cons.prems by (simp add: eliminate_def eliminated_def)
    have "foldl (\<lambda>A j. if P j then eliminate n d A j else A) ?B js = put_rows n d (eliminated n d A) (filter P js) ?B"
      using Cons.prems assms(2) j row by (intro Cons.IH len) (auto split: if_splits)
    moreover have "foldl (\<lambda>A j. if P j then eliminate n d A j else A) B js = put_rows n d (eliminated n d A) (filter P js) B"
      using Cons.prems by (intro Cons.IH) auto
    ultimately show ?case by (simp add: one put_rows_def)
  qed (simp add: put_rows_def)
  then show ?thesis using assms(1) by simp
qed

text \<open>The decomposition on a single processor.\<close>

definition seq_step :: "nat \<Rightarrow> 64 word list \<Rightarrow> nat \<Rightarrow> 64 word list" where
  "seq_step n A d = foldl (eliminate n d) A [d + 1..<n]"

definition seq_lu :: "nat \<Rightarrow> nat \<Rightarrow> 64 word list \<Rightarrow> 64 word list" where
  "seq_lu n steps A = foldl (seq_step n) A [0..<steps]"

lemma seq_step_rows:
  "length A = n * n \<Longrightarrow> d < n \<Longrightarrow> seq_step n A d = put_rows n d (eliminated n d A) [d + 1..<n] A"
  using eliminate_rows [of A n d "[d + 1..<n]" "\<lambda>_. True"] by (simp add: seq_step_def del: upt_Suc)

lemma length_seq_step: "length A = n * n \<Longrightarrow> d < n \<Longrightarrow> length (seq_step n A d) = n * n"
  by (subst seq_step_rows) (auto intro!: length_put_rows simp: length_eliminated)

lemma row_seq_step:
  assumes "length A = n * n" and "d < j" and "j < n"
  shows "row_from n d j (seq_step n A d) = eliminated n d A j"
proof (rule nth_equalityI)
  have len: "length (seq_step n A d) = n * n" using assms by (intro length_seq_step) simp_all
  then show "length (row_from n d j (seq_step n A d)) = length (eliminated n d A j)"
    using assms by (simp add: length_row_from length_eliminated)
  fix k
  assume "k < length (row_from n d j (seq_step n A d))"
  then have k: "k < n - d" using assms len by (simp add: length_row_from)
  then have "row_from n d j (seq_step n A d) ! k = seq_step n A d ! (j * n + (d + k))"
    using assms len by (intro nth_row_from) simp_all
  also have "\<dots> = eliminated n d A j ! k"
    using assms k by (simp add: seq_step_rows) (subst nth_put_rows; auto simp: length_eliminated)
  finally show "row_from n d j (seq_step n A d) ! k = eliminated n d A j ! k" .
qed

section \<open>All ranks\<close>

text \<open>Where the sharing of the rows of round \<open>d\<close> has got to row \<open>i\<close>, rank \<open>rank\<close> has the rows
  before \<open>i\<close> and its own rows eliminated.\<close>

definition shared_upto :: "nat \<Rightarrow> nat \<Rightarrow> nat \<Rightarrow> 64 word list \<Rightarrow> nat \<Rightarrow> nat \<Rightarrow> 64 word list" where
  "shared_upto n p d A i rank =
     put_rows n d (eliminated n d A) [d + 1..<i]
       (put_rows n d (eliminated n d A) (filter (\<lambda>j. j mod p = rank) [d + 1..<n]) A)"

lemma shared_upto_all:
  assumes "length A = n * n" and "d < n"
  shows "shared_upto n p d A n rank = seq_step n A d"
proof (rule matrix_eqI)
  have own: "length (put_rows n d (eliminated n d A) (filter (\<lambda>j. j mod p = rank) [d + 1..<n]) A) = n * n"
    using assms by (intro length_put_rows) (auto simp: length_eliminated)
  then show "length (shared_upto n p d A n rank) = n * n"
    unfolding shared_upto_def using assms by (intro length_put_rows) (auto simp: length_eliminated)
  show "length (seq_step n A d) = n * n" using assms by (rule length_seq_step)
  show "shared_upto n p d A n rank ! (r * n + c) = seq_step n A d ! (r * n + c)" if "r < n" "c < n" for r c
  proof -
    have nth: "put_rows n d (eliminated n d A) js B ! (r * n + c) =
        (if r \<in> set js \<and> d \<le> c then eliminated n d A r ! (c - d) else B ! (r * n + c))"
      if "set js \<subseteq> {d + 1..<n}" "length B = n * n" for js B
      using that assms \<open>r < n\<close> \<open>c < n\<close> by (intro nth_put_rows) (auto simp: length_eliminated)
    have js: "set [d + 1..<n] \<subseteq> {d + 1..<n}" "set (filter (\<lambda>j. j mod p = rank) [d + 1..<n]) \<subseteq> {d + 1..<n}" by auto
    show ?thesis unfolding shared_upto_def seq_step_rows [OF assms] nth [OF js(1) own] nth [OF js(1) assms(1)]
      using nth [OF js(2) assms(1)] by simp
  qed
qed

lemma share_row_upto:
  assumes "length A = n * n" and "d < i" and "i < n" and "0 < p"
    and "share d i (eliminated n d A i) = Inr (replicate p (eliminated n d A i))"
  shows "share_row share n p d (map (shared_upto n p d A i) [0..<p]) i = Inr (map (shared_upto n p d A (Suc i)) [0..<p])"
proof -
  let ?f = "eliminated n d A"
  let ?own = "\<lambda>rank. put_rows n d ?f (filter (\<lambda>j. j mod p = rank) [d + 1..<n]) A"
  have len: "length (?own rank) = n * n" "length (shared_upto n p d A i rank) = n * n" for rank
  proof -
    show "length (?own rank) = n * n" using assms(1-3) by (intro length_put_rows) (auto simp: length_eliminated)
    then show "length (shared_upto n p d A i rank) = n * n"
      unfolding shared_upto_def using assms(1-3) by (intro length_put_rows) (auto simp: length_eliminated)
  qed
  have "row_from n d i (shared_upto n p d A i (i mod p)) = ?f i"
  proof (rule nth_equalityI)
    show "length (row_from n d i (shared_upto n p d A i (i mod p))) = length (?f i)"
      using assms(1-3) len by (simp add: length_row_from length_eliminated)
    fix k
    assume "k < length (row_from n d i (shared_upto n p d A i (i mod p)))"
    then have k: "k < n - d" using assms(2,3) len by (simp add: length_row_from)
    then have "row_from n d i (shared_upto n p d A i (i mod p)) ! k = shared_upto n p d A i (i mod p) ! (i * n + (d + k))"
      using assms(2,3) len by (intro nth_row_from) simp_all
    also have "\<dots> = ?own (i mod p) ! (i * n + (d + k))"
      unfolding shared_upto_def using assms(1-3) len k by (subst nth_put_rows) (auto simp: length_eliminated)
    also have "\<dots> = ?f i ! k"
      using assms(1-3) k by (subst nth_put_rows) (auto simp: length_eliminated)
    finally show "row_from n d i (shared_upto n p d A i (i mod p)) ! k = ?f i ! k" .
  qed
  moreover have "put_row n d i (?f i) (shared_upto n p d A i rank) = shared_upto n p d A (Suc i) rank" for rank
    using assms(2) by (simp add: shared_upto_def put_rows_def)
  moreover have "map2 (put_row n d i) (replicate p (?f i)) (map (shared_upto n p d A i) [0..<p]) =
      map (\<lambda>rank. put_row n d i (?f i) (shared_upto n p d A i rank)) [0..<p]"
    by (rule nth_equalityI) simp_all
  ultimately show ?thesis using assms(4,5) by (simp add: share_row_def)
qed

lemma lu_step_all:
  assumes "length A = n * n" and "d < n" and "0 < p"
    and "\<And>j. d < j \<Longrightarrow> j < n \<Longrightarrow> share d j (eliminated n d A j) = Inr (replicate p (eliminated n d A j))"
  shows "lu_step share n p (replicate p A) d = Inr (replicate p (seq_step n A d))"
proof -
  have start: "map (\<lambda>rank. eliminate_own n p d rank (replicate p A ! rank)) [0..<p] = map (shared_upto n p d A (d + 1)) [0..<p]"
    using assms(1,2) eliminate_rows [of A n d "[d + 1..<n]"]
    by (intro map_cong) (auto simp: eliminate_own_def shared_upto_def put_rows_def)
  have "res_fold (share_row share n p d) (map (shared_upto n p d A (d + 1)) [0..<p]) [d + 1..<i] =
      Inr (map (shared_upto n p d A i) [0..<p])" if "d + 1 \<le> i" "i \<le> n" for i
    using that
  proof (induction i rule: dec_induct)
    case (step i)
    then have "share_row share n p d (map (shared_upto n p d A i) [0..<p]) i = Inr (map (shared_upto n p d A (Suc i)) [0..<p])"
      using assms by (intro share_row_upto) auto
    then show ?case using step by (simp add: res_fold_append res_fold_single)
  qed simp
  from this [of n] have "lu_step share n p (replicate p A) d = Inr (map (shared_upto n p d A n) [0..<p])"
    using assms(2) by (simp add: lu_step_def start del: upt_Suc)
  also have "map (shared_upto n p d A n) [0..<p] = replicate p (seq_step n A d)"
    using shared_upto_all [OF assms(1,2)] by (intro nth_equalityI) simp_all
  finally show ?thesis .
qed

lemma seq_lu_Suc: "seq_lu n (Suc d) A = seq_step n (seq_lu n d A) d"
  by (simp add: seq_lu_def)

lemma length_seq_lu: "length A = n * n \<Longrightarrow> d < n \<Longrightarrow> length (seq_lu n d A) = n * n"
  by (induction d) (simp_all add: seq_lu_Suc length_seq_step, simp add: seq_lu_def)

lemma lu_main_all:
  assumes "length A = n * n" and "0 < p"
    and "\<And>d j. d < j \<Longrightarrow> j < n \<Longrightarrow> share d j (row_from n d j (seq_lu n (Suc d) A)) =
      Inr (replicate p (row_from n d j (seq_lu n (Suc d) A)))"
  shows "lu_main share n p (replicate p A) = Inr (replicate p (seq_lu n (n - 1) A))"
proof -
  have "res_fold (lu_step share n p) (replicate p A) [0..<d] = Inr (replicate p (seq_lu n d A))" if "d \<le> n - 1" for d
    using that
  proof (induction d)
    case (Suc d)
    then have d: "d < n" by simp
    note len = length_seq_lu [OF assms(1) d]
    have "share d j (eliminated n d (seq_lu n d A) j) = Inr (replicate p (eliminated n d (seq_lu n d A) j))"
      if "d < j" "j < n" for j
      using assms(3) [OF that] row_seq_step [OF len that] by (simp add: seq_lu_Suc)
    then have "lu_step share n p (replicate p (seq_lu n d A)) d = Inr (replicate p (seq_step n (seq_lu n d A) d))"
      by (rule lu_step_all [OF len d assms(2)])
    then show ?case using Suc by (simp add: res_fold_append res_fold_single seq_lu_Suc)
  qed (simp add: seq_lu_def)
  then show ?thesis by (simp add: lu_main_def)
qed

section \<open>The recurrence of the decomposition\<close>

text \<open>Element \<open>r\<close>, \<open>c\<close> before round \<open>d\<close>: below the diagonal a column of the left matrix is found in the
  round of its number, every other element of the rows below loses its multiple of the row \<open>d\<close>; a row
  with a zero in column \<open>d\<close> stays as it is.\<close>

fun lu_element :: "(nat \<Rightarrow> nat \<Rightarrow> 64 word) \<Rightarrow> nat \<Rightarrow> nat \<Rightarrow> nat \<Rightarrow> 64 word" where
  "lu_element a 0 r c = a r c"
| "lu_element a (Suc d) r c =
     (let e = lu_element a d in
      if r \<le> d \<or> c < d \<or> feq (e r d) (fint 0) then e r c
      else if c = d then fdiv (e r d) (e d d)
      else fsub (e r c) (fmul (fdiv (e r d) (e d d)) (e d c)))"

lemma nth_forw_elim:
  assumes "0 < m" and "length origin = m" and "i < m"
  shows "forw_elim origin master_row m ! i =
    (if feq (origin ! 0) (fint 0) then origin ! i
     else if i = 0 then fdiv (origin ! 0) (master_row ! 0)
     else fsub (origin ! i) (fmul (fdiv (origin ! 0) (master_row ! 0)) (master_row ! i)))"
proof -
  have "foldl (\<lambda>row i. row[i := fsub (row ! i) (fmul k (master_row ! i))]) origin [1..<j] ! i =
      (if 1 \<le> i \<and> i < j then fsub (origin ! i) (fmul k (master_row ! i)) else origin ! i) \<and>
    length (foldl (\<lambda>row i. row[i := fsub (row ! i) (fmul k (master_row ! i))]) origin [1..<j]) = m"
    if "j \<le> m" for k i j
    using that assms(2)
  proof (induction j arbitrary: i)
    case (Suc j)
    show ?case
    proof (cases "1 \<le> j")
      case True
      then have "[1..<Suc j] = [1..<j] @ [j]" by simp
      then show ?thesis using Suc.IH Suc.prems by (auto simp: nth_list_update simp del: upt_Suc)
    next
      case False
      then have "j = 0" by simp
      then show ?thesis using Suc.prems by auto
    qed
  qed simp
  note row = this [OF order_refl]
  show ?thesis using row assms by (auto simp: forw_elim_def Let_def)
qed

lemma nth_seq_step:
  assumes "length A = n * n" and "d < n" and "r < n" and "c < n"
  shows "seq_step n A d ! (r * n + c) =
    (if r \<le> d \<or> c < d \<or> feq (A ! (r * n + d)) (fint 0) then A ! (r * n + c)
     else if c = d then fdiv (A ! (r * n + d)) (A ! (d * n + d))
     else fsub (A ! (r * n + c)) (fmul (fdiv (A ! (r * n + d)) (A ! (d * n + d))) (A ! (d * n + c))))"
proof -
  have rows: "seq_step n A d ! (r * n + c) =
      (if r \<in> set [d + 1..<n] \<and> d \<le> c then eliminated n d A r ! (c - d) else A ! (r * n + c))"
    unfolding seq_step_rows [OF assms(1,2)]
    using assms by (intro nth_put_rows) (auto simp: length_eliminated)
  have nth: "row_from n d j A ! k = A ! (j * n + (d + k))" if "j < n" "k < n - d" for j k
    using nth_row_from [OF assms(1) that(1)] assms(2) that(2) by simp
  show ?thesis
  proof (cases "d < r \<and> d \<le> c")
    case True
    then have "eliminated n d A r ! (c - d) = (if feq (A ! (r * n + d)) (fint 0) then A ! (r * n + c)
        else if c = d then fdiv (A ! (r * n + d)) (A ! (d * n + d))
        else fsub (A ! (r * n + c)) (fmul (fdiv (A ! (r * n + d)) (A ! (d * n + d))) (A ! (d * n + c))))"
      using assms nth [of r] nth [of d] unfolding eliminated_def
      by (subst nth_forw_elim) (auto simp: length_row_from)
    then show ?thesis unfolding rows using True assms(3) by simp
  qed (use rows in auto)
qed

lemma nth_seq_lu:
  assumes "length A = n * n" and "d < n" and "r < n" and "c < n"
  shows "seq_lu n d A ! (r * n + c) = lu_element (\<lambda>r c. A ! (r * n + c)) d r c"
  using assms(2-4)
proof (induction d arbitrary: r c)
  case (Suc d)
  then have d: "d < n" by simp
  note IH = Suc.IH [OF d]
  show ?case
    unfolding seq_lu_Suc nth_seq_step [OF length_seq_lu [OF assms(1) d] d Suc.prems(2,3)] lu_element.simps Let_def
    using IH d Suc.prems(2,3) by simp
qed (simp add: seq_lu_def)

section \<open>Properties\<close>

definition lu_matrix :: "(nat \<Rightarrow> nat \<Rightarrow> 64 word) \<Rightarrow> nat \<Rightarrow> 64 word list" where
  "lu_matrix a n = concat (map (\<lambda>r. map (lu_element a (n - 1) r) [0..<n]) [0..<n])"

lemma seq_lu_matrix:
  assumes "length A = n * n"
  shows "seq_lu n (n - 1) A = lu_matrix (\<lambda>r c. A ! (r * n + c)) n"
proof -
  let ?g = "lu_element (\<lambda>r c. A ! (r * n + c)) (n - 1)"
  have len: "length (concat (map (\<lambda>r. map (?g r) [0..<n]) [0..<k])) = k * n" for k by (induction k) simp_all
  show ?thesis
  proof (rule matrix_eqI)
    show "length (seq_lu n (n - 1) A) = n * n"
      using assms by (cases "n = 0") (simp_all add: seq_lu_def, simp add: length_seq_lu flip: seq_lu_def)
    show "length (lu_matrix (\<lambda>r c. A ! (r * n + c)) n) = n * n" unfolding lu_matrix_def by (rule len)
    show "seq_lu n (n - 1) A ! (r * n + c) = lu_matrix (\<lambda>r c. A ! (r * n + c)) n ! (r * n + c)"
      if "r < n" "c < n" for r c
    proof -
      have "r * n + c < n * n" using row_end [OF that(1), of n] that(2) by linarith
      then have "concat (map (\<lambda>r. map (?g r) [0..<n]) [0..<n]) ! (r * n + c) =
          map (\<lambda>r. map (?g r) [0..<n]) [0..<n] ! ((r * n + c) div n) ! ((r * n + c) mod n)"
        using that by (intro nth_concat_const) auto
      then show ?thesis using nth_seq_lu [OF assms, of "n - 1" r c] that by (simp add: lu_matrix_def)
    qed
  qed
qed

text \<open>C13: If all ranks have drawn the same random numbers, every rank ends with the same matrix, whatever the number of ranks;
  its elements are those of the recurrence of the decomposition.\<close>

theorem lu_ranks_agree:
  assumes "0 < p" and "\<forall>rank < p. \<forall>i < n * n. rnds rank i = rnds 0 i"
  shows "lu n p (map (\<lambda>rank. gen_mx (rnds rank) n) [0..<p]) =
    Inr (replicate p (lu_matrix (\<lambda>r c. gen_mx (rnds 0) n ! (r * n + c)) n))"
proof -
  have same: "gen_mx (rnds rank) n = gen_mx (rnds 0) n" if "rank < p" for rank
  proof -
    have "\<forall>i < n * n. rnds rank i = rnds 0 i" using assms(2) that by blast
    then show ?thesis by (simp add: gen_mx_def)
  qed
  have "map (\<lambda>rank. gen_mx (rnds rank) n) [0..<p] = map (\<lambda>_. gen_mx (rnds 0) n) [0..<p]"
  proof (rule map_cong [OF refl])
    fix rank
    assume "rank \<in> set [0..<p]"
    then have "rank < p" by simp
    then show "gen_mx (rnds rank) n = gen_mx (rnds 0) n" by (rule same)
  qed
  then have start: "map (\<lambda>rank. gen_mx (rnds rank) n) [0..<p] = replicate p (gen_mx (rnds 0) n)"
    by (simp only: map_replicate_const length_upt diff_zero)
  have len: "length (gen_mx (rnds 0) n) = n * n" by (simp add: gen_mx_def)
  show ?thesis
    unfolding lu_def start seq_lu_matrix [OF len, symmetric] by (intro lu_main_all len assms(1) refl)
qed

text \<open>Two ranks, a matrix of two rows, both ranks drawing 51, 52, 53, 54, 51, ...: 1 and 2, 3 and 4.\<close>

theorem lu_ranks_agree_witness:
  "lu 2 2 (map (\<lambda>rank. gen_mx (\<lambda>i. 51 + i mod 4) 2) [0..<2]) =
    Inr (replicate 2 [0x3FF0000000000000, 0x4000000000000000, 0x4008000000000000, 0xC000000000000000])"
proof -
  have "lu_matrix (\<lambda>r c. gen_mx (\<lambda>i. 51 + i mod 4) 2 ! (r * 2 + c)) 2 =
      [0x3FF0000000000000, 0x4000000000000000, 0x4008000000000000, 0xC000000000000000]" by code_simp
  then show ?thesis using lu_ranks_agree [of 2 2 "\<lambda>_ i. 51 + i mod 4"] by simp
qed

text \<open>C16: The same over a network that alters the data: every rank of \<open>lu_abft\<close> ends with the matrix of the recurrence, if
  each row, as it is sent in its round, arrives with at most two wrong bits per block, the CRC tells it from other data
  and the control messages arrive intact.\<close>

theorem lu_abft_ranks_agree:
  assumes "0 < p" and "length A = n * n"
    and "\<forall>d j rank. d < j \<and> j < n \<and> rank < p \<and> rank \<noteq> j mod p \<longrightarrow>
      repairable crc32 (tx d j) (map (\<lambda>c. lu_element (\<lambda>r c. A ! (r * n + c)) (Suc d) j c) [d..<n]) rank"
  shows "lu_abft crc32 tx n p (replicate p A) = Inr (replicate p (lu_matrix (\<lambda>r c. A ! (r * n + c)) n))"
proof -
  have "MPI_Bcast_abft crc32 (tx d j) row (length row) (j mod p) p = Inr (replicate p row)"
    if "d < j" "j < n" "row = row_from n d j (seq_lu n (Suc d) A)" for d j row
  proof (rule abft_all_receive)
    have len: "length (seq_lu n (Suc d) A) = n * n" using that(1,2) by (intro length_seq_lu assms(2)) simp
    have row: "row = map (\<lambda>c. lu_element (\<lambda>r c. A ! (r * n + c)) (Suc d) j c) [d..<n]"
    proof (rule nth_equalityI)
      show "length row = length (map (\<lambda>c. lu_element (\<lambda>r c. A ! (r * n + c)) (Suc d) j c) [d..<n])"
        using that len by (simp add: length_row_from)
      fix k
      assume "k < length row"
      then have k: "k < n - d" using that len by (simp add: length_row_from)
      then have "row ! k = seq_lu n (Suc d) A ! (j * n + (d + k))"
        using that len by (simp add: nth_row_from)
      also have "\<dots> = lu_element (\<lambda>r c. A ! (r * n + c)) (Suc d) j (d + k)"
        using that k by (intro nth_seq_lu assms(2)) simp_all
      finally show "row ! k = map (\<lambda>c. lu_element (\<lambda>r c. A ! (r * n + c)) (Suc d) j c) [d..<n] ! k"
        using k by (simp del: lu_element.simps)
    qed
    show "0 < length row" using that len by (simp add: length_row_from)
    show "j mod p < p" using assms(1) by simp
    show "\<forall>rank < p. rank \<noteq> j mod p \<longrightarrow> repairable crc32 (tx d j) row rank"
      using assms(3) that(1,2) unfolding row by blast
  qed
  then show ?thesis
    unfolding lu_abft_def seq_lu_matrix [OF assms(2), symmetric] by (intro lu_main_all assms(1,2)) blast
qed

text \<open>1, 2 and 3, 4 on two ranks: the only message is the row 3, -2, two bits of which are flipped.\<close>

theorem lu_abft_ranks_agree_witness:
  "lu_abft checksum (\<lambda>d j. altering (\<lambda>d. d[0 := 3])) 2 2
     (replicate 2 [0x3FF0000000000000, 0x4000000000000000, 0x4008000000000000, 0x4010000000000000]) =
   Inr (replicate 2 [0x3FF0000000000000, 0x4000000000000000, 0x4008000000000000, 0xC000000000000000])"
proof -
  let ?A = "[0x3FF0000000000000, 0x4000000000000000, 0x4008000000000000, 0x4010000000000000 :: 64 word]"
  let ?a = "\<lambda>r c. ?A ! (r * 2 + c)"
  have crc: "do_crc32 checksum [3, 0, 0, 0, 0, 0, 8, 64, 0, 0, 0, 0, 0, 0, 0, 192] (length [3, 0, 0, 0, 0, 0, 8, 64, 0, 0, 0, 0, 0, 0, 0, 192 :: byte]) \<noteq>
      do_crc32 checksum [0, 0, 0, 0, 0, 0, 8, 64, 0, 0, 0, 0, 0, 0, 0, 192] (length [0, 0, 0, 0, 0, 0, 8, 64, 0, 0, 0, 0, 0, 0, 0, 192 :: byte])"
    and d: "doubles_to_bytes (map (\<lambda>c. lu_element ?a (Suc 0) 1 c) [0..<2]) = [0, 0, 0, 0, 0, 0, 8, 64, 0, 0, 0, 0, 0, 0, 0, 192]"
    and m: "lu_matrix ?a 2 = [0x3FF0000000000000, 0x4000000000000000, 0x4008000000000000, 0xC000000000000000]"
    by code_simp+
  have "repairable checksum (altering (\<lambda>d. d[0 := 3])) (map (\<lambda>c. lu_element ?a (Suc 0) 1 c) [0..<2]) rank" for rank
    by (rule repairable_altering [OF d])
      (use crc in \<open>simp_all add: byte_bits_def upt_rec del: lu_element.simps\<close>)
  moreover have "d = 0 \<and> j = 1" if "d < j" "j < 2" for d j :: nat using that by linarith
  ultimately have "\<forall>d j rank. d < j \<and> j < 2 \<and> rank < 2 \<and> rank \<noteq> j mod 2 \<longrightarrow>
      repairable checksum (altering (\<lambda>d. d[0 := 3])) (map (\<lambda>c. lu_element ?a (Suc d) j c) [d..<2]) rank"
    by blast
  then show ?thesis
    using lu_abft_ranks_agree [of 2 ?A 2 checksum "\<lambda>_ _. altering (\<lambda>d. d[0 := 3])"] m by simp
qed

text \<open>Two ranks that have drawn different numbers, 1, 2 / 3, 4 and 2, 1 / 4, 2, end with rows of different matrices, and the
  root's result is the decomposition of neither.  And a zero on the diagonal is divided by: 0, 1 / 1, 0 gives an infinite
  factor and a negative infinity.\<close>

theorem lu_needs_equal_matrices_and_pivots:
  "lu 2 2 [[0x3FF0000000000000, 0x4000000000000000, 0x4008000000000000, 0x4010000000000000],
      [0x4000000000000000, 0x3FF0000000000000, 0x4010000000000000, 0x4000000000000000]] =
    Inr [[0x3FF0000000000000, 0x4000000000000000, 0x4000000000000000, 0x0000000000000000],
      [0x4000000000000000, 0x3FF0000000000000, 0x4000000000000000, 0x0000000000000000]] \<and>
   lu 2 1 [[0x0000000000000000, 0x3FF0000000000000, 0x3FF0000000000000, 0x0000000000000000]] =
    Inr [[0x0000000000000000, 0x3FF0000000000000, finf False, finf True]]"
  by code_simp

end
