(* ===== verification/LinAlgComp.thy ===== *)
theory LinAlgComp
  imports CtBcast MatMul LuFact
begin

text \<open>
  The programs \<open>mm_comp.c\<close> and \<open>lu_comp.c\<close> of \<open>app/src\<close>: the programs of \<open>MatMul\<close> and
  \<open>LuFact\<close> with the broadcasts of \<open>CtBcast\<close>.  Every rank has the counters of the
  compression ratio, of the error and of the resends; what \<open>malloc\<close> leaves in the array of a rank that has
  not received anything is a parameter.
\<close>

section \<open>Matrix multiplication\<close>

definition mm_comp ::
  "surroundings \<Rightarrow> surroundings \<Rightarrow> int \<Rightarrow> (nat \<Rightarrow> 64 word list) \<Rightarrow> (nat \<Rightarrow> 64 word list) \<Rightarrow> nat \<Rightarrow>
   matrix_struct \<Rightarrow> matrix_struct \<Rightarrow> (64 word list \<times> counters list) result" where
  "mm_comp sur_a sur_b CT heap_a heap_b num_worker m_1 m_2 =
     (if cols m_1 \<noteq> rows m_2 then Inl ExitFailure
      else if rows m_1 mod num_worker \<noteq> 0 then Inl ExitFailure
      else let m_a = mat_2D_to_1D m_1; m_b = mat_2D_to_1D m_2 in
        res_bind (bcast_ct fadd sur_a CT
          (map (\<lambda>rank. (if rank = 0 then m_a else heap_a rank, no_counts)) [0..<num_worker]) (length m_a) 0) (\<lambda>as.
        res_bind (bcast_ct fadd sur_b CT
          (map (\<lambda>rank. (if rank = 0 then m_b else heap_b rank, snd (as ! rank))) [0..<num_worker]) (length m_b) 0) (\<lambda>bs.
        res_bind (mm_main (\<lambda>_. Inr (map fst as)) (\<lambda>_. Inr (map fst bs)) num_worker m_1 m_2) (\<lambda>final_matrix.
          Inr (final_matrix, map snd bs)))))"

text \<open>A broadcast that all ranks take part in.\<close>

lemma bcast_0:
  assumes "\<And>s. s \<in> set states \<Longrightarrow> length (fst s) = count" and "rt < length states"
  shows "bcast_ct total_sz sur 0 states count rt = Inr (map (\<lambda>s. (fst (states ! rt), snd s)) states)"
  using assms by (auto simp: bcast_ct_def MPI_Bcast_array_def split: prod.splits)

lemma bcast_0_start:
  assumes "bcast_ct total_sz sur 0 (map (\<lambda>rank. (if rank = 0 then a else heap rank, cs rank)) [0..<p]) (length a) 0 = Inr new"
    and "0 < p" and "\<forall>rank. length (heap rank) = length a"
  shows "map fst new = replicate p a"
proof -
  let ?states = "map (\<lambda>rank. (if rank = 0 then a else heap rank, cs rank)) [0..<p]"
  have "bcast_ct total_sz sur 0 ?states (length a) 0 = Inr (map (\<lambda>s. (fst (?states ! 0), snd s)) ?states)"
    using assms(2,3) by (intro bcast_0) auto
  then show ?thesis using assms(1,2) by (auto simp: comp_def map_replicate_const)
qed

text \<open>On a single rank nothing is received.\<close>

lemma bcast_single:
  assumes "bcast_ct total_sz sur CT [(buffer, cs)] count 0 = Inr new"
  obtains cs' where "new = [(buffer, cs')]"
proof -
  have "length new = 1" "fst (new ! 0) = buffer" using bcast_ct_root [OF assms] by simp_all
  then show ?thesis using that by (cases new) (auto simp: prod_eq_iff)
qed

lemma bcast_received:
  assumes "received sur CT a (length a) = Inr (count_bytes, new)" and "CT \<in> {1, 4, 5, 6, 7}"
    and "0 < p" and "\<forall>rank. length (heap rank) = length a"
  shows "\<exists>st. bcast_ct fadd sur CT (map (\<lambda>rank. (if rank = 0 then a else heap rank, cs rank)) [0..<p]) (length a) 0 = Inr st \<and>
    length st = p \<and> (\<forall>rank < p. fst (st ! rank) = (if rank = 0 then a else new))"
proof -
  let ?states = "map (\<lambda>rank. (if rank = 0 then a else heap rank, cs rank)) [0..<p]"
  let ?st = "map (\<lambda>rank. take_received fadd (count_bytes, new) (length a) (rank = 0) (?states ! rank)) [0..<p]"
  have "bcast_ct fadd sur CT ?states (length a) 0 = Inr ?st"
    using assms(1-3) by (auto simp: bcast_ct_def)
  moreover have "\<forall>rank < p. fst (?st ! rank) = (if rank = 0 then a else new)"
    using assms(4) by (simp add: take_received_def Let_def)
  ultimately show ?thesis by auto
qed

text \<open>With CT = 0 mm_comp.c returns what mm.c returns.  And on a single rank it does so with any compression that returns at all: the root multiplies the
  matrices it has read.\<close>

theorem mm_comp_plain:
  assumes "mm_comp sur_a sur_b CT heap_a heap_b num_worker m_1 m_2 = Inr (final_matrix, cs)"
    and "0 < num_worker" and "CT = 0 \<or> num_worker = 1" and "matrix_ok m_1" and "matrix_ok m_2"
    and "\<forall>rank. length (heap_a rank) = rows m_1 * cols m_1 \<and> length (heap_b rank) = rows m_2 * cols m_2"
  shows "mm num_worker m_1 m_2 = Inr final_matrix"
proof -
  let ?a = "mat_2D_to_1D m_1" and ?b = "mat_2D_to_1D m_2"
  from assms(1) obtain as bs where fits: "cols m_1 = rows m_2" "rows m_1 mod num_worker = 0"
    and as: "bcast_ct fadd sur_a CT (map (\<lambda>rank. (if rank = 0 then ?a else heap_a rank, no_counts)) [0..<num_worker]) (length ?a) 0 = Inr as"
    and bs: "bcast_ct fadd sur_b CT (map (\<lambda>rank. (if rank = 0 then ?b else heap_b rank, snd (as ! rank))) [0..<num_worker]) (length ?b) 0 = Inr bs"
    and final: "mm_main (\<lambda>_. Inr (map fst as)) (\<lambda>_. Inr (map fst bs)) num_worker m_1 m_2 = Inr final_matrix"
    by (auto simp: mm_comp_def res_bind_Inr_iff Let_def split: if_splits)
  have "map fst as = replicate num_worker ?a \<and> map fst bs = replicate num_worker ?b"
    using assms(3)
  proof
    assume "CT = 0"
    then show ?thesis
      using bcast_0_start [of fadd sur_a ?a heap_a "\<lambda>_. no_counts" num_worker as] as assms(2,6)
        bcast_0_start [of fadd sur_b ?b heap_b "\<lambda>rank. snd (as ! rank)" num_worker bs] bs
        length_mat_2D_to_1D [OF assms(4)] length_mat_2D_to_1D [OF assms(5)] by simp
  next
    assume one: "num_worker = 1"
    obtain cs' where "as = [(?a, cs')]" using as one by (auto elim: bcast_single)
    moreover obtain cs' where "bs = [(?b, cs')]" using bs one by (auto elim: bcast_single)
    ultimately show ?thesis using one by simp
  qed
  then have "mm_main (\<lambda>_. Inr (map fst as)) (\<lambda>_. Inr (map fst bs)) num_worker m_1 m_2 = Inr (product m_1 m_2)"
    using assms(2,4,5) fits by (intro mm_main_product) simp_all
  moreover have "mm num_worker m_1 m_2 = Inr (product m_1 m_2)"
    unfolding mm_def using assms(2,4,5) fits by (intro mm_main_product) simp_all
  ultimately show ?thesis using final by simp
qed

text \<open>Two ranks and CT = 0: 1, 2 / -1, -2 times the column 3, 4.\<close>

theorem mm_comp_plain_witness:
  "\<exists>cs. mm_comp quiet quiet 0 (\<lambda>_. [0, 0, 0, 0]) (\<lambda>_. [0, 0]) 2
     \<lparr>rows = 2, cols = 2, mat_data = [[0x3FF0000000000000, 0x4000000000000000], [0xBFF0000000000000, 0xC000000000000000]]\<rparr>
     \<lparr>rows = 2, cols = 1, mat_data = [[0x4008000000000000], [0x4010000000000000]]\<rparr> =
       Inr ([0x4026000000000000, 0xC026000000000000], cs) \<and>
   mm 2 \<lparr>rows = 2, cols = 2, mat_data = [[0x3FF0000000000000, 0x4000000000000000], [0xBFF0000000000000, 0xC000000000000000]]\<rparr>
     \<lparr>rows = 2, cols = 1, mat_data = [[0x4008000000000000], [0x4010000000000000]]\<rparr> =
       Inr [0x4026000000000000, 0xC026000000000000]"
proof -
  let ?m_1 = "\<lparr>rows = 2, cols = 2, mat_data = [[0x3FF0000000000000, 0x4000000000000000], [0xBFF0000000000000, 0xC000000000000000]]\<rparr>"
    and ?m_2 = "\<lparr>rows = 2, cols = 1, mat_data = [[0x4008000000000000], [0x4010000000000000]]\<rparr>"
  have run: "mm_comp quiet quiet 0 (\<lambda>_. [0, 0, 0, 0]) (\<lambda>_. [0, 0]) 2 ?m_1 ?m_2 =
      Inr ([0x4026000000000000, 0xC026000000000000], [no_counts, no_counts])" by code_simp
  then have "mm 2 ?m_1 ?m_2 = Inr [0x4026000000000000, 0xC026000000000000]"
    by (rule mm_comp_plain) (simp_all add: matrix_ok_def)
  then show ?thesis using run by blast
qed

text \<open>C22: With a compression that is not checked, CT = 1, 4, 5, 6 or 7, the product mm_comp.c gathers is made of two: the rows
  of rank 0 are those of the matrices that were read, all other rows are those of the matrices as they were
  received.  So the error of a row depends on the number of ranks.\<close>

theorem mm_comp_rows:
  assumes "matrix_ok m_1" and "matrix_ok m_2" and "cols m_1 = rows m_2" and "rows m_1 mod num_worker = 0" and "0 < num_worker"
    and "\<forall>rank. length (heap_a rank) = rows m_1 * cols m_1 \<and> length (heap_b rank) = rows m_2 * cols m_2"
    and "CT \<in> {1, 4, 5, 6, 7}"
    and "received sur_a CT (mat_2D_to_1D m_1) (rows m_1 * cols m_1) = Inr (count_a, new_a)"
    and "received sur_b CT (mat_2D_to_1D m_2) (rows m_2 * cols m_2) = Inr (count_b, new_b)"
  shows "\<exists>cs. mm_comp sur_a sur_b CT heap_a heap_b num_worker m_1 m_2 = Inr (concat (map (\<lambda>i. map (\<lambda>j.
      if i < rows m_1 div num_worker then entry (cols m_1) (cols m_2) (mat_2D_to_1D m_1) (mat_2D_to_1D m_2) i j
      else entry (cols m_1) (cols m_2) new_a new_b i j) [0..<cols m_2]) [0..<rows m_1]), cs)"
proof -
  let ?a = "mat_2D_to_1D m_1" and ?b = "mat_2D_to_1D m_2" and ?q = "rows m_1 div num_worker"
  have len: "length ?a = rows m_1 * cols m_1" "length ?b = rows m_2 * cols m_2"
    by (simp_all add: assms(1,2) length_mat_2D_to_1D)
  have new: "length new_a = rows m_1 * cols m_1" "length new_b = rows m_2 * cols m_2"
    using received_length [OF assms(8)] received_length [OF assms(9)] by simp_all
  from bcast_received [of sur_a CT ?a count_a new_a num_worker heap_a "\<lambda>_. no_counts"] assms(5-8) len
  obtain as where as: "bcast_ct fadd sur_a CT (map (\<lambda>rank. (if rank = 0 then ?a else heap_a rank, no_counts)) [0..<num_worker])
        (length ?a) 0 = Inr as"
      "length as = num_worker" "\<forall>rank < num_worker. fst (as ! rank) = (if rank = 0 then ?a else new_a)" by auto
  from bcast_received [of sur_b CT ?b count_b new_b num_worker heap_b "\<lambda>rank. snd (as ! rank)"] assms(5-7,9) len
  obtain bs where bs: "bcast_ct fadd sur_b CT (map (\<lambda>rank. (if rank = 0 then ?b else heap_b rank, snd (as ! rank))) [0..<num_worker])
        (length ?b) 0 = Inr bs"
      "length bs = num_worker" "\<forall>rank < num_worker. fst (bs ! rank) = (if rank = 0 then ?b else new_b)" by auto
  let ?f = "\<lambda>i j. if i < ?q then entry (cols m_1) (cols m_2) ?a ?b i j else entry (cols m_1) (cols m_2) new_a new_b i j"
  have "mm_main (\<lambda>_. Inr (map fst as)) (\<lambda>_. Inr (map fst bs)) num_worker m_1 m_2 =
      Inr (concat (map (\<lambda>i. map (?f i) [0..<cols m_2]) [0..<rows m_1]))"
  proof (rule mm_main_blocks)
    fix rank
    assume r: "rank < num_worker"
    then show "length (map fst as ! rank) = rows m_1 * cols m_1 \<and> length (map fst bs ! rank) = cols m_1 * cols m_2"
      using as bs len new assms(3) by simp
    fix i j
    assume i: "i \<in> {rank * ?q..<(rank + 1) * ?q}"
    have "rank = 0 \<longleftrightarrow> i < ?q"
    proof (cases rank)
      case (Suc r)
      then have "?q \<le> rank * ?q" by simp
      then show ?thesis using i Suc by simp
    qed (use i in simp)
    then show "entry (cols m_1) (cols m_2) (map fst as ! rank) (map fst bs ! rank) i j = ?f i j"
      using as bs r by simp
  qed (simp_all add: assms)
  then show ?thesis using as(1) bs(1) assms(3,4) by (simp add: mm_comp_def Let_def)
qed

text \<open>The column 1, 2.5 times 2 on two ranks; the second rank multiplies 2.5 and 2 to the power of -20 more.\<close>

lemma received_two: "received quiet 5 [0x4000000000000000] 1 = Inr (add_ratio 1 1, [0x4000000000000000])"
proof -
  have a: "toSmallDataset_double [0x4000000000000000] = Inr (0x4000000000000000, [0])"
    and b: "compress_root myCompress_bitwise_double (0x4000000000000000, [0]) = (0x4000000000000000, [128])"
    and c: "res_bind (myDecompress_bitwise_double [128] 1) (add_least 0x4000000000000000 1) = Inr [0x4000000000000000]"
    by code_simp+
  obtain nums where "myDecompress_bitwise_double [128] 1 = Inr nums"
      "add_least 0x4000000000000000 1 nums = Inr [0x4000000000000000]"
    using c unfolding res_bind_Inr_iff by blast
  then show ?thesis by (simp add: received_def by_bits_def a b)
qed

theorem mm_comp_rows_witness:
  "\<exists>cs. mm_comp quiet quiet 5 (\<lambda>_. [0, 0]) (\<lambda>_. [0]) 2
     \<lparr>rows = 2, cols = 1, mat_data = [[0x3FF0000000000000], [0x4004000000000000]]\<rparr>
     \<lparr>rows = 1, cols = 1, mat_data = [[0x4000000000000000]]\<rparr> = Inr ([0x4000000000000000, 0x4014000040000000], cs)"
proof -
  let ?m_1 = "\<lparr>rows = 2, cols = 1, mat_data = [[0x3FF0000000000000], [0x4004000000000000]]\<rparr>"
    and ?m_2 = "\<lparr>rows = 1, cols = 1, mat_data = [[0x4000000000000000]]\<rparr>"
  have m: "mat_2D_to_1D ?m_1 = [0x3FF0000000000000, 0x4004000000000000]" "mat_2D_to_1D ?m_2 = [0x4000000000000000]"
    by code_simp+
  have "received quiet 5 (mat_2D_to_1D ?m_1) (rows ?m_1 * cols ?m_1) = Inr (add_ratio 5 2, [0x3FF0000000000000, 0x4004000040000000])"
    "received quiet 5 (mat_2D_to_1D ?m_2) (rows ?m_2 * cols ?m_2) = Inr (add_ratio 1 1, [0x4000000000000000])"
    using received_example received_two unfolding m by simp_all
  then have "\<exists>cs. mm_comp quiet quiet 5 (\<lambda>_. [0, 0]) (\<lambda>_. [0]) 2 ?m_1 ?m_2 = Inr (concat (map (\<lambda>i. map (\<lambda>j.
      if i < rows ?m_1 div 2 then entry (cols ?m_1) (cols ?m_2) (mat_2D_to_1D ?m_1) (mat_2D_to_1D ?m_2) i j
      else entry (cols ?m_1) (cols ?m_2) [0x3FF0000000000000, 0x4004000040000000] [0x4000000000000000] i j)
        [0..<cols ?m_2]) [0..<rows ?m_1]), cs)"
    by (intro mm_comp_rows) (simp_all add: matrix_ok_def)
  moreover have "concat (map (\<lambda>i. map (\<lambda>j.
      if i < rows ?m_1 div 2 then entry (cols ?m_1) (cols ?m_2) (mat_2D_to_1D ?m_1) (mat_2D_to_1D ?m_2) i j
      else entry (cols ?m_1) (cols ?m_2) [0x3FF0000000000000, 0x4004000040000000] [0x4000000000000000] i j)
        [0..<cols ?m_2]) [0..<rows ?m_1]) = [0x4000000000000000, 0x4014000040000000]" by code_simp
  ultimately show ?thesis by simp
qed

section \<open>LU decomposition\<close>

text \<open>The state is the list of the matrices and counters of the ranks.  With CT = 4 the mean error replaces \<open>gosa\<close>.\<close>

definition share_row_ct ::
  "(nat \<Rightarrow> nat \<Rightarrow> surroundings) \<Rightarrow> int \<Rightarrow> nat \<Rightarrow> nat \<Rightarrow> nat \<Rightarrow> (64 word list \<times> counters) list \<Rightarrow> nat \<Rightarrow>
   (64 word list \<times> counters) list result" where
  "share_row_ct sur CT n p d st j =
     res_bind (bcast_ct (\<lambda>gosa error. error) (sur d j) CT (map (\<lambda>(A, cs). (row_from n d j A, cs)) st) (n - d) (j mod p)) (\<lambda>rows.
       Inr (map2 (\<lambda>new old. (put_row n d j (fst new) (fst old), snd new)) rows st))"

definition lu_comp_step ::
  "(nat \<Rightarrow> nat \<Rightarrow> surroundings) \<Rightarrow> int \<Rightarrow> nat \<Rightarrow> nat \<Rightarrow> (64 word list \<times> counters) list \<Rightarrow> nat \<Rightarrow>
   (64 word list \<times> counters) list result" where
  "lu_comp_step sur CT n p st d =
     res_fold (share_row_ct sur CT n p d)
       (map (\<lambda>rank. (eliminate_own n p d rank (fst (st ! rank)), snd (st ! rank))) [0..<p]) [d + 1..<n]"

definition lu_comp ::
  "(nat \<Rightarrow> nat \<Rightarrow> surroundings) \<Rightarrow> int \<Rightarrow> nat \<Rightarrow> nat \<Rightarrow> 64 word list list \<Rightarrow> (64 word list \<times> counters) list result" where
  "lu_comp sur CT n p As = res_fold (lu_comp_step sur CT n p) (map (\<lambda>A. (A, no_counts)) As) [0..<n - 1]"

lemma res_fold_simulation:
  assumes "res_fold f s xs = Inr t" and "I s"
    and "\<And>s t x. x \<in> set xs \<Longrightarrow> I s \<Longrightarrow> f s x = Inr t \<Longrightarrow> I t \<and> g (h s) x = Inr (h t)"
  shows "I t \<and> res_fold g (h s) xs = Inr (h t)"
  using assms
proof (induction xs arbitrary: s)
  case (Cons x xs)
  then obtain s1 where s1: "f s x = Inr s1" "res_fold f s1 xs = Inr t" by (auto split: sum.splits)
  then have "I s1" "g (h s) x = Inr (h s1)" using Cons.prems(2) Cons.prems(3) [of x s s1] by simp_all
  moreover have "I t \<and> res_fold g (h s1) xs = Inr (h t)"
    using Cons.IH [OF s1(2) \<open>I s1\<close>] Cons.prems(3) by (meson list.set_intros(2))
  ultimately show ?case by simp
qed simp

definition matrices_ok :: "nat \<Rightarrow> nat \<Rightarrow> (64 word list \<times> counters) list \<Rightarrow> bool" where
  "matrices_ok n p st \<longleftrightarrow> length st = p \<and> (\<forall>s \<in> set st. length (fst s) = n * n)"

lemma share_row_plain:
  assumes "share_row_ct sur CT n p d st j = Inr st'" and "CT = 0 \<or> p = 1" and "0 < p"
    and "matrices_ok n p st" and "d < j" and "j < n"
  shows "matrices_ok n p st' \<and> share_row (\<lambda>d j row. Inr (replicate p row)) n p d (map fst st) j = Inr (map fst st')"
proof -
  let ?row = "row_from n d j (fst (st ! (j mod p)))" and ?rows = "map (\<lambda>(A, cs). (row_from n d j A, cs)) st"
  have len: "length st = p" "\<And>s. s \<in> set st \<Longrightarrow> length (fst s) = n * n" using assms(4) by (simp_all add: matrices_ok_def)
  have rt: "j mod p < length st" using assms(3) len by simp
  from assms(1) obtain rows where rows: "bcast_ct (\<lambda>gosa error. error) (sur d j) CT ?rows (n - d) (j mod p) = Inr rows"
    and st': "st' = map2 (\<lambda>new old. (put_row n d j (fst new) (fst old), snd new)) rows st"
    by (auto simp: share_row_ct_def res_bind_Inr_iff)
  have "length rows = p \<and> map fst rows = replicate p ?row"
    using assms(2)
  proof
    assume "CT = 0"
    moreover have "bcast_ct (\<lambda>gosa error. error) (sur d j) 0 ?rows (n - d) (j mod p) =
        Inr (map (\<lambda>s. (fst (?rows ! (j mod p)), snd s)) ?rows)"
      using len rt assms(5,6) by (intro bcast_0) (auto simp: length_row_from)
    ultimately show ?thesis using rows len rt
      by (auto simp: comp_def map_replicate_const split: prod.split)
  next
    assume one: "p = 1"
    then obtain A cs where "st = [(A, cs)]" using len(1) by (cases st) auto
    moreover from this obtain cs' where "rows = [(row_from n d j A, cs')]" using rows one by (auto elim: bcast_single)
    ultimately show ?thesis using one by simp
  qed
  then have r: "length rows = p" "\<And>i. i < p \<Longrightarrow> fst (rows ! i) = ?row"
    by (auto simp: list_eq_iff_nth_eq)
  have new: "map fst st' = map2 (put_row n d j) (replicate p ?row) (map fst st)"
    using r len(1) by (intro nth_equalityI [where xs = "map fst st'"]) (simp_all add: st')
  have "length ?row = n - d" using len(2) [OF nth_mem [OF rt]] assms(5,6) by (simp add: length_row_from)
  then have "length (put_row n d j (fst (rows ! i)) (fst (st ! i))) = n * n" if "i < p" for i
    using that r(2) len assms(5,6) by (simp add: length_put_row)
  then have "\<forall>s \<in> set st'. length (fst s) = n * n"
    using len(1) r(1) by (simp add: st' all_set_conv_all_nth)
  moreover have "length st' = p" using r len by (simp add: st')
  ultimately show ?thesis
    using new rt by (simp add: matrices_ok_def share_row_def)
qed

lemma eliminate_own_size:
  assumes "length A = n * n" and "d < n"
  shows "length (eliminate_own n p d rank A) = n * n"
proof -
  have "eliminate_own n p d rank A = put_rows n d (eliminated n d A) (filter (\<lambda>j. j mod p = rank) [d + 1..<n]) A"
    unfolding eliminate_own_def using assms by (intro eliminate_rows) auto
  then show ?thesis using assms by (auto intro!: length_put_rows simp: length_eliminated)
qed

lemma lu_comp_step_plain:
  assumes "lu_comp_step sur CT n p st d = Inr st'" and "CT = 0 \<or> p = 1" and "0 < p"
    and "matrices_ok n p st" and "d < n"
  shows "matrices_ok n p st' \<and> lu_step (\<lambda>d j row. Inr (replicate p row)) n p (map fst st) d = Inr (map fst st')"
proof -
  let ?st = "map (\<lambda>rank. (eliminate_own n p d rank (fst (st ! rank)), snd (st ! rank))) [0..<p]"
  have "matrices_ok n p ?st" using assms(4,5) by (auto simp: matrices_ok_def eliminate_own_size)
  then have "matrices_ok n p st' \<and>
      res_fold (share_row (\<lambda>d j row. Inr (replicate p row)) n p d) (map fst ?st) [d + 1..<n] = Inr (map fst st')"
    using assms(2,3) by (intro res_fold_simulation [OF assms(1) [unfolded lu_comp_step_def]])
      (auto simp: share_row_plain)
  moreover have "map fst ?st = map (\<lambda>rank. eliminate_own n p d rank (map fst st ! rank)) [0..<p]"
    using assms(4) by (simp add: matrices_ok_def)
  ultimately show ?thesis by (simp only: lu_step_def simp_thms)
qed

text \<open>With CT = 0 lu_comp.c leaves on every rank the matrix lu.c leaves there, and on a single rank it does so with any
  compression that returns at all.\<close>

theorem lu_comp_plain:
  assumes "lu_comp sur CT n p As = Inr st" and "CT = 0 \<or> p = 1" and "0 < p"
    and "length As = p" and "\<forall>A \<in> set As. length A = n * n"
  shows "lu n p As = Inr (map fst st)"
proof -
  have "matrices_ok n p (map (\<lambda>A. (A, no_counts)) As)" using assms(4,5) by (auto simp: matrices_ok_def)
  then have "matrices_ok n p st \<and> res_fold (lu_step (\<lambda>d j row. Inr (replicate p row)) n p)
      (map fst (map (\<lambda>A. (A, no_counts)) As)) [0..<n - 1] = Inr (map fst st)"
    using assms(2,3) by (intro res_fold_simulation [OF assms(1) [unfolded lu_comp_def]])
      (auto simp: lu_comp_step_plain)
  then show ?thesis by (simp add: lu_def lu_main_def comp_def)
qed

text \<open>1, 2 / 3, 4 on two ranks.\<close>

theorem lu_comp_plain_witness:
  "lu_comp (\<lambda>_ _. quiet) 0 2 2 (replicate 2 [0x3FF0000000000000, 0x4000000000000000, 0x4008000000000000, 0x4010000000000000]) =
     Inr (replicate 2 ([0x3FF0000000000000, 0x4000000000000000, 0x4008000000000000, 0xC000000000000000], no_counts)) \<and>
   lu 2 2 (replicate 2 [0x3FF0000000000000, 0x4000000000000000, 0x4008000000000000, 0x4010000000000000]) =
     Inr (replicate 2 [0x3FF0000000000000, 0x4000000000000000, 0x4008000000000000, 0xC000000000000000])"
proof -
  have run: "lu_comp (\<lambda>_ _. quiet) 0 2 2 (replicate 2 [0x3FF0000000000000, 0x4000000000000000, 0x4008000000000000, 0x4010000000000000]) =
     Inr (replicate 2 ([0x3FF0000000000000, 0x4000000000000000, 0x4008000000000000, 0xC000000000000000], no_counts))"
    by code_simp
  then show ?thesis using lu_comp_plain [OF run] by simp
qed

end
