(* ===== verification/KMeans.thy ===== *)
theory KMeans
  imports AbftBcast
begin

text \<open>
  The k-means clustering of \<open>app/src/kmeans/kmeans.c\<close>, and of \<open>kmeans_abft.c\<close>, which sends the means with
  \<open>MPI_Bcast_abft\<close>.  The root has all points; in every round it broadcasts the means and
  scatters the assignments, every rank assigns its points to the nearest mean, and the root gathers the
  assignments and computes the means anew.  Reading the points from a file and the printing are left out.
\<close>

section \<open>The code\<close>

definition point_dist :: "64 word list \<Rightarrow> 64 word list \<Rightarrow> 64 word \<Rightarrow> 64 word \<Rightarrow> nat \<Rightarrow> 64 word result" where
  "point_dist k_x k_y px py j =
     res_bind (nth_result k_x j) (\<lambda>kx. res_bind (nth_result k_y j) (\<lambda>ky.
       let x = ffabs (fsub px kx); y = ffabs (fsub py ky) in Inr (fsqrt (fadd (fmul x x) (fmul y y)))))"

definition nearest :: "nat \<Rightarrow> 64 word list \<Rightarrow> 64 word list \<Rightarrow> 64 word \<Rightarrow> 64 word \<Rightarrow> nat result" where
  "nearest numOfClusters k_x k_y px py =
     res_bind (point_dist k_x k_y px py 0) (\<lambda>min_dist.
     res_bind (res_fold (\<lambda>(min_dist, k_min_index) j. res_bind (point_dist k_x k_y px py j) (\<lambda>temp_dist.
         Inr (if flt temp_dist min_dist then (temp_dist, j) else (min_dist, k_min_index))))
       (min_dist, 0) [1..<numOfClusters]) (\<lambda>s. Inr (snd s)))"

definition assign2Cluster ::
  "nat \<Rightarrow> nat \<Rightarrow> 64 word list \<Rightarrow> 64 word list \<Rightarrow> 64 word list \<Rightarrow> 64 word list \<Rightarrow> nat list \<Rightarrow> nat list result" where
  "assign2Cluster numOfClusters points k_x k_y recv_x recv_y assign =
     res_fold (\<lambda>assign i. res_bind (nth_result recv_x i) (\<lambda>px. res_bind (nth_result recv_y i) (\<lambda>py.
         res_bind (nearest numOfClusters k_x k_y px py) (\<lambda>k. res_bind (nth_result assign i) (\<lambda>_.
           Inr (assign[i := k])))))) assign [0..<points]"

definition total_step ::
  "64 word list \<Rightarrow> 64 word list \<Rightarrow> nat list \<Rightarrow> nat \<Rightarrow> 64 word \<times> 64 word \<times> nat \<Rightarrow> nat \<Rightarrow> (64 word \<times> 64 word \<times> nat) result" where
  "total_step data_x_points data_y_points k_assignment i s j =
     (case s of (total_x, total_y, numOfpoints) \<Rightarrow>
        res_bind (nth_result k_assignment j) (\<lambda>k.
          if k = i
          then res_bind (nth_result data_x_points j) (\<lambda>x. res_bind (nth_result data_y_points j) (\<lambda>y.
            Inr (fadd total_x x, fadd total_y y, numOfpoints + 1)))
          else Inr (total_x, total_y, numOfpoints)))"

definition calcKmeans ::
  "nat \<Rightarrow> nat \<Rightarrow> 64 word list \<Rightarrow> 64 word list \<Rightarrow> nat list \<Rightarrow> 64 word list \<times> 64 word list \<Rightarrow>
   (64 word list \<times> 64 word list) result" where
  "calcKmeans numOfClusters numOfElements data_x_points data_y_points k_assignment means =
     res_fold (\<lambda>(k_means_x, k_means_y) i.
       res_bind (res_fold (total_step data_x_points data_y_points k_assignment i) (fint 0, fint 0, 0) [0..<numOfElements])
         (\<lambda>(total_x, total_y, numOfpoints).
           if numOfpoints \<noteq> 0
           then Inr (k_means_x[i := fdiv total_x (fint (int numOfpoints))], k_means_y[i := fdiv total_y (fint (int numOfpoints))])
           else Inr (k_means_x, k_means_y)))
       means [0..<numOfClusters]"

text \<open>\<open>MPI_Scatter\<close> and \<open>MPI_Gather\<close> of \<open>c\<close> elements per rank.\<close>

definition scattered :: "nat \<Rightarrow> 'a list \<Rightarrow> nat \<Rightarrow> 'a list" where
  "scattered c xs rank = take c (drop (rank * c) xs)"

definition gathered :: "'a list list \<Rightarrow> 'a list \<Rightarrow> 'a list" where
  "gathered parts xs = concat parts @ drop (length (concat parts)) xs"

text \<open>A round of the loop; \<open>share it\<close> broadcasts the means, first \<open>k_means_x\<close>, then \<open>k_means_y\<close>.\<close>

record kmeans_state =
  k_means_x :: "64 word list"
  k_means_y :: "64 word list"
  k_assignment :: "nat list"

definition kmeans_round ::
  "(nat \<Rightarrow> bool \<Rightarrow> 64 word list \<Rightarrow> 64 word list list result) \<Rightarrow> nat \<Rightarrow> nat \<Rightarrow> 64 word list \<Rightarrow> 64 word list \<Rightarrow>
   kmeans_state \<Rightarrow> nat \<Rightarrow> kmeans_state result" where
  "kmeans_round share world_size numOfClusters data_x_points data_y_points s it =
     (let numOfElements = length data_x_points; c = numOfElements div world_size in
      res_bind (share it False (k_means_x s)) (\<lambda>kxs. res_bind (share it True (k_means_y s)) (\<lambda>kys.
      res_bind (res_fold (\<lambda>out rank.
          res_bind (assign2Cluster numOfClusters c (kxs ! rank) (kys ! rank) (scattered c data_x_points rank)
              (scattered c data_y_points rank) (scattered c (k_assignment s) rank)) (\<lambda>recv_assign. Inr (out @ [recv_assign])))
        [] [0..<world_size]) (\<lambda>parts.
      let k_assignment = gathered parts (k_assignment s) in
      res_bind (calcKmeans numOfClusters numOfElements data_x_points data_y_points k_assignment (k_means_x s, k_means_y s))
        (\<lambda>(kx, ky). Inr \<lparr>k_means_x = kx, k_means_y = ky, k_assignment = k_assignment\<rparr>)))))"

text \<open>The first means are points at even distances; at first all points are in cluster 0.\<close>

definition initial_means :: "nat \<Rightarrow> 64 word list \<Rightarrow> 64 word list result" where
  "initial_means numOfClusters points =
     res_fold (\<lambda>k_means i. res_bind (nth_result points (length points div numOfClusters * i)) (\<lambda>x. Inr (k_means @ [x])))
       [] [0..<numOfClusters]"

definition kmeans_main ::
  "(nat \<Rightarrow> bool \<Rightarrow> 64 word list \<Rightarrow> 64 word list list result) \<Rightarrow> nat \<Rightarrow> nat \<Rightarrow> nat \<Rightarrow> 64 word list \<Rightarrow> 64 word list \<Rightarrow>
   kmeans_state result" where
  "kmeans_main share world_size numOfClusters max_iterations data_x_points data_y_points =
     res_bind (initial_means numOfClusters data_x_points) (\<lambda>kx. res_bind (initial_means numOfClusters data_y_points) (\<lambda>ky.
       res_fold (kmeans_round share world_size numOfClusters data_x_points data_y_points)
         \<lparr>k_means_x = kx, k_means_y = ky, k_assignment = replicate (length data_x_points) 0\<rparr> [0..<max_iterations]))"

definition kmeans :: "nat \<Rightarrow> nat \<Rightarrow> nat \<Rightarrow> 64 word list \<Rightarrow> 64 word list \<Rightarrow> kmeans_state result" where
  "kmeans world_size = kmeans_main (\<lambda>it y ks. Inr (replicate world_size ks)) world_size"

definition kmeans_abft ::
  "crc32_fun \<Rightarrow> (nat \<Rightarrow> bool \<Rightarrow> transport) \<Rightarrow> nat \<Rightarrow> nat \<Rightarrow> nat \<Rightarrow> 64 word list \<Rightarrow> 64 word list \<Rightarrow> kmeans_state result" where
  "kmeans_abft crc32 tx world_size =
     kmeans_main (\<lambda>it y ks. MPI_Bcast_abft crc32 (tx it y) ks (length ks) 0 world_size) world_size"

section \<open>Assignment\<close>

definition dist_to :: "64 word list \<Rightarrow> 64 word list \<Rightarrow> 64 word \<Rightarrow> 64 word \<Rightarrow> nat \<Rightarrow> 64 word" where
  "dist_to k_x k_y px py j =
     (let x = ffabs (fsub px (k_x ! j)); y = ffabs (fsub py (k_y ! j)) in fsqrt (fadd (fmul x x) (fmul y y)))"

definition closest :: "nat \<Rightarrow> (nat \<Rightarrow> 64 word) \<Rightarrow> nat" where
  "closest n D = snd (foldl (\<lambda>(least, k) j. if flt (D j) least then (D j, j) else (least, k)) (D 0, 0) [1..<n])"

lemma nearest_closest:
  assumes "0 < n" and "n \<le> length k_x" and "n \<le> length k_y"
  shows "nearest n k_x k_y px py = Inr (closest n (dist_to k_x k_y px py))"
proof -
  let ?D = "dist_to k_x k_y px py"
  have dist: "point_dist k_x k_y px py j = Inr (?D j)" if "j < n" for j
    using that assms by (simp add: point_dist_def dist_to_def Let_def)
  have "res_fold (\<lambda>(min_dist, k_min_index) j. res_bind (point_dist k_x k_y px py j) (\<lambda>temp_dist.
        Inr (if flt temp_dist min_dist then (temp_dist, j) else (min_dist, k_min_index)))) s js =
      Inr (foldl (\<lambda>(least, k) j. if flt (?D j) least then (?D j, j) else (least, k)) s js)"
    if "set js \<subseteq> {0..<n}" for js and s :: "64 word \<times> nat"
    using that
  proof (induction js arbitrary: s)
    case (Cons j js)
    then show ?case using dist [of j] by (cases s) simp
  qed simp
  from this [of "[1..<n]"] show ?thesis using dist [OF assms(1)]
    by (simp add: nearest_def closest_def del: upt_Suc)
qed

lemma closest_least:
  assumes "0 < n" and "\<forall>j < n. \<not> is_nan (D j)"
  shows "closest n D < n" and "\<forall>j < n. fle (D (closest n D)) (D j)" and "\<forall>j < closest n D. flt (D (closest n D)) (D j)"
proof -
  let ?step = "\<lambda>(least, k) j. if flt (D j) least then (D j, j) else (least, k)"
  have "fst (foldl ?step (D 0, 0) [1..<m]) = D (closest m D) \<and> closest m D < m \<and>
      (\<forall>j < m. fkey (D (closest m D)) \<le> fkey (D j)) \<and> (\<forall>j < closest m D. fkey (D (closest m D)) < fkey (D j))"
    if "1 \<le> m" "m \<le> n" for m
    using that
  proof (induction m rule: dec_induct)
    case base
    then show ?case by (simp add: closest_def)
  next
    case (step m)
    then have IH: "fst (foldl ?step (D 0, 0) [1..<m]) = D (closest m D)" "closest m D < m"
        "\<forall>j < m. fkey (D (closest m D)) \<le> fkey (D j)" "\<forall>j < closest m D. fkey (D (closest m D)) < fkey (D j)" by simp_all
    then have s: "foldl ?step (D 0, 0) [1..<m] = (D (closest m D), closest m D)"
      by (simp add: closest_def prod_eq_iff)
    have u: "[1..<Suc m] = [1..<m] @ [m]" using step by simp
    have nxt: "foldl ?step (D 0, 0) [1..<Suc m] =
        (if flt (D m) (D (closest m D)) then (D m, m) else (D (closest m D), closest m D))"
      by (simp only: u foldl_append foldl.simps s prod.case)
    have "closest (Suc m) D = snd (foldl ?step (D 0, 0) [1..<Suc m])" by (simp only: closest_def)
    then have c: "closest (Suc m) D = (if flt (D m) (D (closest m D)) then m else closest m D)"
      "fst (foldl ?step (D 0, 0) [1..<Suc m]) = D (closest (Suc m) D)" unfolding nxt by simp_all
    have "\<not> is_nan (D m)" "\<not> is_nan (D (closest m D))" using assms(2) step IH(2) by simp_all
    then have "flt (D m) (D (closest m D)) \<longleftrightarrow> fkey (D m) < fkey (D (closest m D))" by (simp add: flt_def)
    then show ?case using IH c by (auto simp: less_Suc_eq)
  qed
  from this [of n] show "closest n D < n" "\<forall>j < n. fle (D (closest n D)) (D j)" "\<forall>j < closest n D. flt (D (closest n D)) (D j)"
    using assms by (auto simp: fle_def flt_def)
qed

lemma res_fold_assign:
  assumes "\<And>xs i. length xs = length ys \<Longrightarrow> i < n \<Longrightarrow> f xs i = Inr (xs[i := g i])" and "n \<le> length ys"
  shows "res_fold f ys [0..<n] = Inr (map g [0..<n] @ drop n ys)"
  using assms(2)
proof -
  have "res_fold f ys [0..<k] = Inr (map g [0..<k] @ drop k ys)" if "k \<le> n" for k
    using that
  proof (induction k)
    case (Suc k)
    then have "f (map g [0..<k] @ drop k ys) k = Inr ((map g [0..<k] @ drop k ys)[k := g k])"
      using assms(2) by (intro assms(1)) simp_all
    also have "(map g [0..<k] @ drop k ys)[k := g k] = map g [0..<Suc k] @ drop (Suc k) ys"
      using Suc.prems assms(2) by (simp add: list_update_append Cons_nth_drop_Suc [symmetric])
    finally show ?case using Suc by (simp add: res_fold_append res_fold_single)
  qed simp
  then show ?thesis by simp
qed

lemma assign2Cluster_closest:
  assumes "0 < n" and "n \<le> length k_x" and "n \<le> length k_y"
    and "length recv_x = c" and "length recv_y = c" and "length assign = c"
  shows "assign2Cluster n c k_x k_y recv_x recv_y assign =
    Inr (map (\<lambda>i. closest n (dist_to k_x k_y (recv_x ! i) (recv_y ! i))) [0..<c])"
proof -
  have "assign2Cluster n c k_x k_y recv_x recv_y assign =
      Inr (map (\<lambda>i. closest n (dist_to k_x k_y (recv_x ! i) (recv_y ! i))) [0..<c] @ drop c assign)"
    unfolding assign2Cluster_def using assms nearest_closest [OF assms(1-3)]
    by (intro res_fold_assign) simp_all
  then show ?thesis using assms(6) by simp
qed

section \<open>Means\<close>

definition cluster_mean :: "64 word list \<Rightarrow> nat list \<Rightarrow> nat \<Rightarrow> 64 word \<Rightarrow> 64 word" where
  "cluster_mean xs assign i old =
     (let members = filter (\<lambda>j. assign ! j = i) [0..<length xs]
      in if members = [] then old
         else fdiv (foldl fadd (fint 0) (map ((!) xs) members)) (fint (int (length members))))"

lemma totals:
  assumes "length ys = length xs" and "length assign = length xs"
  shows "res_fold (total_step xs ys assign i) (fint 0, fint 0, 0) [0..<length xs] =
    (let members = filter (\<lambda>j. assign ! j = i) [0..<length xs]
     in Inr (foldl fadd (fint 0) (map ((!) xs) members), foldl fadd (fint 0) (map ((!) ys) members), length members))"
proof -
  have "res_fold (total_step xs ys assign i) (fint 0, fint 0, 0) [0..<k] =
      (let members = filter (\<lambda>j. assign ! j = i) [0..<k]
       in Inr (foldl fadd (fint 0) (map ((!) xs) members), foldl fadd (fint 0) (map ((!) ys) members), length members))"
    if "k \<le> length xs" for k
    using that
  proof (induction k)
    case (Suc k)
    then show ?case using assms by (simp add: res_fold_append res_fold_single Let_def total_step_def)
  qed (simp add: Let_def)
  then show ?thesis by simp
qed

lemma calcKmeans_means:
  assumes "length ys = length xs" and "length assign = length xs" and "length kx = n" and "length ky = n"
  shows "calcKmeans n (length xs) xs ys assign (kx, ky) =
    Inr (map (\<lambda>i. cluster_mean xs assign i (kx ! i)) [0..<n], map (\<lambda>i. cluster_mean ys assign i (ky ! i)) [0..<n])"
proof -
  let ?step = "\<lambda>(kx, ky) i. res_bind (res_fold (total_step xs ys assign i) (fint 0, fint 0, 0) [0..<length xs])
    (\<lambda>(total_x, total_y, m). if m \<noteq> 0
      then Inr (kx[i := fdiv total_x (fint (int m))], ky[i := fdiv total_y (fint (int m))]) else Inr (kx, ky))"
  let ?means = "\<lambda>k. (map (\<lambda>i. cluster_mean xs assign i (kx ! i)) [0..<k] @ drop k kx,
    map (\<lambda>i. cluster_mean ys assign i (ky ! i)) [0..<k] @ drop k ky)"
  have "res_fold ?step (kx, ky) [0..<k] = Inr (?means k)" if "k \<le> n" for k
    using that
  proof (induction k)
    case (Suc k)
    then have d: "drop k kx = kx ! k # drop (Suc k) kx" "drop k ky = ky ! k # drop (Suc k) ky"
      using assms(3,4) by (simp_all add: Cons_nth_drop_Suc)
    have "?step (?means k) k = Inr (?means (Suc k))"
      unfolding prod.case totals [OF assms(1,2)] Let_def
      by (simp add: d list_update_append cluster_mean_def assms(1) Let_def del: upt_Suc) (simp add: assms(1))
    then show ?case using Suc by (simp only: upt_Suc_append le0 res_fold_append res_fold_single res_bind.simps)
  qed simp
  from this [of n] show ?thesis using assms(3,4) by (simp add: calcKmeans_def)
qed

section \<open>A round of Lloyd's algorithm\<close>

text \<open>A round in which rank \<open>r\<close> assigns its points to the means \<open>kxs ! r\<close>, \<open>kys ! r\<close>; the points that do not go into
  \<open>p\<close> equal parts keep their clusters.\<close>

definition ranks_round ::
  "nat \<Rightarrow> nat \<Rightarrow> 64 word list \<Rightarrow> 64 word list \<Rightarrow> 64 word list list \<Rightarrow> 64 word list list \<Rightarrow> kmeans_state \<Rightarrow> kmeans_state" where
  "ranks_round p n xs ys kxs kys s =
     (let c = length xs div p;
          assign = map (\<lambda>j. if j < p * c then closest n (dist_to (kxs ! (j div c)) (kys ! (j div c)) (xs ! j) (ys ! j))
            else k_assignment s ! j) [0..<length xs]
      in \<lparr>k_means_x = map (\<lambda>i. cluster_mean xs assign i (k_means_x s ! i)) [0..<n],
          k_means_y = map (\<lambda>i. cluster_mean ys assign i (k_means_y s ! i)) [0..<n], k_assignment = assign\<rparr>)"

text \<open>On a single processor.\<close>

definition lloyd :: "nat \<Rightarrow> nat \<Rightarrow> 64 word list \<Rightarrow> 64 word list \<Rightarrow> kmeans_state \<Rightarrow> kmeans_state" where
  "lloyd p n xs ys s =
     (let assign = map (\<lambda>j. if j < p * (length xs div p)
          then closest n (dist_to (k_means_x s) (k_means_y s) (xs ! j) (ys ! j)) else k_assignment s ! j) [0..<length xs]
      in \<lparr>k_means_x = map (\<lambda>i. cluster_mean xs assign i (k_means_x s ! i)) [0..<n],
          k_means_y = map (\<lambda>i. cluster_mean ys assign i (k_means_y s ! i)) [0..<n], k_assignment = assign\<rparr>)"

lemma lloyd_ranks:
  "lloyd p n xs ys s = ranks_round p n xs ys (replicate p (k_means_x s)) (replicate p (k_means_y s)) s"
proof -
  have "j div (length xs div p) < p" if "j < p * (length xs div p)" for j
    using that by (metis less_mult_imp_div_less)
  then have "(\<lambda>j. if j < p * (length xs div p)
        then closest n (dist_to (replicate p (k_means_x s) ! (j div (length xs div p))) (replicate p (k_means_y s) ! (j div (length xs div p)))
          (xs ! j) (ys ! j)) else k_assignment s ! j) =
      (\<lambda>j. if j < p * (length xs div p)
        then closest n (dist_to (k_means_x s) (k_means_y s) (xs ! j) (ys ! j)) else k_assignment s ! j)"
    by (auto simp: fun_eq_iff)
  then show ?thesis by (simp only: lloyd_def ranks_round_def Let_def)
qed

definition kmeans_ok :: "nat \<Rightarrow> nat \<Rightarrow> kmeans_state \<Rightarrow> bool" where
  "kmeans_ok n elements s \<longleftrightarrow> length (k_means_x s) = n \<and> length (k_means_y s) = n \<and> length (k_assignment s) = elements"

lemma ranks_round_ok: "kmeans_ok n (length xs) (ranks_round p n xs ys kxs kys s)"
  by (simp add: kmeans_ok_def ranks_round_def Let_def)

lemma lloyd_ok: "kmeans_ok n (length xs) (lloyd p n xs ys s)"
  by (simp add: kmeans_ok_def lloyd_def Let_def)

lemma part_less: "rank < p \<Longrightarrow> i < e div p \<Longrightarrow> rank * (e div p) + i < (e :: nat)"
proof -
  assume "rank < p" "i < e div p"
  then have "rank * (e div p) + i < Suc rank * (e div p)" "Suc rank * (e div p) \<le> p * (e div p)"
    by (simp, intro mult_le_mono1) simp
  moreover have "p * (e div p) \<le> e" by simp
  ultimately show ?thesis by linarith
qed

lemma scattered_parts:
  assumes "rank < p" and "c = length xs div p"
  shows "length (scattered c xs rank) = c" and "i < c \<Longrightarrow> scattered c xs rank ! i = xs ! (rank * c + i)"
proof -
  have "rank * c + c \<le> p * c" using assms(1) by (metis Suc_leI add.commute mult_Suc mult_le_mono1)
  moreover have "p * c \<le> length xs" unfolding assms(2) by simp
  ultimately show "length (scattered c xs rank) = c" "i < c \<Longrightarrow> scattered c xs rank ! i = xs ! (rank * c + i)"
    by (simp_all add: scattered_def)
qed

lemma kmeans_round_ranks:
  assumes "kmeans_ok n (length xs) s" and "0 < n" and "length ys = length xs"
    and "share it False (k_means_x s) = Inr kxs" and "share it True (k_means_y s) = Inr kys"
    and "\<And>rank. rank < p \<Longrightarrow> n \<le> length (kxs ! rank) \<and> n \<le> length (kys ! rank)"
  shows "kmeans_round share p n xs ys s it = Inr (ranks_round p n xs ys kxs kys s)"
proof -
  let ?c = "length xs div p"
  let ?f = "\<lambda>j. closest n (dist_to (kxs ! (j div ?c)) (kys ! (j div ?c)) (xs ! j) (ys ! j))"
  have len: "length (k_means_x s) = n" "length (k_means_y s) = n" "length (k_assignment s) = length xs"
    using assms(1) by (simp_all add: kmeans_ok_def)
  have part: "assign2Cluster n ?c (kxs ! rank) (kys ! rank) (scattered ?c xs rank) (scattered ?c ys rank)
      (scattered ?c (k_assignment s) rank) = Inr (map ?f [rank * ?c..<(rank + 1) * ?c])" if "rank < p" for rank
  proof -
    have "(rank * ?c + i) div ?c = rank" if "i < ?c" for i using that by (simp add: div_mult_self3)
    then have "map (\<lambda>i. closest n (dist_to (kxs ! rank) (kys ! rank) (scattered ?c xs rank ! i) (scattered ?c ys rank ! i))) [0..<?c] =
        map ?f [rank * ?c..<(rank + 1) * ?c]"
      using scattered_parts(2) [OF that, of ?c xs] scattered_parts(2) [OF that, of ?c ys] assms(3)
      by (intro nth_equalityI) simp_all
    moreover have "length (scattered ?c xs rank) = ?c" "length (scattered ?c ys rank) = ?c"
        "length (scattered ?c (k_assignment s) rank) = ?c"
      using assms(3) len scattered_parts(1) [OF that, of ?c xs] scattered_parts(1) [OF that, of ?c ys]
        scattered_parts(1) [OF that, of ?c "k_assignment s"] by simp_all
    ultimately show ?thesis
      using assms(2,6) that by (simp add: assign2Cluster_closest)
  qed
  have parts: "res_fold (\<lambda>out rank. res_bind (assign2Cluster n ?c (kxs ! rank) (kys ! rank)
        (scattered ?c xs rank) (scattered ?c ys rank) (scattered ?c (k_assignment s) rank)) (\<lambda>recv_assign. Inr (out @ [recv_assign])))
      [] [0..<p] = Inr ([] @ map (\<lambda>rank. map ?f [rank * ?c..<(rank + 1) * ?c]) [0..<p])"
    using part by (intro res_fold_collect) simp
  have "gathered (map (\<lambda>rank. map ?f [rank * ?c..<(rank + 1) * ?c]) [0..<p]) (k_assignment s) =
      map ?f [0..<p * ?c] @ drop (p * ?c) (k_assignment s)"
    by (simp add: gathered_def concat_blocks [of ?f ?c p, simplified])
  also have "\<dots> = map (\<lambda>j. if j < p * ?c then ?f j else k_assignment s ! j) [0..<length xs]"
    using len by (intro nth_equalityI) (auto simp: nth_append)
  finally show ?thesis
    using assms(3-5) len parts
    by (simp add: kmeans_round_def Let_def calcKmeans_means ranks_round_def)
qed

lemma kmeans_round_lloyd:
  assumes "kmeans_ok n (length xs) s" and "0 < n" and "length ys = length xs"
    and "share it False (k_means_x s) = Inr (replicate p (k_means_x s))"
    and "share it True (k_means_y s) = Inr (replicate p (k_means_y s))"
  shows "kmeans_round share p n xs ys s it = Inr (lloyd p n xs ys s)"
  unfolding lloyd_ranks using assms by (intro kmeans_round_ranks) (simp_all add: kmeans_ok_def)

section \<open>The whole run\<close>

definition kmeans_start :: "nat \<Rightarrow> 64 word list \<Rightarrow> 64 word list \<Rightarrow> kmeans_state" where
  "kmeans_start n xs ys =
     (let pick = \<lambda>points. map (\<lambda>i. points ! (length points div n * i)) [0..<n]
      in \<lparr>k_means_x = pick xs, k_means_y = pick ys, k_assignment = replicate (length xs) 0\<rparr>)"

lemma kmeans_start_ok: "kmeans_ok n (length xs) (kmeans_start n xs ys)"
  by (simp add: kmeans_ok_def kmeans_start_def)

lemma rounds_ok: "kmeans_ok n (length xs) ((lloyd p n xs ys ^^ m) (kmeans_start n xs ys))"
  by (cases m) (simp_all add: kmeans_start_ok lloyd_ok)

lemma initial_means_picks:
  assumes "points \<noteq> []"
  shows "initial_means n points = Inr (map (\<lambda>i. points ! (length points div n * i)) [0..<n])"
proof -
  have "length points div n * i < length points" if "i < n" for i
  proof (cases "length points div n = 0")
    case False
    then have "length points div n * i < length points div n * n" using that by simp
    also have "\<dots> \<le> length points" by simp
    finally show ?thesis .
  qed (use assms in simp)
  then have "initial_means n points = Inr ([] @ map (\<lambda>i. points ! (length points div n * i)) [0..<n])"
    unfolding initial_means_def by (intro res_fold_collect) simp
  then show ?thesis by simp
qed

definition sent_means :: "bool \<Rightarrow> kmeans_state \<Rightarrow> 64 word list" where
  "sent_means y s = (if y then k_means_y s else k_means_x s)"

lemma kmeans_rounds:
  assumes "0 < n" and "0 < p" and "length ys = length xs" and "kmeans_ok n (length xs) s"
    and "\<And>it y. it < m \<Longrightarrow> share it y (sent_means y ((lloyd p n xs ys ^^ it) s)) =
      Inr (replicate p (sent_means y ((lloyd p n xs ys ^^ it) s)))"
  shows "res_fold (kmeans_round share p n xs ys) s [0..<m] = Inr ((lloyd p n xs ys ^^ m) s)"
  using assms(5)
proof (induction m)
  case (Suc m)
  have "kmeans_ok n (length xs) ((lloyd p n xs ys ^^ m) s)"
    using assms(4) by (cases m) (simp_all add: lloyd_ok)
  then have "kmeans_round share p n xs ys ((lloyd p n xs ys ^^ m) s) m =
      Inr (lloyd p n xs ys ((lloyd p n xs ys ^^ m) s))"
    using assms(1,3) Suc.prems [of m False] Suc.prems [of m True]
    by (intro kmeans_round_lloyd) (simp_all add: sent_means_def)
  then show ?case using Suc by (simp add: res_fold_append res_fold_single)
qed simp

lemma kmeans_main_lloyd:
  assumes "0 < n" and "0 < p" and "xs \<noteq> []" and "length ys = length xs"
    and "\<And>it y. it < m \<Longrightarrow> share it y (sent_means y ((lloyd p n xs ys ^^ it) (kmeans_start n xs ys))) =
      Inr (replicate p (sent_means y ((lloyd p n xs ys ^^ it) (kmeans_start n xs ys))))"
  shows "kmeans_main share p n m xs ys = Inr ((lloyd p n xs ys ^^ m) (kmeans_start n xs ys))"
proof -
  have "ys \<noteq> []" using assms(3,4) by auto
  moreover have "res_fold (kmeans_round share p n xs ys) (kmeans_start n xs ys) [0..<m] =
      Inr ((lloyd p n xs ys ^^ m) (kmeans_start n xs ys))"
    using assms by (intro kmeans_rounds kmeans_start_ok) simp_all
  ultimately show ?thesis
    using assms(3,4) by (simp add: kmeans_main_def initial_means_picks kmeans_start_def Let_def)
qed

lemma kmeans_lloyd:
  assumes "0 < n" and "0 < p" and "xs \<noteq> []" and "length ys = length xs"
  shows "kmeans p n m xs ys = Inr ((lloyd p n xs ys ^^ m) (kmeans_start n xs ys))"
  unfolding kmeans_def using assms by (intro kmeans_main_lloyd) simp_all

lemma lloyd_one: "p dvd length xs \<Longrightarrow> lloyd p n xs ys = lloyd 1 n xs ys"
  by (simp add: fun_eq_iff lloyd_def)

text \<open>The assignments stay below the number of clusters; the tail stays where it was.\<close>

lemma closest_less:
  assumes "0 < n" shows "closest n D < n"
proof -
  have "snd (foldl (\<lambda>(least, k) j. if flt (D j) least then (D j, j) else (least, k)) (v, k) js) < n"
    if "k < n" "set js \<subseteq> {0..<n}" for v k js
    using that by (induction js arbitrary: v k) auto
  then show ?thesis using assms by (auto simp: closest_def)
qed

lemma lloyd_assignment_less:
  assumes "0 < n" and "length (k_assignment s) = length xs" and "\<forall>k \<in> set (k_assignment s). k < n"
  shows "\<forall>k \<in> set (k_assignment (lloyd p n xs ys s)). k < n"
  using assms closest_less [OF assms(1)] by (auto simp: lloyd_def Let_def)

lemma lloyd_tail:
  assumes "p * (length xs div p) \<le> j" and "j < length xs"
  shows "k_assignment (lloyd p n xs ys s) ! j = k_assignment s ! j"
  using assms by (simp add: lloyd_def Let_def)


section \<open>What the program computes\<close>

text \<open>C18: Functional correctness of the assignment in kmeans.c.  When there is a cluster and none of the distances from the
  point to the means is a NaN, the cluster the loop of assign2Cluster chooses is the first one whose mean is nearest:
  no mean is nearer, and every mean before it is strictly farther.\<close>

theorem nearest_mean_is_first_least:
  assumes "0 < n" and "n \<le> length k_x" and "n \<le> length k_y"
    and "\<forall>j < n. \<not> is_nan (dist_to k_x k_y px py j)"
  shows "\<exists>k. nearest n k_x k_y px py = Inr k \<and> k < n \<and>
    (\<forall>j < n. fle (dist_to k_x k_y px py k) (dist_to k_x k_y px py j)) \<and>
    (\<forall>j < k. flt (dist_to k_x k_y px py k) (dist_to k_x k_y px py j))"
  using nearest_closest [OF assms(1-3)] closest_least [OF assms(1,4)] by simp

text \<open>Three means at distance 5, 1 and 1 from the origin.\<close>

theorem nearest_mean_is_first_least_witness:
  "nearest 3 [fint 3, fint 1, fint 0] [fint 4, fint 0, fint 1] (fint 0) (fint 0) = Inr 1 \<and>
   (\<exists>k. nearest 3 [fint 3, fint 1, fint 0] [fint 4, fint 0, fint 1] (fint 0) (fint 0) = Inr k \<and> k < 3)"
proof -
  let ?D = "dist_to [fint 3, fint 1, fint 0] [fint 4, fint 0, fint 1] (fint 0) (fint 0)"
  have "\<not> is_nan (?D 0)" "\<not> is_nan (?D 1)" "\<not> is_nan (?D 2)" by code_simp+
  moreover have "j = 0 \<or> j = 1 \<or> j = 2" if "j < 3" for j :: nat using that by linarith
  ultimately have "\<forall>j < 3. \<not> is_nan (?D j)" by metis
  then have "\<exists>k. nearest 3 [fint 3, fint 1, fint 0] [fint 4, fint 0, fint 1] (fint 0) (fint 0) = Inr k \<and> k < 3"
    using nearest_mean_is_first_least [of 3 "[fint 3, fint 1, fint 0]" "[fint 4, fint 0, fint 1]" "fint 0" "fint 0"] by auto
  moreover have "nearest 3 [fint 3, fint 1, fint 0] [fint 4, fint 0, fint 1] (fint 0) (fint 0) = Inr 1"
    by code_simp
  ultimately show ?thesis by simp
qed

text \<open>C14: Refinement of kmeans.c.  For a positive number of clusters and of processes that divides the number of points, the
  program returns, and its means and assignments are those of so many rounds of Lloyd's algorithm on a single
  processor: every point to the first nearest mean, every nonempty cluster to the mean of its points, summed in
  their order.  So the result does not depend on the number of processes, to the last bit.\<close>

theorem kmeans_is_lloyd:
  assumes "0 < n" and "0 < p" and "xs \<noteq> []" and "length ys = length xs" and "p dvd length xs"
  shows "kmeans p n m xs ys = Inr ((lloyd 1 n xs ys ^^ m) (kmeans_start n xs ys)) \<and>
    kmeans p n m xs ys = kmeans 1 n m xs ys"
  using kmeans_lloyd [OF assms(1-4)] kmeans_lloyd [OF assms(1) zero_less_one assms(3,4)] lloyd_one [OF assms(5)]
  by simp

text \<open>Four points, two clusters, two processes, two rounds.\<close>

theorem kmeans_is_lloyd_witness:
  "let xs = [fint 0, fint 4, fint 0, fint 4]; ys = [fint 0, fint 0, fint 1, fint 1]
   in kmeans 2 2 2 xs ys = kmeans 1 2 2 xs ys \<and>
      kmeans 2 2 2 xs ys = Inr \<lparr>k_means_x = [fint 2, fint 2], k_means_y = [fint 0, fint 1], k_assignment = [0, 0, 1, 1]\<rparr>"
proof -
  have "kmeans 2 2 2 [fint 0, fint 4, fint 0, fint 4] [fint 0, fint 0, fint 1, fint 1] =
      kmeans 1 2 2 [fint 0, fint 4, fint 0, fint 4] [fint 0, fint 0, fint 1, fint 1]"
    by (rule kmeans_is_lloyd [THEN conjunct2]) simp_all
  moreover have "kmeans 2 2 2 [fint 0, fint 4, fint 0, fint 4] [fint 0, fint 0, fint 1, fint 1] =
      Inr \<lparr>k_means_x = [fint 2, fint 2], k_means_y = [fint 0, fint 1], k_assignment = [0, 0, 1, 1]\<rparr>" by code_simp
  ultimately show ?thesis by (simp only: Let_def simp_thms)
qed

text \<open>C19: Types of the state of kmeans.c.  Whatever the points are, NaNs and infinities included, and whether or not the
  number of processes divides theirs, the program returns one mean in each coordinate per cluster and one cluster
  number below numOfClusters per point: assign2Cluster and MPI_Gather never write outside k_assignment.\<close>

theorem kmeans_state_typed:
  assumes "0 < n" and "0 < p" and "xs \<noteq> []" and "length ys = length xs"
  shows "\<exists>s. kmeans p n m xs ys = Inr s \<and> length (k_means_x s) = n \<and> length (k_means_y s) = n \<and>
    length (k_assignment s) = length xs \<and> (\<forall>k \<in> set (k_assignment s). k < n)"
proof -
  have "\<forall>k \<in> set (k_assignment ((lloyd p n xs ys ^^ m) (kmeans_start n xs ys))). k < n"
  proof (induction m)
    case 0
    then show ?case using assms(1) by (simp add: kmeans_start_def Let_def)
  next
    case (Suc m)
    then show ?case
      using rounds_ok [of n xs m p ys] lloyd_assignment_less [OF assms(1), of "(lloyd p n xs ys ^^ m) (kmeans_start n xs ys)"]
      by (simp add: kmeans_ok_def)
  qed
  then show ?thesis using kmeans_lloyd [OF assms] rounds_ok [of n xs m p ys] by (simp add: kmeans_ok_def)
qed

text \<open>Three points for two processes, the second one not a number.\<close>

theorem kmeans_state_typed_witness:
  "\<exists>s. kmeans 2 2 1 [fint 0, qnan, fint 4] [fint 0, fint 0, fint 4] = Inr s \<and> length (k_assignment s) = 3"
  using kmeans_state_typed [of 2 2 "[fint 0, qnan, fint 4]" "[fint 0, fint 0, fint 4]" 1] by auto

text \<open>Behaviour outside the condition that the comment at the top of kmeans.c states.  The program does not check
  that the number of processes divides the number of points.  When it does not, the remaining points stay in
  cluster 0 however many rounds there are, and they count in its mean.\<close>

theorem kmeans_tail_stays_in_first_cluster:
  assumes "0 < n" and "0 < p" and "length ys = length xs" and "p * (length xs div p) \<le> j" and "j < length xs"
  shows "\<exists>s. kmeans p n m xs ys = Inr s \<and> k_assignment s ! j = 0"
proof -
  have "k_assignment ((lloyd p n xs ys ^^ m) (kmeans_start n xs ys)) ! j = 0"
    using assms(4,5) by (induction m) (simp_all add: lloyd_tail kmeans_start_def Let_def)
  moreover have "xs \<noteq> []" using assms(5) by auto
  ultimately show ?thesis using kmeans_lloyd [OF assms(1,2) _ assms(3)] by simp
qed

text \<open>The last of three points is the only one at the second mean, but two processes leave it in the first cluster.\<close>

theorem kmeans_tail_stays_in_first_cluster_witness:
  "(\<exists>s. kmeans 2 2 1 [fint 0, fint 4, fint 4] [fint 0, fint 0, fint 0] = Inr s \<and> k_assignment s ! 2 = 0) \<and>
   (\<exists>s. kmeans 1 2 1 [fint 0, fint 4, fint 4] [fint 0, fint 0, fint 0] = Inr s \<and> k_assignment s ! 2 = 1)"
proof
  show "\<exists>s. kmeans 2 2 1 [fint 0, fint 4, fint 4] [fint 0, fint 0, fint 0] = Inr s \<and> k_assignment s ! 2 = 0"
    by (rule kmeans_tail_stays_in_first_cluster) simp_all
  have "res_bind (kmeans 1 2 1 [fint 0, fint 4, fint 4] [fint 0, fint 0, fint 0]) (\<lambda>s. Inr (k_assignment s)) = Inr [0, 1, 1]"
    by code_simp
  then show "\<exists>s. kmeans 1 2 1 [fint 0, fint 4, fint 4] [fint 0, fint 0, fint 0] = Inr s \<and> k_assignment s ! 2 = 1"
    by (auto simp: res_bind_Inr_iff)
qed

text \<open>C17: kmeans_abft.c computes the same means and assignments as kmeans.c although the network alters the means, if in every
  round the means as they are sent, first the x and then the y coordinates, reach each rank repairable: no block with more
  than two wrong bits, altered data told by the CRC, control messages intact.\<close>

theorem kmeans_abft_is_kmeans:
  assumes "0 < n" and "0 < p" and "xs \<noteq> []" and "length ys = length xs"
    and "\<forall>it < m. \<forall>y. \<forall>rank < p. rank \<noteq> 0 \<longrightarrow>
      repairable crc32 (tx it y) (sent_means y ((lloyd p n xs ys ^^ it) (kmeans_start n xs ys))) rank"
  shows "kmeans_abft crc32 tx p n m xs ys = kmeans p n m xs ys"
  unfolding kmeans_lloyd [OF assms(1-4)] kmeans_abft_def
proof (intro kmeans_main_lloyd assms(1-4))
  fix it y
  assume "it < m"
  moreover have "length (sent_means y ((lloyd p n xs ys ^^ it) (kmeans_start n xs ys))) = n"
    using rounds_ok [of n xs it p ys] by (simp add: sent_means_def kmeans_ok_def)
  ultimately show "MPI_Bcast_abft crc32 (tx it y) (sent_means y ((lloyd p n xs ys ^^ it) (kmeans_start n xs ys)))
      (length (sent_means y ((lloyd p n xs ys ^^ it) (kmeans_start n xs ys)))) 0 p =
    Inr (replicate p (sent_means y ((lloyd p n xs ys ^^ it) (kmeans_start n xs ys))))"
    using assms(1,2,5) by (intro abft_all_receive) auto
qed

text \<open>One mean that starts at (1.5, 1.5), one round, two flips in each message.\<close>

theorem kmeans_abft_is_kmeans_witness:
  "let xs = [0x3FF8000000000000, fint 3] in
   kmeans_abft checksum (\<lambda>it y. altering (\<lambda>d. d[0 := 3])) 2 1 1 xs xs = kmeans 2 1 1 xs xs \<and>
   kmeans 2 1 1 xs xs = Inr \<lparr>k_means_x = [0x4002000000000000], k_means_y = [0x4002000000000000], k_assignment = [0, 0]\<rparr>"
proof -
  let ?xs = "[0x3FF8000000000000, fint 3] :: 64 word list"
  have "sent_means y ((lloyd 2 1 ?xs ?xs ^^ 0) (kmeans_start 1 ?xs ?xs)) = [0x3FF8000000000000]" for y
    by (simp add: sent_means_def kmeans_start_def)
  then have "\<forall>it < 1. \<forall>y. \<forall>rank < 2. rank \<noteq> 0 \<longrightarrow> repairable checksum (altering (\<lambda>d. d[0 := 3]))
      (sent_means y ((lloyd 2 1 ?xs ?xs ^^ it) (kmeans_start 1 ?xs ?xs))) rank"
    by (simp add: repairable_1_5)
  then have "kmeans_abft checksum (\<lambda>it y. altering (\<lambda>d. d[0 := 3])) 2 1 1 ?xs ?xs = kmeans 2 1 1 ?xs ?xs"
    by (intro kmeans_abft_is_kmeans) simp_all
  moreover have "kmeans 2 1 1 ?xs ?xs =
      Inr \<lparr>k_means_x = [0x4002000000000000], k_means_y = [0x4002000000000000], k_assignment = [0, 0]\<rparr>" by code_simp
  ultimately show ?thesis by (simp only: Let_def simp_thms)
qed

end
