(* ===== verification/KMeansComp.thy ===== *)
theory KMeansComp
  imports LinAlgComp KMeans
begin

text \<open>
  The program \<open>kmeans_comp.c\<close> of \<open>app/src\<close>: the program of \<open>KMeans\<close> with the broadcasts of \<open>CtBcast\<close>.
  Every rank keeps its arrays of means from round to round; what \<open>malloc\<close> leaves in them is a parameter.
\<close>

section \<open>k-means\<close>

text \<open>What a rank has: its means and counters; those of rank 0 are the means the root computes.  With CT = 8 and 9 the two arrays
  are broadcast one after the other; else the errors of both are summed up together.  CT = 10 is not provided for.\<close>

record rank_state =
  means_x :: "64 word list"
  means_y :: "64 word list"
  tally :: counters

definition add_distances ::
  "64 word list \<Rightarrow> 64 word list \<Rightarrow> 64 word list \<Rightarrow> 64 word list \<Rightarrow> 64 word \<Rightarrow> nat \<Rightarrow> 64 word" where
  "add_distances new_x k_x new_y k_y gs i = add_distance new_y k_y (add_distance new_x k_x gs i) i"

definition take_means :: "received \<Rightarrow> received \<Rightarrow> nat \<Rightarrow> bool \<Rightarrow> rank_state \<Rightarrow> rank_state" where
  "take_means rx ry n is_root r =
     (case rx of (count_x, new_x) \<Rightarrow> case ry of (count_y, new_y) \<Rightarrow>
        let cs = count_y (count_x (tally r));
            gs = (if is_root then foldl (add_distances new_x (means_x r) new_y (means_y r)) (fint 0) [0..<n] else fint 0)
        in \<lparr>means_x = if is_root then means_x r else new_x @ drop n (means_x r),
            means_y = if is_root then means_y r else new_y @ drop n (means_y r),
            tally = cs\<lparr>gosa := fadd (gosa cs) (fdiv gs (fint (int n)))\<rparr>\<rparr>)"

definition share_means_ct ::
  "surroundings \<Rightarrow> surroundings \<Rightarrow> int \<Rightarrow> nat \<Rightarrow> rank_state list \<Rightarrow> rank_state list result" where
  "share_means_ct sur_x sur_y CT n ranks =
     (if CT = 9 \<or> CT = 8
      then res_bind (bcast_ct fadd sur_x CT (map (\<lambda>r. (means_x r, tally r)) ranks) n 0) (\<lambda>rx.
           res_bind (bcast_ct fadd sur_y CT (map2 (\<lambda>x r. (means_y r, snd x)) rx ranks) n 0) (\<lambda>ry.
             Inr (map2 (\<lambda>x y. \<lparr>means_x = fst x, means_y = fst y, tally = snd y\<rparr>) rx ry)))
      else if CT \<in> {7, 6, 5, 4, 1}
      then res_bind (received sur_x CT (take n (means_x (ranks ! 0))) n) (\<lambda>rx.
           res_bind (received sur_y CT (take n (means_y (ranks ! 0))) n) (\<lambda>ry.
             Inr (map (\<lambda>rank. take_means rx ry n (rank = 0) (ranks ! rank)) [0..<length ranks])))
      else if CT = 0
      then Inr (map (\<lambda>r. r\<lparr>means_x := take n (means_x (ranks ! 0)) @ drop n (means_x r),
             means_y := take n (means_y (ranks ! 0)) @ drop n (means_y r)\<rparr>) ranks)
      else Inr ranks)"

definition kmeans_comp_round ::
  "(nat \<Rightarrow> bool \<Rightarrow> surroundings) \<Rightarrow> int \<Rightarrow> nat \<Rightarrow> nat \<Rightarrow> 64 word list \<Rightarrow> 64 word list \<Rightarrow> kmeans_state \<times> rank_state list \<Rightarrow> nat \<Rightarrow>
   (kmeans_state \<times> rank_state list) result" where
  "kmeans_comp_round sur CT world_size numOfClusters data_x_points data_y_points s it =
     (case s of (means, ranks) \<Rightarrow>
        res_bind (share_means_ct (sur it False) (sur it True) CT numOfClusters
          (ranks[0 := (ranks ! 0)\<lparr>means_x := k_means_x means, means_y := k_means_y means\<rparr>])) (\<lambda>ranks.
        res_bind (kmeans_round (\<lambda>_ y _. Inr (map (if y then means_y else means_x) ranks))
            world_size numOfClusters data_x_points data_y_points means it) (\<lambda>means. Inr (means, ranks))))"

definition kmeans_comp ::
  "(nat \<Rightarrow> bool \<Rightarrow> surroundings) \<Rightarrow> int \<Rightarrow> (nat \<Rightarrow> 64 word list) \<Rightarrow> (nat \<Rightarrow> 64 word list) \<Rightarrow> nat \<Rightarrow> nat \<Rightarrow> nat \<Rightarrow>
   64 word list \<Rightarrow> 64 word list \<Rightarrow> (kmeans_state \<times> rank_state list) result" where
  "kmeans_comp sur CT heap_x heap_y world_size numOfClusters max_iterations data_x_points data_y_points =
     res_bind (initial_means numOfClusters data_x_points) (\<lambda>kx. res_bind (initial_means numOfClusters data_y_points) (\<lambda>ky.
       res_fold (kmeans_comp_round sur CT world_size numOfClusters data_x_points data_y_points)
         (\<lparr>k_means_x = kx, k_means_y = ky, k_assignment = replicate (length data_x_points) 0\<rparr>,
          map (\<lambda>rank. \<lparr>means_x = heap_x rank, means_y = heap_y rank, tally = no_counts\<rparr>) [0..<world_size])
         [0..<max_iterations]))"

definition ranks_ok :: "nat \<Rightarrow> nat \<Rightarrow> rank_state list \<Rightarrow> bool" where
  "ranks_ok p n ranks \<longleftrightarrow> length ranks = p \<and> (\<forall>r \<in> set ranks. length (means_x r) = n \<and> length (means_y r) = n)"

lemma share_means_plain:
  assumes "share_means_ct sur_x sur_y CT n ranks = Inr new" and "CT = 0 \<or> p = 1" and "0 < p" and "ranks_ok p n ranks"
  shows "ranks_ok p n new \<and> map means_x new = replicate p (means_x (ranks ! 0)) \<and> map means_y new = replicate p (means_y (ranks ! 0))"
  using assms(2)
proof
  assume "CT = 0"
  let ?x = "means_x (ranks ! 0)" and ?y = "means_y (ranks ! 0)"
  have len: "length ranks = p" "\<And>r. r \<in> set ranks \<Longrightarrow> length (means_x r) = n \<and> length (means_y r) = n"
    using assms(4) by (simp_all add: ranks_ok_def)
  have "length ?x = n" "length ?y = n" using len assms(3) by (metis nth_mem)+
  then have "new = map (\<lambda>r. r\<lparr>means_x := ?x, means_y := ?y\<rparr>) ranks"
    using assms(1) \<open>CT = 0\<close> len by (auto simp: share_means_ct_def)
  then show ?thesis
    using len \<open>length ?x = n\<close> \<open>length ?y = n\<close> by (simp add: ranks_ok_def comp_def map_replicate_const)
next
  assume "p = 1"
  then obtain r where r: "ranks = [r]" "length (means_x r) = n" "length (means_y r) = n"
    using assms(4) by (cases ranks) (auto simp: ranks_ok_def)
  consider "CT = 9 \<or> CT = 8" | "CT \<in> {7, 6, 5, 4, 1}" | "CT = 0" | "new = ranks"
    using assms(1) by (auto simp: share_means_ct_def split: if_splits)
  then have "\<exists>r'. new = [r'] \<and> means_x r' = means_x r \<and> means_y r' = means_y r"
  proof cases
    case 1
    then obtain rx ry where rx: "bcast_ct fadd sur_x CT [(means_x r, tally r)] n 0 = Inr rx"
      and ry: "bcast_ct fadd sur_y CT (map2 (\<lambda>x r. (means_y r, snd x)) rx [r]) n 0 = Inr ry"
      and new: "new = map2 (\<lambda>x y. \<lparr>means_x = fst x, means_y = fst y, tally = snd y\<rparr>) rx ry"
      using assms(1) unfolding r(1) share_means_ct_def by (auto simp: res_bind_Inr_iff)
    obtain cs where "rx = [(means_x r, cs)]" using rx by (rule bcast_single)
    moreover obtain cs' where "ry = [(means_y r, cs')]" using ry unfolding calculation by (auto elim: bcast_single)
    ultimately show ?thesis using new by simp
  next
    case 2
    then show ?thesis using assms(1) unfolding r(1)
      by (auto simp: share_means_ct_def res_bind_Inr_iff take_means_def Let_def split: prod.splits)
  next
    case 3
    then show ?thesis using assms(1) r by (auto simp: share_means_ct_def)
  qed (use r in simp)
  then show ?thesis using r \<open>p = 1\<close> by (auto simp: ranks_ok_def)
qed

lemma ranks_ok_root:
  "0 < p \<Longrightarrow> ranks_ok p n ranks \<Longrightarrow> kmeans_ok n e s \<Longrightarrow>
    ranks_ok p n (ranks[0 := (ranks ! 0)\<lparr>means_x := k_means_x s, means_y := k_means_y s\<rparr>])"
  by (cases ranks) (auto simp: ranks_ok_def kmeans_ok_def)

lemma kmeans_comp_round_plain:
  assumes "kmeans_comp_round sur CT p n xs ys (s, ranks) it = Inr (s', ranks')" and "CT = 0 \<or> p = 1" and "0 < p" and "0 < n"
    and "length ys = length xs" and "ranks_ok p n ranks" and "kmeans_ok n (length xs) s"
  shows "ranks_ok p n ranks' \<and> s' = lloyd p n xs ys s"
proof -
  let ?ranks = "ranks[0 := (ranks ! 0)\<lparr>means_x := k_means_x s, means_y := k_means_y s\<rparr>]"
  from assms(1) have share: "share_means_ct (sur it False) (sur it True) CT n ?ranks = Inr ranks'"
    and round: "kmeans_round (\<lambda>_ y _. Inr (map (if y then means_y else means_x) ranks')) p n xs ys s it = Inr s'"
    by (auto simp: kmeans_comp_round_def res_bind_Inr_iff)
  have "ranks \<noteq> []" using assms(3,6) by (auto simp: ranks_ok_def)
  then have root: "means_x (?ranks ! 0) = k_means_x s" "means_y (?ranks ! 0) = k_means_y s" by simp_all
  have "ranks_ok p n ranks' \<and> map means_x ranks' = replicate p (k_means_x s) \<and> map means_y ranks' = replicate p (k_means_y s)"
    using share_means_plain [OF share assms(2,3) ranks_ok_root [OF assms(3,6,7)]] by (simp only: root)
  moreover from this have "kmeans_round (\<lambda>_ y _. Inr (map (if y then means_y else means_x) ranks')) p n xs ys s it =
      Inr (lloyd p n xs ys s)"
    using assms(4,5,7) by (intro kmeans_round_lloyd) simp_all
  ultimately show ?thesis using round by simp
qed

text \<open>C24: With CT = 0 kmeans_comp.c computes the means and assignments of kmeans.c, and on a single process it does so with any
  compression that returns at all.\<close>

theorem kmeans_comp_plain:
  assumes "kmeans_comp sur CT heap_x heap_y p n m xs ys = Inr (s, ranks)" and "CT = 0 \<or> p = 1"
    and "0 < p" and "0 < n" and "xs \<noteq> []" and "length ys = length xs"
    and "\<forall>rank. length (heap_x rank) = n \<and> length (heap_y rank) = n"
  shows "kmeans p n m xs ys = Inr s"
proof -
  let ?ranks = "map (\<lambda>rank. \<lparr>means_x = heap_x rank, means_y = heap_y rank, tally = no_counts\<rparr>) [0..<p]"
  have "ys \<noteq> []" using assms(5,6) by auto
  then have run: "res_fold (kmeans_comp_round sur CT p n xs ys) (kmeans_start n xs ys, ?ranks) [0..<m] = Inr (s, ranks)"
    using assms(1,5,6) by (simp add: kmeans_comp_def initial_means_picks kmeans_start_def Let_def)
  have "(ranks_ok p n (snd (s, ranks)) \<and> kmeans_ok n (length xs) (fst (s, ranks))) \<and>
      res_fold (\<lambda>s _. Inr (lloyd p n xs ys s)) (fst (kmeans_start n xs ys, ?ranks)) [0..<m] = Inr (fst (s, ranks))"
  proof (rule res_fold_simulation [OF run])
    show "ranks_ok p n (snd (kmeans_start n xs ys, ?ranks)) \<and> kmeans_ok n (length xs) (fst (kmeans_start n xs ys, ?ranks))"
      using assms(7) by (auto simp: ranks_ok_def kmeans_start_ok)
    fix t t' it
    assume "ranks_ok p n (snd t) \<and> kmeans_ok n (length xs) (fst t)"
      and "kmeans_comp_round sur CT p n xs ys t it = Inr t'"
    then show "(ranks_ok p n (snd t') \<and> kmeans_ok n (length xs) (fst t')) \<and> Inr (lloyd p n xs ys (fst t)) = Inr (fst t')"
      using kmeans_comp_round_plain [OF _ assms(2-4,6), of sur "fst t" "snd t" it "fst t'" "snd t'"]
      by (simp add: lloyd_ok)
  qed
  moreover have "res_fold (\<lambda>s _. Inr (lloyd p n xs ys s)) s0 [0..<m] = Inr ((lloyd p n xs ys ^^ m) s0)" for s0
    by (induction m) (simp_all add: res_fold_append res_fold_single)
  ultimately show ?thesis using kmeans_lloyd [OF assms(4,3,5,6)] by simp
qed

text \<open>Two processes, four points, two clusters; the arrays of the second process hold nothing yet.\<close>

theorem kmeans_comp_plain_witness:
  "(\<exists>ranks. kmeans_comp (\<lambda>_ _. quiet) 0 (\<lambda>_. [0, 0]) (\<lambda>_. [0, 0]) 2 2 2 [fint 0, fint 4, fint 0, fint 4] [fint 0, fint 0, fint 1, fint 1] =
     Inr (\<lparr>k_means_x = [fint 2, fint 2], k_means_y = [fint 0, fint 1], k_assignment = [0, 0, 1, 1]\<rparr>, ranks)) \<and>
   kmeans 2 2 2 [fint 0, fint 4, fint 0, fint 4] [fint 0, fint 0, fint 1, fint 1] =
     Inr \<lparr>k_means_x = [fint 2, fint 2], k_means_y = [fint 0, fint 1], k_assignment = [0, 0, 1, 1]\<rparr>"
proof -
  have run: "kmeans_comp (\<lambda>_ _. quiet) 0 (\<lambda>_. [0, 0]) (\<lambda>_. [0, 0]) 2 2 2 [fint 0, fint 4, fint 0, fint 4] [fint 0, fint 0, fint 1, fint 1] =
     Inr (\<lparr>k_means_x = [fint 2, fint 2], k_means_y = [fint 0, fint 1], k_assignment = [0, 0, 1, 1]\<rparr>,
       replicate 2 \<lparr>means_x = [fint 2, fint 2], means_y = [fint 0, fint 1], tally = no_counts\<rparr>)" by code_simp
  then have "kmeans 2 2 2 [fint 0, fint 4, fint 0, fint 4] [fint 0, fint 0, fint 1, fint 1] =
     Inr \<lparr>k_means_x = [fint 2, fint 2], k_means_y = [fint 0, fint 1], k_assignment = [0, 0, 1, 1]\<rparr>"
    by (rule kmeans_comp_plain) simp_all
  then show ?thesis using run by blast
qed

lemma kmeans_comp_round_ranks:
  assumes "share_means_ct (sur it False) (sur it True) CT n
      (ranks[0 := (ranks ! 0)\<lparr>means_x := k_means_x s, means_y := k_means_y s\<rparr>]) = Inr ranks'"
    and "ranks_ok p n ranks'" and "kmeans_ok n (length xs) s" and "0 < n" and "length ys = length xs"
  shows "kmeans_comp_round sur CT p n xs ys (s, ranks) it =
    Inr (ranks_round p n xs ys (map means_x ranks') (map means_y ranks') s, ranks')"
proof -
  have "kmeans_round (\<lambda>_ y _. Inr (map (if y then means_y else means_x) ranks')) p n xs ys s it =
      Inr (ranks_round p n xs ys (map means_x ranks') (map means_y ranks') s)"
    using assms(2-5) by (intro kmeans_round_ranks) (simp_all add: ranks_ok_def)
  then show ?thesis by (simp add: kmeans_comp_round_def assms(1))
qed

lemma head_rest:
  assumes "0 < p" and "length xs = p" and "\<And>i. i < p \<Longrightarrow> xs ! i = (if i = 0 then a else b)"
  shows "xs = a # replicate (p - 1) b"
  using assms by (intro nth_equalityI) (auto simp: nth_Cons')

text \<open>C23: A round of kmeans_comp.c with a compression that is not checked, CT = 1, 4, 5, 6 or 7: rank 0 assigns its points to the
  means the root has computed, every other rank assigns its points to the means as they were received, and the root computes the
  new means from all assignments.\<close>

theorem kmeans_comp_round_received:
  assumes "CT \<in> {1, 4, 5, 6, 7}" and "0 < p" and "0 < n" and "length ys = length xs"
    and "kmeans_ok n (length xs) s" and "ranks_ok p n ranks"
    and "received (sur it False) CT (k_means_x s) n = Inr (count_x, new_x)"
    and "received (sur it True) CT (k_means_y s) n = Inr (count_y, new_y)"
  shows "\<exists>ranks'. ranks_ok p n ranks' \<and> kmeans_comp_round sur CT p n xs ys (s, ranks) it =
    Inr (ranks_round p n xs ys (k_means_x s # replicate (p - 1) new_x) (k_means_y s # replicate (p - 1) new_y) s, ranks')"
proof -
  let ?ranks = "ranks[0 := (ranks ! 0)\<lparr>means_x := k_means_x s, means_y := k_means_y s\<rparr>]"
  define new where "new = map (\<lambda>rank. take_means (count_x, new_x) (count_y, new_y) n (rank = 0) (?ranks ! rank)) [0..<length ?ranks]"
  have len: "length (k_means_x s) = n" "length (k_means_y s) = n" "length ranks = p" "length new_x = n" "length new_y = n"
    using assms(5,6) received_length [OF assms(7)] received_length [OF assms(8)] by (simp_all add: kmeans_ok_def ranks_ok_def)
  then have "ranks \<noteq> []" using assms(2) by auto
  then have root: "means_x (?ranks ! 0) = k_means_x s" "means_y (?ranks ! 0) = k_means_y s" by simp_all
  have old: "length (means_x (ranks ! rank)) = n" "length (means_y (ranks ! rank)) = n" if "rank < p" for rank
    using assms(6) that by (simp_all add: ranks_ok_def)
  have share: "share_means_ct (sur it False) (sur it True) CT n ?ranks = Inr new"
    using assms(1,7,8) len root by (auto simp: share_means_ct_def new_def)
  have new: "means_x (new ! rank) = (if rank = 0 then k_means_x s else new_x)"
      "means_y (new ! rank) = (if rank = 0 then k_means_y s else new_y)" if "rank < p" for rank
    using that len old [OF that] root by (simp_all add: new_def take_means_def Let_def)
  have p: "length new = p" using len by (simp add: new_def)
  then have ok: "ranks_ok p n new"
    using new len unfolding ranks_ok_def all_set_conv_all_nth by simp
  moreover have "kmeans_comp_round sur CT p n xs ys (s, ranks) it =
      Inr (ranks_round p n xs ys (map means_x new) (map means_y new) s, new)"
    using share ok assms(3-5) by (intro kmeans_comp_round_ranks)
  moreover have "map means_x new = k_means_x s # replicate (p - 1) new_x" "map means_y new = k_means_y s # replicate (p - 1) new_y"
    using new p by (intro head_rest assms(2); simp)+
  ultimately show ?thesis by metis
qed

text \<open>Two processes, the means 1, 1 and 2.5, 2.5, and each of the points at them twice.\<close>

theorem kmeans_comp_round_received_witness:
  "\<exists>ranks'. kmeans_comp_round (\<lambda>_ _. quiet) 5 2 2
      [0x3FF0000000000000, 0x4004000000000000, 0x3FF0000000000000, 0x4004000000000000]
      [0x3FF0000000000000, 0x4004000000000000, 0x3FF0000000000000, 0x4004000000000000]
      (\<lparr>k_means_x = [0x3FF0000000000000, 0x4004000000000000], k_means_y = [0x3FF0000000000000, 0x4004000000000000],
        k_assignment = [0, 0, 0, 0]\<rparr>, replicate 2 \<lparr>means_x = [0, 0], means_y = [0, 0], tally = no_counts\<rparr>) 0 =
    Inr (\<lparr>k_means_x = [0x3FF0000000000000, 0x4004000000000000], k_means_y = [0x3FF0000000000000, 0x4004000000000000],
        k_assignment = [0, 1, 0, 1]\<rparr>, ranks')"
proof -
  let ?k = "[0x3FF0000000000000 :: 64 word, 0x4004000000000000]" and ?new = "[0x3FF0000000000000 :: 64 word, 0x4004000040000000]"
  let ?xs = "[0x3FF0000000000000 :: 64 word, 0x4004000000000000, 0x3FF0000000000000, 0x4004000000000000]"
  let ?s = "\<lparr>k_means_x = ?k, k_means_y = ?k, k_assignment = [0, 0, 0, 0]\<rparr>"
  have rec: "received ((\<lambda>_ _. quiet) 0 False) 5 (k_means_x ?s) 2 = Inr (add_ratio 5 2, ?new)"
    "received ((\<lambda>_ _. quiet) 0 True) 5 (k_means_y ?s) 2 = Inr (add_ratio 5 2, ?new)"
    by (simp_all add: received_example)
  have round: "\<exists>ranks'. ranks_ok 2 2 ranks' \<and>
      kmeans_comp_round (\<lambda>_ _. quiet) 5 2 2 ?xs ?xs (?s, replicate 2 \<lparr>means_x = [0, 0], means_y = [0, 0], tally = no_counts\<rparr>) 0 =
        Inr (ranks_round 2 2 ?xs ?xs (k_means_x ?s # replicate (2 - 1) ?new) (k_means_y ?s # replicate (2 - 1) ?new) ?s, ranks')"
    by (rule kmeans_comp_round_received [OF _ _ _ _ _ _ rec]) (simp_all add: kmeans_ok_def ranks_ok_def)
  have close: "closest 2 (dist_to k k x x) = i"
    if "nearest 2 k k x x = Inr i" "length k = 2" for k x i
    using that nearest_closest [of 2 k k x x] by simp
  have "closest 2 (dist_to ?k ?k 0x3FF0000000000000 0x3FF0000000000000) = 0"
    "closest 2 (dist_to ?k ?k 0x4004000000000000 0x4004000000000000) = 1"
    "closest 2 (dist_to ?new ?new 0x3FF0000000000000 0x3FF0000000000000) = 0"
    "closest 2 (dist_to ?new ?new 0x4004000000000000 0x4004000000000000) = 1"
    by (rule close, code_simp, simp)+
  moreover have half: "Suc (Suc (Suc 0)) div Suc (Suc 0) = 1" by code_simp
  ultimately have "map (\<lambda>j. if j < 2 * (length ?xs div 2) then closest 2 (dist_to ((?k # replicate (2 - 1) ?new) ! (j div (length ?xs div 2)))
      ((?k # replicate (2 - 1) ?new) ! (j div (length ?xs div 2))) (?xs ! j) (?xs ! j)) else [0, 0, 0, 0] ! j) [0..<length ?xs] = [0, 1, 0, 1]"
    by (simp add: half upt_rec)
  moreover have "map (\<lambda>i. cluster_mean ?xs [0, 1, 0, 1] i (?k ! i)) [0..<2] = ?k" by code_simp
  ultimately have "ranks_round 2 2 ?xs ?xs (k_means_x ?s # replicate (2 - 1) ?new) (k_means_y ?s # replicate (2 - 1) ?new) ?s =
      \<lparr>k_means_x = ?k, k_means_y = ?k, k_assignment = [0, 1, 0, 1]\<rparr>"
    by (simp only: ranks_round_def Let_def kmeans_state.select_convs)
  then show ?thesis using round by auto
qed

text \<open>C31: With a number CT that the program does not know, 10 of the checked broadcasts among them, kmeans_comp.c sends no means at
  all.  Every rank but the root then assigns its points to whatever its arrays happened to hold when they were allocated, in
  every round, and the root gathers these assignments.\<close>

theorem kmeans_comp_sends_nothing:
  assumes "CT \<notin> {0, 1, 4, 5, 6, 7, 8, 9}" and "0 < p" and "0 < n" and "xs \<noteq> []" and "length ys = length xs"
    and "\<forall>rank. length (heap_x rank) = n \<and> length (heap_y rank) = n"
  shows "\<exists>s ranks. kmeans_comp sur CT heap_x heap_y p n (Suc m) xs ys = Inr (s, ranks) \<and>
    (\<forall>rank j. 0 < rank \<and> rank < p \<and> j div (length xs div p) = rank \<and> j < p * (length xs div p) \<longrightarrow>
      k_assignment s ! j = closest n (dist_to (heap_x rank) (heap_y rank) (xs ! j) (ys ! j)))"
proof -
  let ?start = "map (\<lambda>rank. \<lparr>means_x = heap_x rank, means_y = heap_y rank, tally = no_counts\<rparr>) [0..<p]"
  let ?round = "kmeans_comp_round sur CT p n xs ys"
  let ?kept = "\<lambda>ranks. ranks_ok p n ranks \<and> (\<forall>rank. 0 < rank \<and> rank < p \<longrightarrow> ranks ! rank = ?start ! rank)"
  have one: "\<exists>ranks'. ?kept ranks' \<and>
      ?round (s, ranks) it = Inr (ranks_round p n xs ys (map means_x ranks') (map means_y ranks') s, ranks')"
    if "?kept ranks" "kmeans_ok n (length xs) s" for ranks s it
  proof -
    let ?new = "ranks[0 := (ranks ! 0)\<lparr>means_x := k_means_x s, means_y := k_means_y s\<rparr>]"
    have "share_means_ct (sur it False) (sur it True) CT n ?new = Inr ?new" using assms(1) by (simp add: share_means_ct_def)
    moreover have "ranks_ok p n ?new" using ranks_ok_root assms(2) that by blast
    ultimately show ?thesis using kmeans_comp_round_ranks [OF _ _ that(2) assms(3,5)] that(1) by auto
  qed
  have runs: "\<exists>s ranks. res_fold ?round (kmeans_start n xs ys, ?start) [0..<k] = Inr (s, ranks) \<and> ?kept ranks \<and> kmeans_ok n (length xs) s" for k
  proof (induction k)
    case 0
    then show ?case using assms(6) by (simp add: ranks_ok_def kmeans_start_ok)
  next
    case (Suc k)
    then obtain s ranks where "res_fold ?round (kmeans_start n xs ys, ?start) [0..<k] = Inr (s, ranks)"
      "?kept ranks" "kmeans_ok n (length xs) s" by blast
    moreover from this obtain ranks' where "?kept ranks'"
      "?round (s, ranks) k = Inr (ranks_round p n xs ys (map means_x ranks') (map means_y ranks') s, ranks')" using one by blast
    ultimately show ?case by (simp add: res_fold_append res_fold_single ranks_round_ok)
  qed
  from runs [of m] obtain s ranks where run: "res_fold ?round (kmeans_start n xs ys, ?start) [0..<m] = Inr (s, ranks)"
    "?kept ranks" "kmeans_ok n (length xs) s" by blast
  from one [OF this(2,3), of m] obtain ranks' where last: "?kept ranks'"
    "?round (s, ranks) m = Inr (ranks_round p n xs ys (map means_x ranks') (map means_y ranks') s, ranks')" by blast
  have "ys \<noteq> []" using assms(4,5) by auto
  then have "kmeans_comp sur CT heap_x heap_y p n (Suc m) xs ys =
      Inr (ranks_round p n xs ys (map means_x ranks') (map means_y ranks') s, ranks')"
    using assms(4,5) run(1) last(2)
    by (simp add: kmeans_comp_def initial_means_picks kmeans_start_def Let_def res_fold_append res_fold_single)
  moreover have "k_assignment (ranks_round p n xs ys (map means_x ranks') (map means_y ranks') s) ! j =
      closest n (dist_to (heap_x rank) (heap_y rank) (xs ! j) (ys ! j))"
    if "0 < rank" "rank < p" "j div (length xs div p) = rank" "j < p * (length xs div p)" for rank j
  proof -
    have "ranks' ! rank = ?start ! rank" "length ranks' = p" using last(1) that by (simp_all add: ranks_ok_def)
    moreover have "p * (length xs div p) \<le> length xs" by simp
    then have "j < length xs" using that(4) by linarith
    ultimately show ?thesis using that by (simp add: ranks_round_def Let_def)
  qed
  ultimately show ?thesis by blast
qed

text \<open>The arrays of the second process hold the points (4, 0) and (0, 0); it assigns its points to these, the root's means being
  (0, 0) and (4, 0).\<close>

theorem kmeans_comp_sends_nothing_witness:
  "\<exists>s ranks. kmeans_comp (\<lambda>_ _. quiet) 10 (\<lambda>_. [fint 4, fint 0]) (\<lambda>_. [fint 0, fint 0]) 2 2 (Suc 0)
      [fint 0, fint 4, fint 0, fint 4] [fint 0, fint 0, fint 1, fint 1] = Inr (s, ranks) \<and>
    k_assignment s ! 2 = 1 \<and> k_assignment s ! 3 = 0"
proof -
  let ?xs = "[fint 0 :: 64 word, fint 4, fint 0, fint 4]" and ?ys = "[fint 0 :: 64 word, fint 0, fint 1, fint 1]"
  have "\<exists>s ranks. kmeans_comp (\<lambda>_ _. quiet) 10 (\<lambda>_. [fint 4, fint 0]) (\<lambda>_. [fint 0, fint 0]) 2 2 (Suc 0) ?xs ?ys = Inr (s, ranks) \<and>
    (\<forall>rank j. 0 < rank \<and> rank < 2 \<and> j div (length ?xs div 2) = rank \<and> j < 2 * (length ?xs div 2) \<longrightarrow>
      k_assignment s ! j = closest 2 (dist_to [fint 4, fint 0] [fint 0, fint 0] (?xs ! j) (?ys ! j)))"
    by (rule kmeans_comp_sends_nothing [where heap_x = "\<lambda>_. [fint 4, fint 0]" and heap_y = "\<lambda>_. [fint 0, fint 0]"]) simp_all
  then obtain s ranks where run: "kmeans_comp (\<lambda>_ _. quiet) 10 (\<lambda>_. [fint 4, fint 0]) (\<lambda>_. [fint 0, fint 0]) 2 2 (Suc 0) ?xs ?ys = Inr (s, ranks)"
    and own: "\<And>j. 0 < (1 :: nat) \<and> (1 :: nat) < 2 \<and> j div (length ?xs div 2) = 1 \<and> j < 2 * (length ?xs div 2) \<Longrightarrow>
      k_assignment s ! j = closest 2 (dist_to [fint 4, fint 0] [fint 0, fint 0] (?xs ! j) (?ys ! j))" by blast
  have close: "closest 2 (dist_to [fint 4, fint 0] [fint 0, fint 0] x y) = i"
    if "nearest 2 [fint 4, fint 0] [fint 0, fint 0] x y = Inr i" for x y i
    using that nearest_closest [of 2 "[fint 4, fint 0]" "[fint 0, fint 0]" x y] by simp
  have "closest 2 (dist_to [fint 4, fint 0] [fint 0, fint 0] (fint 0) (fint 1)) = 1"
    "closest 2 (dist_to [fint 4, fint 0] [fint 0, fint 0] (fint 4) (fint 1)) = 0"
    by (rule close, code_simp)+
  moreover have "(2 :: nat) div Suc (Suc 0) = Suc 0" "(3 :: nat) div Suc (Suc 0) = Suc 0" by code_simp+
  ultimately have "k_assignment s ! 2 = 1" "k_assignment s ! 3 = 0" using own [of 2] own [of 3] by simp_all
  then show ?thesis using run by blast
qed

end
