(* ===== verification/PingPong.thy ===== *)
theory PingPong
  imports CompBcast ByteCodec
begin

text \<open>
  The programs of \<open>app/src/pingpong\<close>: two processes send an array to and fro, in the form that \<open>CT\<close>
  selects, until a count they increment in turns reaches a limit.  With \<open>CT\<close> = 8, 9 and 10 the receiver
  checks the array, answers 'y' or 'n', and on an 'n' the same process sends again.  The programs are a relation of steps of the two
  processes: a message that has been sent waits in a queue until it is received, so the relation contains
  every way MPI may buffer messages.  \<open>rand()\<close> may return anything, \<open>crc32\<close> is a parameter.
  Reading the file, timing and the printing of times are left out.
\<close>

section \<open>The code\<close>

subsection \<open>Before the loop\<close>

text \<open>All that a process has compressed, and what it needs to decompress it.\<close>

record 'w arrays =
  numbers :: "'w list"
  msg :: "'w packed"
  least :: 'w
  bits_pred :: "byte list"
  bits_np :: "byte list"
  bits_op :: "byte list"
  bits_mask :: "byte list"
  mask_type :: nat
  mask_bits :: "bool list"

definition bs :: "'w arrays \<Rightarrow> nat" where
  "bs a = block_size_at BER (length (bits_pred a))"

definition bs_num :: "'w arrays \<Rightarrow> nat" where
  "bs_num a = block_count (bs a) (length (bits_pred a))"

definition prepared :: "'w arrays \<Rightarrow> 'w arrays result" where
  "prepared a = (if bs a = 0 then Inl DivByZero else Inr a)"

definition compress_double :: "64 word list \<Rightarrow> 64 word arrays result" where
  "compress_double data =
     res_bind (toSmallDataset_double data) (\<lambda>(low, small). res_bind (med_dataset_double small 0) (\<lambda>(medium, type).
       let msk = take (1 + 11 + 8) (doubletostr medium)
       in prepared \<lparr>numbers = data, msg = myCompress_double data, least = low,
            bits_pred = data_bits (myCompress_bitwise_double small empty_bitbuf),
            bits_np = data_bits (myCompress_bitwise_double_np small empty_bitbuf),
            bits_op = data_bits (myCompress_bitwise_double_op small empty_bitbuf),
            bits_mask = data_bits (myCompress_bitwise_double_mask small type msk empty_bitbuf),
            mask_type = type, mask_bits = msk\<rparr>))"

definition compress_float :: "32 word list \<Rightarrow> 32 word arrays result" where
  "compress_float data =
     res_bind (toSmallDataset_float data) (\<lambda>(low, small). res_bind (med_dataset_float small 0) (\<lambda>(medium, type).
       let msk = take (1 + 8 + 8) (floattostr medium)
       in prepared \<lparr>numbers = data, msg = myCompress data, least = low,
            bits_pred = data_bits (myCompress_bitwise small empty_bitbuf),
            bits_np = data_bits (myCompress_bitwise_np small empty_bitbuf),
            bits_op = data_bits (myCompress_bitwise_op small empty_bitbuf),
            bits_mask = data_bits (myCompress_bitwise_mask small type msk empty_bitbuf),
            mask_type = type, mask_bits = msk\<rparr>))"

subsection \<open>After the loop's last turn\<close>

text \<open>The numbers the last receiver decompresses; \<open>None\<close> if \<open>CT\<close> asks for none.  \<open>gosa\<close> is a \<open>float\<close>, to which doubles are added.\<close>

definition above_least :: "'w::len word \<Rightarrow> nat \<Rightarrow> 'w word list result \<Rightarrow> 'w word list result" where
  "above_least low num r =
     res_bind r (\<lambda>nums. if length nums < num then Inl Uninitialised else Inr (map (\<lambda>x. fadd x low) (take num nums)))"

definition decompress_double :: "int \<Rightarrow> 64 word arrays \<Rightarrow> 64 word list result option" where
  "decompress_double CT a =
     (let num = length (numbers a); above = above_least (least a) num in
      if CT = 1 then Some (myDecompress_double (array_num (msg a)) (array_char (msg a)) (Some (array_char_displacement (msg a))) num)
      else if CT = 5 \<or> CT = 8 \<or> CT = 10 then Some (above (myDecompress_bitwise_double (bits_pred a) num))
      else if CT = 6 then Some (above (myDecompress_bitwise_double_np (bits_np a) num))
      else if CT = 11 then Some (above (myDecompress_bitwise_double_op (bits_op a) num))
      else if CT = 7 \<or> CT = 9 then Some (above (myDecompress_bitwise_double_mask (bits_mask a) num (mask_type a) (mask_bits a)))
      else None)"

definition decompress_float :: "int \<Rightarrow> 32 word arrays \<Rightarrow> 32 word list result option" where
  "decompress_float CT a =
     (let num = length (numbers a); above = above_least (least a) num in
      if CT = 1 then Some (myDecompress (array_num (msg a)) (array_char (msg a)) (Some (array_char_displacement (msg a))) num)
      else if CT = 5 \<or> CT = 8 \<or> CT = 10 then Some (above (myDecompress_bitwise (bits_pred a) num))
      else if CT = 6 then Some (above (myDecompress_bitwise_np (bits_np a) num))
      else if CT = 11 then Some (above (myDecompress_bitwise_op (bits_op a) num))
      else if CT = 7 \<or> CT = 9 then Some (above (myDecompress_bitwise_mask (bits_mask a) num (mask_type a) (mask_bits a)))
      else None)"

definition add_difference :: "'w::len word list \<Rightarrow> 'w word list \<Rightarrow> 32 word \<Rightarrow> nat \<Rightarrow> 32 word" where
  "add_difference decompressed_data data g i =
     fconv (fadd (fconv g) (ffabs (fconv (fsub (decompressed_data ! i) (data ! i)) :: 64 word)))"

definition mean_distance :: "'w::len word list \<Rightarrow> 'w word list \<Rightarrow> 32 word" where
  "mean_distance decompressed_data data =
     fdiv (foldl (add_difference decompressed_data data) (fint 0) [0..<length data]) (fint (int (length data)))"

definition printed :: "(int \<Rightarrow> 'w::len word arrays \<Rightarrow> 'w word list result option) \<Rightarrow> int \<Rightarrow> 'w word arrays \<Rightarrow> 32 word result option" where
  "printed decompress CT a =
     map_option (\<lambda>r. res_bind r (\<lambda>nums. Inr (mean_distance nums (numbers a)))) (decompress CT a)"

subsection \<open>Messages\<close>

datatype 'w content =
  Count nat | Numbers "'w list" | Chars "code_char list" | Bytes "byte list" | Crc "32 word"
| Sizes "nat list" | Parity "bool list" | Answer bool

text \<open>A message and its tag.\<close>

type_synonym 'w message = "nat \<times> 'w content"

definition checked :: "int \<Rightarrow> bool" where
  "checked CT \<longleftrightarrow> CT \<in> {8, 9, 10}"

text \<open>What the sender sends after the count, and the tags the receiver waits for.\<close>

definition outgoing :: "crc32_fun \<Rightarrow> int \<Rightarrow> 'w arrays \<Rightarrow> 'w message list" where
  "outgoing crc32 CT a =
     (if CT = 0 then [(3, Numbers (numbers a))]
      else if CT = 1 then [(1, Numbers (array_num (msg a))), (2, Chars (array_char (msg a)))]
      else if CT = 5 then [(4, Bytes (bits_pred a))]
      else if CT = 6 then [(5, Bytes (bits_np a))]
      else if CT = 7 then [(7, Bytes (bits_mask a))]
      else if CT = 8 then [(4, Bytes (bits_pred a)), (32, Crc (do_crc32 crc32 (bits_pred a) (length (bits_pred a))))]
      else if CT = 9 then [(9, Bytes (bits_mask a)), (32, Crc (do_crc32 crc32 (bits_mask a) (length (bits_mask a))))]
      else if CT = 10 then
        (let enc = encode_blocks (bs a) (bits_pred a)
         in [(10, Bytes (bits_pred a)), (32, Crc (do_crc32 crc32 (bits_pred a) (length (bits_pred a)))), (1000, Sizes (map snd enc))] @
            map (\<lambda>i. (1001 + i, Parity (fst (enc ! i)))) [0..<bs_num a])
      else if CT = 11 then [(11, Bytes (bits_op a))]
      else [])"

definition incoming :: "int \<Rightarrow> 'w arrays \<Rightarrow> nat list" where
  "incoming CT a =
     (if CT = 0 then [3] else if CT = 1 then [1, 2] else if CT = 5 then [4] else if CT = 6 then [5] else if CT = 7 then [7]
      else if CT = 8 then [4, 32] else if CT = 9 then [9, 32]
      else if CT = 10 then [10, 32, 1000] @ map (\<lambda>i. 1001 + i) [0..<bs_num a]
      else if CT = 11 then [11] else [])"

subsection \<open>The loop\<close>

text \<open>Where a process is: at the head of the loop; at a send, with all it has still to send; at the receive of the answer; at a
  receive, with the tags of all it has still to receive; at the send of the answer; behind the loop.  Of \<open>crc\<close>, \<open>r\<close> and \<open>c\<close> a process
  holds what it has received; what a sender puts there is not read again.\<close>

datatype 'w pc = Head | Sending "'w message list" | Awaiting | Receiving "nat list" | Answering | Ended

record 'w process =
  pc :: "'w pc"
  ping_pong_count :: nat
  arrays :: "'w arrays"
  crc :: "32 word"
  sizes :: "nat list"
  parities :: "bool list list"
  crc_ok :: bool
  resent :: nat
  gosa_printed :: "32 word result option"

text \<open>A receive into a buffer that exists; a longer message is an error of MPI.\<close>

definition receive_into :: "'b list \<Rightarrow> 'b list \<Rightarrow> 'b list option" where
  "receive_into buf xs = (if length xs \<le> length buf then Some (xs @ drop (length xs) buf) else None)"

text \<open>\<open>c[i]\<close> is allocated with the size that has been received for it.\<close>

definition accept :: "int \<Rightarrow> 'w message \<Rightarrow> 'w process \<Rightarrow> 'w process option" where
  "accept CT m p =
     (case m of (tag, content) \<Rightarrow> (case content of
        Count n \<Rightarrow> Some (p\<lparr>ping_pong_count := n\<rparr>)
      | Numbers xs \<Rightarrow>
          if CT = 0 then map_option (\<lambda>b. p\<lparr>arrays := arrays p\<lparr>numbers := b\<rparr>\<rparr>) (receive_into (numbers (arrays p)) xs)
          else map_option (\<lambda>b. p\<lparr>arrays := arrays p\<lparr>msg := msg (arrays p)\<lparr>array_num := b\<rparr>\<rparr>\<rparr>) (receive_into (array_num (msg (arrays p))) xs)
      | Chars cs \<Rightarrow> map_option (\<lambda>b. p\<lparr>arrays := arrays p\<lparr>msg := msg (arrays p)\<lparr>array_char := b\<rparr>\<rparr>\<rparr>) (receive_into (array_char (msg (arrays p))) cs)
      | Bytes d \<Rightarrow>
          if CT = 5 \<or> CT = 8 \<or> CT = 10 then map_option (\<lambda>b. p\<lparr>arrays := arrays p\<lparr>bits_pred := b\<rparr>\<rparr>) (receive_into (bits_pred (arrays p)) d)
          else if CT = 6 then map_option (\<lambda>b. p\<lparr>arrays := arrays p\<lparr>bits_np := b\<rparr>\<rparr>) (receive_into (bits_np (arrays p)) d)
          else if CT = 11 then map_option (\<lambda>b. p\<lparr>arrays := arrays p\<lparr>bits_op := b\<rparr>\<rparr>) (receive_into (bits_op (arrays p)) d)
          else map_option (\<lambda>b. p\<lparr>arrays := arrays p\<lparr>bits_mask := b\<rparr>\<rparr>) (receive_into (bits_mask (arrays p)) d)
      | Crc x \<Rightarrow> Some (p\<lparr>crc := x\<rparr>)
      | Sizes r \<Rightarrow> map_option (\<lambda>b. p\<lparr>sizes := b\<rparr>) (receive_into (sizes p) r)
      | Parity b \<Rightarrow> Some (p\<lparr>parities := (parities p)[tag - 1001 := b]\<rparr>)
      | Answer ok \<Rightarrow> Some (p\<lparr>crc_ok := ok\<rparr>)))"

text \<open>The test of what has been received.  With \<open>CT\<close> = 8 and 10 the bit errors are put in the array itself.\<close>

definition test_received :: "crc32_fun \<Rightarrow> int \<Rightarrow> (nat \<Rightarrow> nat) \<Rightarrow> 'w process \<Rightarrow> bool \<times> 'w arrays" where
  "test_received crc32 CT rnd p =
     (let a = arrays p in
      if CT = 8 then let d = flip_errors rnd (bits_pred a) in (crc p = do_crc32 crc32 d (length d), a\<lparr>bits_pred := d\<rparr>)
      else if CT = 9 then (crc_passes crc32 (rnd 0) (crc p) (bits_mask a), a)
      else case check_received crc32 (bs a) (crc p) (parities p) (sizes p) (flip_errors rnd (bits_pred a)) of
             (ok, d) \<Rightarrow> (ok, a\<lparr>bits_pred := d\<rparr>))"

definition check_turn :: "crc32_fun \<Rightarrow> int \<Rightarrow> (nat \<Rightarrow> nat) \<Rightarrow> 'w process \<Rightarrow> 'w process" where
  "check_turn crc32 CT rnd p =
     (case test_received crc32 CT rnd p of (ok, a) \<Rightarrow>
        if ok then p\<lparr>arrays := a, crc_ok := True\<rparr>
        else p\<lparr>arrays := a, crc_ok := False, ping_pong_count := ping_pong_count p - 1, resent := Suc (resent p)\<rparr>)"

definition end_receive :: "('w arrays \<Rightarrow> 32 word result option) \<Rightarrow> nat \<Rightarrow> 'w process \<Rightarrow> 'w process" where
  "end_receive print limit p =
     (if ping_pong_count p = limit then p\<lparr>pc := Head, gosa_printed := print (arrays p)\<rparr> else p\<lparr>pc := Head\<rparr>)"

definition start_turn :: "crc32_fun \<Rightarrow> int \<Rightarrow> nat \<Rightarrow> nat \<Rightarrow> 'w process \<Rightarrow> 'w process" where
  "start_turn crc32 CT limit world_rank p =
     (if ping_pong_count p < limit then
        if world_rank = ping_pong_count p mod 2
        then p\<lparr>ping_pong_count := Suc (ping_pong_count p), pc := Sending ((0, Count (Suc (ping_pong_count p))) # outgoing crc32 CT (arrays p))\<rparr>
        else p\<lparr>pc := Receiving (0 # incoming CT (arrays p))\<rparr>
      else p\<lparr>pc := Ended\<rparr>)"

definition after_send :: "int \<Rightarrow> 'w message list \<Rightarrow> 'w process \<Rightarrow> 'w process" where
  "after_send CT ms p = p\<lparr>pc := if ms \<noteq> [] then Sending ms else if checked CT then Awaiting else Head\<rparr>"

definition after_receive ::
  "crc32_fun \<Rightarrow> int \<Rightarrow> ('w arrays \<Rightarrow> 32 word result option) \<Rightarrow> nat \<Rightarrow> (nat \<Rightarrow> nat) \<Rightarrow> nat list \<Rightarrow> 'w process \<Rightarrow> 'w process" where
  "after_receive crc32 CT print limit rnd tags p =
     (if tags \<noteq> [] then p\<lparr>pc := Receiving tags\<rparr>
      else if checked CT then (check_turn crc32 CT rnd p)\<lparr>pc := Answering\<rparr>
      else end_receive print limit p)"

definition after_answer :: "'w process \<Rightarrow> 'w process" where
  "after_answer p = p\<lparr>pc := Head, ping_pong_count := if crc_ok p then ping_pong_count p else ping_pong_count p - 1\<rparr>"

subsection \<open>Two processes\<close>

text \<open>The queue of a rank holds what has been sent to it.  A receive takes the first message with its tag.\<close>

record 'w system =
  procs :: "nat \<Rightarrow> 'w process"
  queue :: "nat \<Rightarrow> 'w message list"

definition partner :: "nat \<Rightarrow> nat" where
  "partner world_rank = (world_rank + 1) mod 2"

fun take_tag :: "nat \<Rightarrow> 'w message list \<Rightarrow> ('w message \<times> 'w message list) option" where
  "take_tag tag [] = None"
| "take_tag tag (m # ms) =
     (if fst m = tag then Some (m, ms) else map_option (\<lambda>(x, rest). (x, m # rest)) (take_tag tag ms))"

definition post :: "nat \<Rightarrow> 'w process \<Rightarrow> 'w message \<Rightarrow> 'w system \<Rightarrow> 'w system" where
  "post r p m s = \<lparr>procs = (procs s)(r := p), queue = (queue s)(partner r := queue s (partner r) @ [m])\<rparr>"

definition pick :: "nat \<Rightarrow> 'w process \<Rightarrow> 'w message list \<Rightarrow> 'w system \<Rightarrow> 'w system" where
  "pick r p rest s = \<lparr>procs = (procs s)(r := p), queue = (queue s)(r := rest)\<rparr>"

datatype action = Moves nat | Sends nat | Receives nat

inductive step ::
  "crc32_fun \<Rightarrow> int \<Rightarrow> ('w arrays \<Rightarrow> 32 word result option) \<Rightarrow> nat \<Rightarrow> 'w system \<Rightarrow> action \<Rightarrow> 'w system \<Rightarrow> bool"
  for crc32 CT print limit where
  turn: "pc (procs s r) = Head \<Longrightarrow> r < 2 \<Longrightarrow>
    step crc32 CT print limit s (Moves r) (s\<lparr>procs := (procs s)(r := start_turn crc32 CT limit r (procs s r))\<rparr>)"
| send: "pc (procs s r) = Sending (m # ms) \<Longrightarrow> r < 2 \<Longrightarrow>
    step crc32 CT print limit s (Sends r) (post r (after_send CT ms (procs s r)) m s)"
| receive: "pc (procs s r) = Receiving (tag # tags) \<Longrightarrow> r < 2 \<Longrightarrow> take_tag tag (queue s r) = Some (m, rest) \<Longrightarrow>
    accept CT m (procs s r) = Some p \<Longrightarrow>
    step crc32 CT print limit s (Receives r) (pick r (after_receive crc32 CT print limit rnd tags p) rest s)"
| answer: "pc (procs s r) = Answering \<Longrightarrow> r < 2 \<Longrightarrow>
    step crc32 CT print limit s (Sends r) (post r (end_receive print limit (procs s r)) (100, Answer (crc_ok (procs s r))) s)"
| hear: "pc (procs s r) = Awaiting \<Longrightarrow> r < 2 \<Longrightarrow> take_tag 100 (queue s r) = Some (m, rest) \<Longrightarrow>
    accept CT m (procs s r) = Some p \<Longrightarrow>
    step crc32 CT print limit s (Receives r) (pick r (after_answer p) rest s)"

text \<open>Both processes have read the same file.  \<open>r\<close> and \<open>c\<close> are not initialised, and not read before something is received into them.\<close>

definition initial :: "'w arrays \<Rightarrow> 'w process" where
  "initial a = \<lparr>pc = Head, ping_pong_count = 0, arrays = a, crc = 0, sizes = replicate (bs_num a) 0,
     parities = replicate (bs_num a) [], crc_ok = True, resent = 0, gosa_printed = None\<rparr>"

definition start :: "'w arrays \<Rightarrow> 'w system" where
  "start a = \<lparr>procs = (\<lambda>_. initial a), queue = (\<lambda>_. [])\<rparr>"

inductive reachable ::
  "crc32_fun \<Rightarrow> int \<Rightarrow> ('w arrays \<Rightarrow> 32 word result option) \<Rightarrow> nat \<Rightarrow> 'w arrays \<Rightarrow> 'w system \<Rightarrow> bool"
  for crc32 CT print limit a where
  start: "reachable crc32 CT print limit a (start a)"
| step: "reachable crc32 CT print limit a s \<Longrightarrow> step crc32 CT print limit s act t \<Longrightarrow> reachable crc32 CT print limit a t"

definition both_ended :: "'w system \<Rightarrow> bool" where
  "both_ended s \<longleftrightarrow> pc (procs s 0) = Ended \<and> pc (procs s 1) = Ended"

section \<open>Sizes\<close>

lemma length_rectify_bit_loop: "length (fst (rectify_bit_loop e d c bnum cnum js)) = length d"
  by (induction e d c bnum cnum js rule: rectify_bit_loop.induct) auto

lemma length_hamming_decode: "hamming_decode d c n r = (e, b, c') \<Longrightarrow> length b = length d"
  using length_rectify_bit_loop
  by (auto simp: hamming_decode_def hamming_rectify_bit_def Let_def split: if_splits prod.splits) (metis fst_conv)

lemma length_put_block: "length b = length (block k data i) \<Longrightarrow> length (put_block k data i b) = length data"
  by (auto simp: put_block_def block_def)

lemma length_decode_blocks: "decode_blocks hamming_decode k c r data is = (ok, d) \<Longrightarrow> length d = length data"
proof (induction "is" arbitrary: data)
  case (Cons i "is")
  obtain e b c' where dec: "hamming_decode (block k data i) (c ! i) (block_bytes k (length data) i) (r ! i) = (e, b, c')"
    by (cases "hamming_decode (block k data i) (c ! i) (block_bytes k (length data) i) (r ! i)")
  have "length (put_block k data i b) = length data" using length_hamming_decode [OF dec] by (rule length_put_block)
  then show ?case using Cons dec by (auto simp: Let_def split: if_splits)
qed simp

lemma length_check_received: "check_received crc32 k x c r data = (ok, d) \<Longrightarrow> length d = length data"
  by (auto simp: check_received_def length_decode_blocks split: if_splits)

lemma length_flip_errors: "length (flip_errors rnd data) = length data"
proof -
  have "length (foldl (\<lambda>data n. bit_flip (rnd n) data (length data)) d ns) = length d" for d ns
    by (induction ns arbitrary: d) (simp_all add: bit_flip_def Let_def)
  then show ?thesis by (simp add: flip_errors_def)
qed

definition same_sizes :: "'w arrays \<Rightarrow> 'w arrays \<Rightarrow> bool" where
  "same_sizes a b \<longleftrightarrow> length (numbers a) = length (numbers b) \<and>
     length (array_num (msg a)) = length (array_num (msg b)) \<and> length (array_char (msg a)) = length (array_char (msg b)) \<and>
     length (bits_pred a) = length (bits_pred b) \<and> length (bits_np a) = length (bits_np b) \<and>
     length (bits_op a) = length (bits_op b) \<and> length (bits_mask a) = length (bits_mask b)"

lemma same_sizes_refl: "same_sizes a a"
  by (simp add: same_sizes_def)

lemma same_sizes_blocks: "same_sizes a b \<Longrightarrow> bs a = bs b \<and> bs_num a = bs_num b"
  by (simp add: same_sizes_def bs_def bs_num_def)

lemma same_sizes_incoming: "same_sizes a b \<Longrightarrow> incoming CT a = incoming CT b"
  using same_sizes_blocks [of a b] by (simp add: incoming_def)

lemma tags_outgoing: "map fst (outgoing crc32 CT a) = incoming CT a"
  by (simp add: outgoing_def incoming_def Let_def comp_def)

lemma incoming_pos: "0 \<notin> set (incoming CT a)"
  by (auto simp: incoming_def)

section \<open>Receiving a turn\<close>

text \<open>All messages of a turn, and what they make of a process that receives them.\<close>

definition turn_messages :: "crc32_fun \<Rightarrow> int \<Rightarrow> nat \<Rightarrow> 'w arrays \<Rightarrow> 'w message list" where
  "turn_messages crc32 CT c a = (0, Count (Suc c)) # outgoing crc32 CT a"

fun accept_all :: "int \<Rightarrow> 'w message list \<Rightarrow> 'w process \<Rightarrow> 'w process option" where
  "accept_all CT [] p = Some p"
| "accept_all CT (m # ms) p = Option.bind (accept CT m p) (accept_all CT ms)"

lemma accept_all_append: "accept_all CT (ms @ ns) p = Option.bind (accept_all CT ms p) (accept_all CT ns)"
  by (induction ms arbitrary: p) (simp_all split: Option.bind_split)

lemma tags_turn: "same_sizes a b \<Longrightarrow> map fst (turn_messages crc32 CT c a) = 0 # incoming CT b"
  by (simp add: turn_messages_def tags_outgoing same_sizes_incoming)

text \<open>Every receive finds room for what the partner sends.\<close>

definition roomy :: "'w arrays \<Rightarrow> 'w process \<Rightarrow> bool" where
  "roomy a p \<longleftrightarrow> same_sizes (arrays p) a \<and> length (sizes p) = bs_num a"

lemma receive_same: "length xs = length buf \<Longrightarrow> receive_into buf xs = Some xs"
  by (simp add: receive_into_def)

lemma accept_roomy:
  assumes "m \<in> set (turn_messages crc32 CT c b)" and "same_sizes b a" and "roomy a p"
  shows "\<exists>p'. accept CT m p = Some p' \<and> roomy a p' \<and> pc p' = pc p \<and> crc_ok p' = crc_ok p \<and> resent p' = resent p \<and>
    ping_pong_count p' = (if fst m = 0 then Suc c else ping_pong_count p)"
proof -
  have len: "length (numbers b) = length (numbers (arrays p))" "length (array_num (msg b)) = length (array_num (msg (arrays p)))"
    "length (array_char (msg b)) = length (array_char (msg (arrays p)))" "length (bits_pred b) = length (bits_pred (arrays p))"
    "length (bits_np b) = length (bits_np (arrays p))" "length (bits_op b) = length (bits_op (arrays p))"
    "length (bits_mask b) = length (bits_mask (arrays p))"
    using assms(2,3) by (simp_all add: same_sizes_def roomy_def)
  have "length (encode_blocks (bs b) (bits_pred b)) = bs_num b" by (simp add: encode_blocks_def bs_num_def)
  then have enc: "length (encode_blocks (bs b) (bits_pred b)) = length (sizes p)"
    using assms(2,3) same_sizes_blocks [of b a] by (simp add: roomy_def)
  have sized: "roomy a p'" if "arrays p' = a'" "same_sizes a' (arrays p)" "length (sizes p') = length (sizes p)" for p' a'
    using that assms(3) by (simp add: roomy_def same_sizes_def)
  note accepts = accept_def receive_same len enc
  consider "m = (0, Count (Suc c))" | "CT = 0" "m = (3, Numbers (numbers b))"
    | "CT = 1" "m = (1, Numbers (array_num (msg b)))" | "CT = 1" "m = (2, Chars (array_char (msg b)))"
    | tag where "CT = 5 \<or> CT = 8 \<or> CT = 10" "m = (tag, Bytes (bits_pred b))" "tag \<noteq> 0" | "CT = 6" "m = (5, Bytes (bits_np b))"
    | tag where "CT = 7 \<or> CT = 9" "m = (tag, Bytes (bits_mask b))" "tag \<noteq> 0" | "CT = 11" "m = (11, Bytes (bits_op b))"
    | x where "m = (32, Crc x)" | "m = (1000, Sizes (map snd (encode_blocks (bs b) (bits_pred b))))"
    | i x where "m = (1001 + i, Parity x)"
    using assms(1) by (auto simp: turn_messages_def outgoing_def Let_def split: if_splits)
  then show ?thesis
  proof cases
    case 5
    then show ?thesis by (auto simp: accepts same_sizes_def intro!: sized)
  next
    case 7
    then show ?thesis by (auto simp: accepts same_sizes_def intro!: sized)
  next
    case 10
    have "receive_into (sizes p) (map snd (encode_blocks (bs b) (bits_pred b))) = Some (map snd (encode_blocks (bs b) (bits_pred b)))"
      using enc by (intro receive_same) simp
    then show ?thesis using 10 enc assms(3) by (auto simp: accept_def roomy_def)
  qed (simp_all add: accepts, auto simp: same_sizes_def len intro!: sized)
qed

lemma accept_all_roomy:
  assumes "set ms \<subseteq> set (turn_messages crc32 CT c b)" and "same_sizes b a" and "roomy a p"
  shows "\<exists>p'. accept_all CT ms p = Some p' \<and> roomy a p' \<and> pc p' = pc p \<and> crc_ok p' = crc_ok p \<and> resent p' = resent p \<and>
    ping_pong_count p' = (if 0 \<in> fst ` set ms then Suc c else ping_pong_count p)"
  using assms(1,3)
proof (induction ms arbitrary: p)
  case (Cons m ms)
  obtain p1 where p1: "accept CT m p = Some p1" "roomy a p1" "pc p1 = pc p" "crc_ok p1 = crc_ok p" "resent p1 = resent p"
    "ping_pong_count p1 = (if fst m = 0 then Suc c else ping_pong_count p)"
    using accept_roomy [OF _ assms(2) Cons.prems(2), of m crc32 CT c] Cons.prems(1) by auto
  obtain p2 where "accept_all CT ms p1 = Some p2" "roomy a p2" "pc p2 = pc p1" "crc_ok p2 = crc_ok p1" "resent p2 = resent p1"
    "ping_pong_count p2 = (if 0 \<in> fst ` set ms then Suc c else ping_pong_count p1)"
    using Cons.IH [OF _ p1(2)] Cons.prems(1) by auto
  then show ?case using p1 by auto
qed simp

text \<open>Where the process is does not matter for what it receives.\<close>

lemma accept_pc: "accept CT m (p\<lparr>pc := x\<rparr>) = map_option (\<lambda>p. p\<lparr>pc := x\<rparr>) (accept CT m p)"
  by (cases m; cases "snd m"; cases p) (auto simp: accept_def option.map_comp comp_def)

lemma accept_all_pc: "accept_all CT ms (p\<lparr>pc := x\<rparr>) = map_option (\<lambda>p. p\<lparr>pc := x\<rparr>) (accept_all CT ms p)"
proof (induction ms arbitrary: p)
  case (Cons m ms)
  then show ?case by (cases "accept CT m p") (simp_all add: accept_pc)
qed simp

lemma take_tag_first: "take_tag tag ((tag, x) # ms) = Some ((tag, x), ms)"
  by simp

lemma end_receive_simps [simp]:
  "arrays (end_receive print limit p) = arrays p" "pc (end_receive print limit p) = Head" "sizes (end_receive print limit p) = sizes p"
  "ping_pong_count (end_receive print limit p) = ping_pong_count p"
  by (simp_all add: end_receive_def)

lemma roomy_cong: "roomy a p \<Longrightarrow> arrays q = arrays p \<Longrightarrow> sizes q = sizes p \<Longrightarrow> roomy a q"
  by (simp add: roomy_def)

end
