(* ===== verification/Exchange.thy ===== *)
theory Exchange
  imports PingPong
begin

text \<open>
  The protocol of the programs of \<open>app/src/pingpong\<close>, over the relation of steps of \<open>PingPong\<close>: in every
  state that can be reached the two processes are in one of a few phases, one can go on unless both have
  left the loop, and they leave it with the same count.  What the arrays may do is the locale \<open>exchange\<close>.
\<close>

section \<open>The protocol\<close>

text \<open>
  What the proofs need of the arrays: \<open>S\<close> holds of those of the process whose turn it is to send, \<open>R\<close> of
  those of the other one; both have the sizes of the arrays at the start; a test may only have
  one of the \<open>outcomes\<close>; who has received a turn, and found it in order if it is checked, may send.
\<close>

definition received_turn :: "crc32_fun \<Rightarrow> int \<Rightarrow> nat \<Rightarrow> ('w arrays \<Rightarrow> bool) \<Rightarrow> 'w arrays \<Rightarrow> 'w arrays \<Rightarrow> 'w process \<Rightarrow> bool" where
  "received_turn crc32 CT c R a b p \<longleftrightarrow>
     (\<exists>p0. R (arrays p0) \<and> roomy a p0 \<and> ping_pong_count p0 = c \<and> accept_all CT (turn_messages crc32 CT c b) p0 = Some p)"

locale exchange =
  fixes crc32 :: crc32_fun and CT :: int and print :: "'w arrays \<Rightarrow> 32 word result option" and limit :: nat and a :: "'w arrays"
    and S R :: "'w arrays \<Rightarrow> bool" and outcomes :: "bool set"
  assumes start_sends: "S a"
    and sender_receives: "S b \<Longrightarrow> R b"
    and sizes_kept: "R b \<Longrightarrow> same_sizes b a"
    and tested: "checked CT \<Longrightarrow> S b \<Longrightarrow> received_turn crc32 CT c R a b p \<Longrightarrow> test_received crc32 CT rnd p = (ok, a') \<Longrightarrow>
      ok \<in> outcomes \<and> R a' \<and> (ok \<longrightarrow> S a')"
    and untested: "\<not> checked CT \<Longrightarrow> S b \<Longrightarrow> received_turn crc32 CT c R a b p \<Longrightarrow> True \<in> outcomes \<and> S (arrays p)"
begin

text \<open>A process that has nothing to receive or send before turn \<open>c\<close>, one that waits for turn \<open>c\<close>, one that sends the
  messages of turn \<open>c\<close>, one that receives them.\<close>

definition idle :: "nat \<Rightarrow> 'w process \<Rightarrow> bool" where
  "idle c p \<longleftrightarrow> ping_pong_count p = c \<and> (pc p = Head \<or> limit \<le> c \<and> pc p = Ended)"

definition waiting :: "nat \<Rightarrow> 'w process \<Rightarrow> bool" where
  "waiting c p \<longleftrightarrow> R (arrays p) \<and> roomy a p \<and> ping_pong_count p = c \<and>
     (pc p = Head \<or> c < limit \<and> pc p = Receiving (0 # incoming CT a) \<or> limit \<le> c \<and> pc p = Ended)"

definition sending :: "nat \<Rightarrow> 'w process \<Rightarrow> 'w message list \<Rightarrow> bool" where
  "sending c p unsent \<longleftrightarrow> S (arrays p) \<and> roomy a p \<and>
     (pc p = Head \<and> ping_pong_count p = c \<and> unsent = turn_messages crc32 CT c (arrays p) \<or>
      unsent \<noteq> [] \<and> pc p = Sending unsent \<and> ping_pong_count p = Suc c \<or>
      unsent = [] \<and> (if checked CT then pc p = Awaiting \<and> ping_pong_count p = Suc c else waiting (Suc c) p))"

definition receiving :: "nat \<Rightarrow> 'w process \<Rightarrow> 'w message list \<Rightarrow> nat list \<Rightarrow> bool" where
  "receiving c p taken tags \<longleftrightarrow> tags \<noteq> [] \<and>
     (\<exists>p0. R (arrays p0) \<and> roomy a p0 \<and> ping_pong_count p0 = c \<and> accept_all CT taken p0 = Some p) \<and>
     (pc p = Receiving tags \<or> taken = [] \<and> pc p = Head)"

definition reported :: "'w process \<Rightarrow> bool" where
  "reported p \<longleftrightarrow> 0 < limit \<longrightarrow> gosa_printed p = print (arrays p)"

text \<open>The states that can be reached, by what the two processes are about: in turn \<open>c\<close> rank \<open>c mod 2\<close> sends.\<close>

inductive phase :: "'w system \<Rightarrow> bool" where
  transfer: "c < limit \<Longrightarrow> sending c (procs s (c mod 2)) unsent \<Longrightarrow>
    receiving c (procs s (Suc c mod 2)) taken (map fst (flight @ unsent)) \<Longrightarrow>
    taken @ flight @ unsent = turn_messages crc32 CT c (arrays (procs s (c mod 2))) \<Longrightarrow>
    queue s (c mod 2) = [] \<Longrightarrow> queue s (Suc c mod 2) = flight \<Longrightarrow> phase s"
| verdict: "c < limit \<Longrightarrow> checked CT \<Longrightarrow> sending c (procs s (c mod 2)) [] \<Longrightarrow>
    R (arrays (procs s (Suc c mod 2))) \<Longrightarrow> roomy a (procs s (Suc c mod 2)) \<Longrightarrow> pc (procs s (Suc c mod 2)) = Answering \<Longrightarrow>
    crc_ok (procs s (Suc c mod 2)) \<in> outcomes \<Longrightarrow> (crc_ok (procs s (Suc c mod 2)) \<longrightarrow> S (arrays (procs s (Suc c mod 2)))) \<Longrightarrow>
    ping_pong_count (procs s (Suc c mod 2)) = (if crc_ok (procs s (Suc c mod 2)) then Suc c else c) \<Longrightarrow>
    queue s (c mod 2) = [] \<Longrightarrow> queue s (Suc c mod 2) = [] \<Longrightarrow> phase s"
| rejected: "c < limit \<Longrightarrow> checked CT \<Longrightarrow> sending c (procs s (c mod 2)) [] \<Longrightarrow> waiting c (procs s (Suc c mod 2)) \<Longrightarrow>
    False \<in> outcomes \<Longrightarrow> queue s (c mod 2) = [(100, Answer False)] \<Longrightarrow> queue s (Suc c mod 2) = [] \<Longrightarrow> phase s"
| accepted: "Suc c < limit \<Longrightarrow> checked CT \<Longrightarrow> sending c (procs s (c mod 2)) [] \<Longrightarrow> True \<in> outcomes \<Longrightarrow>
    sending (Suc c) (procs s (Suc c mod 2)) unsent \<Longrightarrow> flight @ unsent = turn_messages crc32 CT (Suc c) (arrays (procs s (Suc c mod 2))) \<Longrightarrow>
    queue s (c mod 2) = (100, Answer True) # flight \<Longrightarrow> queue s (Suc c mod 2) = [] \<Longrightarrow> phase s"
| last: "Suc c = limit \<Longrightarrow> checked CT \<Longrightarrow> sending c (procs s (c mod 2)) [] \<Longrightarrow> True \<in> outcomes \<Longrightarrow>
    S (arrays (procs s (Suc c mod 2))) \<Longrightarrow> idle limit (procs s (Suc c mod 2)) \<Longrightarrow> reported (procs s (Suc c mod 2)) \<Longrightarrow>
    queue s (c mod 2) = [(100, Answer True)] \<Longrightarrow> queue s (Suc c mod 2) = [] \<Longrightarrow> phase s"
| over: "idle limit (procs s 0) \<Longrightarrow> idle limit (procs s 1) \<Longrightarrow> S (arrays (procs s (limit mod 2))) \<Longrightarrow> R (arrays (procs s (Suc limit mod 2))) \<Longrightarrow>
    reported (procs s (limit mod 2)) \<Longrightarrow> (0 < limit \<longrightarrow> True \<in> outcomes) \<Longrightarrow> queue s 0 = [] \<Longrightarrow> queue s 1 = [] \<Longrightarrow> phase s"

lemma ranks:
  "partner (c mod 2) = Suc c mod 2" "partner (Suc c mod 2) = c mod 2" "c mod 2 \<noteq> Suc c mod 2" "Suc c mod 2 \<noteq> c mod 2" "Suc (Suc c) mod 2 = c mod 2"
  by (simp_all add: partner_def, presburger+)

lemma rank_cases [consumes 1]: "r < 2 \<Longrightarrow> (r = c mod 2 \<Longrightarrow> P) \<Longrightarrow> (r = Suc c mod 2 \<Longrightarrow> P) \<Longrightarrow> P"
  for r c :: nat
proof -
  assume "r < 2" and P: "r = c mod 2 \<Longrightarrow> P" "r = Suc c mod 2 \<Longrightarrow> P"
  then have "r = c mod 2 \<or> r = Suc c mod 2" by presburger
  then show P using P by blast
qed

lemma tags_all: "R b \<Longrightarrow> map fst (turn_messages crc32 CT c b) = 0 # incoming CT a"
  by (intro tags_turn sizes_kept)

lemma idle_end: "idle c p \<Longrightarrow> limit \<le> c \<Longrightarrow> pc p = Head \<Longrightarrow> idle c (start_turn crc32 CT limit r p)"
  by (simp add: idle_def start_turn_def)

lemma waiting_starts: "waiting c p \<Longrightarrow> pc p = Head \<Longrightarrow> r \<noteq> c mod 2 \<Longrightarrow> waiting c (start_turn crc32 CT limit r p)"
  using same_sizes_incoming [OF sizes_kept] by (auto simp: waiting_def start_turn_def roomy_def)

lemma sending_starts:
  "sending c p unsent \<Longrightarrow> pc p = Head \<Longrightarrow> c < limit \<Longrightarrow> sending c (start_turn crc32 CT limit (c mod 2) p) unsent"
  using waiting_starts [of "Suc c" p "c mod 2"] ranks [of c]
  by (auto simp: sending_def start_turn_def turn_messages_def roomy_def split: if_splits)

lemma receiving_starts:
  assumes "receiving c p taken tags" and "pc p = Head" and "c < limit" and "r \<noteq> c mod 2" and "tags = 0 # incoming CT a \<or> taken \<noteq> []"
  shows "receiving c (start_turn crc32 CT limit r p) taken tags"
proof -
  have p: "taken = []" "R (arrays p)" "roomy a p" "ping_pong_count p = c" using assms(1,2) by (auto simp: receiving_def)
  then have "start_turn crc32 CT limit r p = p\<lparr>pc := Receiving tags\<rparr>"
    using assms(3-5) same_sizes_incoming [OF sizes_kept] by (auto simp: start_turn_def)
  then show ?thesis using p assms(1) by (auto simp: receiving_def roomy_def)
qed

lemma waiting_end: "waiting c p \<Longrightarrow> \<not> c < limit \<Longrightarrow> idle c p \<and> R (arrays p)"
  by (auto simp: waiting_def idle_def)

lemma waiting_receives: "waiting c p \<Longrightarrow> c < limit \<Longrightarrow> receiving c p [] (0 # incoming CT a)"
  by (auto simp: waiting_def receiving_def)

lemma sending_sends:
  assumes "sending c p (m # ms)" and "pc p = Sending (m # ms)"
  shows "sending c (after_send CT ms p) ms \<and> arrays (after_send CT ms p) = arrays p"
  using assms sender_receives
  by (auto simp: sending_def after_send_def waiting_def roomy_def)

lemma sending_pc: "sending c p unsent \<Longrightarrow> pc p = Sending ms \<Longrightarrow> unsent = ms"
  by (auto simp: sending_def waiting_def split: if_splits)

lemma sending_arrays: "sending c p unsent \<Longrightarrow> S (arrays p) \<and> R (arrays p) \<and> roomy a p"
  using sender_receives by (auto simp: sending_def)

lemma sending_not_answering: "sending c p unsent \<Longrightarrow> pc p \<noteq> Answering"
  by (auto simp: sending_def waiting_def split: if_splits)

lemma receiving_pc: "receiving c p taken tags \<Longrightarrow> pc p \<noteq> Answering \<and> pc p \<noteq> Awaiting \<and> pc p \<noteq> Sending ms \<and> pc p \<noteq> Ended"
  by (auto simp: receiving_def)

lemma sent_all: "sending c p [] \<Longrightarrow> checked CT \<Longrightarrow> pc p = Awaiting \<and> ping_pong_count p = Suc c"
  by (auto simp: sending_def turn_messages_def)

text \<open>The receive of a message of the turn, but for the last one.\<close>

lemma receives_next:
  assumes "receiving c p taken (tag # tags)" and "pc p = Receiving (tag # tags)" and "tags \<noteq> []"
    and "accept CT m p = Some p'" and "fst m = tag"
  shows "receiving c (after_receive crc32 CT print limit rnd tags p') (taken @ [m]) tags"
proof -
  obtain p0 where p0: "R (arrays p0)" "roomy a p0" "ping_pong_count p0 = c" "accept_all CT taken p0 = Some p"
    using assms(1) by (auto simp: receiving_def)
  have "accept_all CT (taken @ [m]) p0 = Some p'" using p0(4) assms(4) by (simp add: accept_all_append)
  then have "accept_all CT (taken @ [m]) (p0\<lparr>pc := Receiving tags\<rparr>) = Some (p'\<lparr>pc := Receiving tags\<rparr>)"
    by (simp add: accept_all_pc)
  then show ?thesis
    using p0 assms(3) unfolding receiving_def after_receive_def
    by (intro conjI exI [of _ "p0\<lparr>pc := Receiving tags\<rparr>"]) (simp_all add: roomy_def)
qed

text \<open>The receive of the last one.\<close>

lemma receives_last:
  assumes "receiving c p taken [tag]" and "accept CT m p = Some p'" and "taken @ [m] = turn_messages crc32 CT c b" and "S b"
  shows "received_turn crc32 CT c R a b p' \<and> roomy a p' \<and> ping_pong_count p' = Suc c"
proof -
  obtain p0 where p0: "R (arrays p0)" "roomy a p0" "ping_pong_count p0 = c" "accept_all CT taken p0 = Some p"
    using assms(1) by (auto simp: receiving_def)
  have all: "accept_all CT (turn_messages crc32 CT c b) p0 = Some p'"
    using p0(4) assms(2) unfolding assms(3) [symmetric] by (simp add: accept_all_append)
  moreover have "0 \<in> fst ` set (turn_messages crc32 CT c b)" by (simp add: turn_messages_def)
  ultimately show ?thesis
    using accept_all_roomy [of "turn_messages crc32 CT c b" crc32 CT c b a p0] sizes_kept [OF sender_receives [OF assms(4)]] p0
    by (auto simp: received_turn_def)
qed

lemma check_turn_outcome:
  fixes rnd :: "nat \<Rightarrow> nat"
  assumes "checked CT" and "S b" and "received_turn crc32 CT c R a b p" and "roomy a p" and "ping_pong_count p = Suc c"
  defines "q \<equiv> (check_turn crc32 CT rnd p)\<lparr>pc := Answering\<rparr>"
  shows "R (arrays q) \<and> roomy a q \<and> pc q = Answering \<and> crc_ok q \<in> outcomes \<and> (crc_ok q \<longrightarrow> S (arrays q)) \<and>
    ping_pong_count q = (if crc_ok q then Suc c else c)"
proof -
  obtain ok a' where t: "test_received crc32 CT rnd p = (ok, a')" by (cases "test_received crc32 CT rnd p")
  have "ok \<in> outcomes \<and> R a' \<and> (ok \<longrightarrow> S a')" using tested [OF assms(1-3) t] .
  then show ?thesis
    using t assms(4,5) sizes_kept unfolding q_def by (auto simp: check_turn_def roomy_def)
qed

lemma take_tag_head: "take_tag tag ms = Some (m, rest) \<Longrightarrow> ms \<noteq> [] \<Longrightarrow> fst (hd ms) = tag \<Longrightarrow> ms = m # rest \<and> fst m = tag"
  by (cases ms) auto

lemma all_over:
  assumes "Suc c = limit" and "idle (Suc c) (procs s (c mod 2))" and "idle limit (procs s (Suc c mod 2))"
    and "S (arrays (procs s (Suc c mod 2)))" and "R (arrays (procs s (c mod 2)))" and "reported (procs s (Suc c mod 2))" and "True \<in> outcomes"
    and "queue s (c mod 2) = []" and "queue s (Suc c mod 2) = []"
  shows "phase s"
proof -
  have r: "Suc c mod 2 = limit mod 2" "c mod 2 = Suc limit mod 2" using ranks(5) [of c] by (simp_all flip: assms(1))
  have both: "P (Suc c mod 2) \<Longrightarrow> P (c mod 2) \<Longrightarrow> P 0 \<and> P 1" for P :: "nat \<Rightarrow> bool"
    using ranks(3) [of c] by (cases "c mod 2 = 0") (simp_all add: mod2_eq_if split: if_splits)
  have "idle limit (procs s 0) \<and> idle limit (procs s 1)" using assms(1-3) by (intro both) simp_all
  moreover have "queue s 0 = [] \<and> queue s 1 = []" using assms(8,9) by (intro both) simp_all
  ultimately show ?thesis
    using assms(4-7) by (intro phase.over) (simp_all add: r)
qed

text \<open>The turn after one that has been received, or the end.\<close>

lemma handed_over:
  assumes "c < limit" and "waiting (Suc c) (procs s (c mod 2))" and "S (arrays (procs s (Suc c mod 2)))" and "roomy a (procs s (Suc c mod 2))"
    and "pc (procs s (Suc c mod 2)) = Head" and "ping_pong_count (procs s (Suc c mod 2)) = Suc c" and "True \<in> outcomes"
    and "Suc c = limit \<Longrightarrow> reported (procs s (Suc c mod 2))"
    and "queue s (c mod 2) = []" and "queue s (Suc c mod 2) = []"
  shows "phase s"
proof (cases "Suc c < limit")
  case True
  let ?b = "arrays (procs s (Suc c mod 2))"
  have "sending (Suc c) (procs s (Suc c mod 2)) (turn_messages crc32 CT (Suc c) ?b)" using assms(3-6) by (simp add: sending_def)
  moreover have "receiving (Suc c) (procs s (c mod 2)) [] (map fst (turn_messages crc32 CT (Suc c) ?b))"
    using waiting_receives [OF assms(2) True] tags_all [OF sender_receives [OF assms(3)]] by simp
  ultimately show ?thesis
    using assms(9,10) ranks [of c] by (intro phase.transfer [OF True, of s _ "[]" "[]"]) simp_all
next
  case False
  then have e: "Suc c = limit" using assms(1) by simp
  have "idle limit (procs s (Suc c mod 2))" using assms(5,6) e by (auto simp: idle_def)
  then show ?thesis using waiting_end [OF assms(2)] False assms(3,7-10) e by (intro all_over [OF e]) simp_all
qed

text \<open>What a process takes is the next message of the turn.\<close>

lemma next_message:
  assumes "receiving c p taken (map fst (flight @ unsent))" and "pc p = Receiving (tag # tags)" and "take_tag tag flight = Some (m, rest)"
  shows "map fst (flight @ unsent) = tag # tags \<and> flight = m # rest \<and> fst m = tag \<and> tags = map fst (rest @ unsent)"
proof -
  have tags: "map fst (flight @ unsent) = tag # tags" using assms(1,2) by (auto simp: receiving_def)
  moreover have "flight \<noteq> []" using assms(3) by auto
  moreover have "fst (hd flight) = tag" using calculation by (cases flight) simp_all
  ultimately show ?thesis using take_tag_head [of tag flight m rest] assms(3) by auto
qed

lemma transfer_step:
  assumes "c < limit" and snd: "sending c (procs s (c mod 2)) unsent"
    and rcv: "receiving c (procs s (Suc c mod 2)) taken (map fst (flight @ unsent))"
    and all: "taken @ flight @ unsent = turn_messages crc32 CT c (arrays (procs s (c mod 2)))"
    and queues: "queue s (c mod 2) = []" "queue s (Suc c mod 2) = flight"
    and "step crc32 CT print limit s act t"
  shows "phase t"
  using assms(7)
proof cases
  case (turn r)
  from turn(4) show ?thesis
  proof (cases rule: rank_cases [of r c])
    case 1
    then have t: "t = s\<lparr>procs := (procs s)(c mod 2 := start_turn crc32 CT limit (c mod 2) (procs s (c mod 2)))\<rparr>"
      and "pc (procs s (c mod 2)) = Head" using turn by simp_all
    then have "sending c (procs t (c mod 2)) unsent" using sending_starts [OF snd] assms(1) by simp
    then show ?thesis
    proof (rule phase.transfer [OF assms(1)])
      show "receiving c (procs t (Suc c mod 2)) taken (map fst (flight @ unsent))" using rcv ranks by (simp add: t)
      show "taken @ flight @ unsent = turn_messages crc32 CT c (arrays (procs t (c mod 2)))"
        using all by (auto simp: t start_turn_def)
    qed (use queues in \<open>simp_all add: t\<close>)
  next
    case 2
    have "map fst (flight @ unsent) = 0 # incoming CT a \<or> taken \<noteq> []"
      using tags_all [of "arrays (procs s (c mod 2))"] sending_arrays [OF snd] all by (cases taken) auto
    then have "receiving c (procs t (Suc c mod 2)) taken (map fst (flight @ unsent))"
      using receiving_starts [OF rcv _ assms(1), of "Suc c mod 2"] turn 2 ranks [of c] by simp
    then show ?thesis
      using snd all queues turn 2 ranks [of c] by (intro phase.transfer [OF assms(1), of t unsent taken flight]) simp_all
  qed
next
  case (send r m ms)
  from send(4) show ?thesis
  proof (cases rule: rank_cases [of r c])
    case 1
    then have "unsent = m # ms" using sending_pc [OF snd] send by simp
    then show ?thesis
      using sending_sends [of c "procs s (c mod 2)" m ms] snd rcv all queues send 1 ranks [of c]
      by (intro phase.transfer [OF assms(1), of t ms taken "flight @ [m]"]) (auto simp: post_def)
  next
    case 2
    then show ?thesis using receiving_pc [OF rcv] send by simp
  qed
next
  case (receive r tag tags m rest p rnd)
  from receive(4) show ?thesis
  proof (cases rule: rank_cases [of r c])
    case 1
    then show ?thesis using queues receive by simp
  next
    case 2
    then have tags: "map fst (flight @ unsent) = tag # tags" and flight: "flight = m # rest" "fst m = tag" "tags = map fst (rest @ unsent)"
      using next_message [OF rcv] receive(3,5) queues by simp_all
    have t: "t = pick (Suc c mod 2) (after_receive crc32 CT print limit rnd tags p) rest s" using receive(2) 2 by simp
    let ?b = "arrays (procs s (c mod 2))"
    have S: "S ?b" using sending_arrays [OF snd] by simp
    show ?thesis
    proof (cases "tags = []")
      case False
      have "receiving c (procs t (Suc c mod 2)) (taken @ [m]) (map fst (rest @ unsent))"
        using receives_next [of c "procs s (Suc c mod 2)" taken tag tags m p rnd] rcv receive(3,6) 2 tags flight False
        by (simp add: t pick_def)
      then show ?thesis
        using snd all queues flight
        by (intro phase.transfer [OF assms(1), of t unsent "taken @ [m]" rest]) (auto simp: t ranks pick_def)
    next
      case True
      then have e: "rest = []" "unsent = []" using flight by simp_all
      have got: "received_turn crc32 CT c R a ?b p \<and> roomy a p \<and> ping_pong_count p = Suc c"
        using receives_last [of c "procs s (Suc c mod 2)" taken tag m p ?b] rcv all receive(6) 2 tags flight e S True by simp
      show ?thesis
      proof (cases "checked CT")
        case True
        have q: "procs t (Suc c mod 2) = (check_turn crc32 CT rnd p)\<lparr>pc := Answering\<rparr>" "procs t (c mod 2) = procs s (c mod 2)"
          "queue t (c mod 2) = []" "queue t (Suc c mod 2) = []"
          using \<open>tags = []\<close> True e queues by (simp_all add: t ranks pick_def after_receive_def)
        show ?thesis
          using check_turn_outcome [OF True S got [THEN conjunct1], of rnd] got snd e
          by (intro phase.verdict [OF assms(1) True]) (simp_all add: q)
      next
        case False
        then have S': "S (arrays p)" and out: "True \<in> outcomes" using untested [OF False S] got by blast+
        have q: "procs t (Suc c mod 2) = end_receive print limit p" "procs t (c mod 2) = procs s (c mod 2)"
          "queue t (c mod 2) = []" "queue t (Suc c mod 2) = []"
          using \<open>tags = []\<close> False e queues by (simp_all add: t ranks pick_def after_receive_def)
        have "waiting (Suc c) (procs s (c mod 2))"
          using snd e False by (auto simp: sending_def turn_messages_def)
        then show ?thesis
          using S' got out q \<open>c < limit\<close> by (intro handed_over) (simp_all add: end_receive_def roomy_def reported_def)
      qed
    qed
  qed
next
  case (answer r)
  from answer(4) show ?thesis
    using sending_not_answering [OF snd] receiving_pc [OF rcv] answer by (cases rule: rank_cases [of r c]) simp_all
next
  case (hear r m rest p)
  from hear(4) show ?thesis
    using queues receiving_pc [OF rcv] hear by (cases rule: rank_cases [of r c]) simp_all
qed

lemma post_simps:
  "procs (post r p m s) = (procs s)(r := p)" "queue (post r p m s) = (queue s)(partner r := queue s (partner r) @ [m])"
  "procs (pick r p rest s) = (procs s)(r := p)" "queue (pick r p rest s) = (queue s)(r := rest)"
  by (simp_all add: post_def pick_def)

lemma waiting_sends:
  "S (arrays p) \<Longrightarrow> roomy a p \<Longrightarrow> pc p = Head \<Longrightarrow> ping_pong_count p = c \<Longrightarrow> sending c p (turn_messages crc32 CT c (arrays p))"
  by (simp add: sending_def)

text \<open>The answer is sent.\<close>

lemma verdict_step:
  assumes "c < limit" and "checked CT" and snd: "sending c (procs s (c mod 2)) []"
    and q: "R (arrays (procs s (Suc c mod 2)))" "roomy a (procs s (Suc c mod 2))" "pc (procs s (Suc c mod 2)) = Answering"
      "crc_ok (procs s (Suc c mod 2)) \<in> outcomes" "crc_ok (procs s (Suc c mod 2)) \<longrightarrow> S (arrays (procs s (Suc c mod 2)))"
      "ping_pong_count (procs s (Suc c mod 2)) = (if crc_ok (procs s (Suc c mod 2)) then Suc c else c)"
    and queues: "queue s (c mod 2) = []" "queue s (Suc c mod 2) = []"
    and "step crc32 CT print limit s act t"
  shows "phase t"
proof -
  note r = sent_all [OF snd assms(2)]
  let ?q = "procs s (Suc c mod 2)"
  have t: "t = post (Suc c mod 2) (end_receive print limit ?q) (100, Answer (crc_ok ?q)) s"
    using assms(12)
  proof cases
    case (answer r')
    from answer(4) show ?thesis using r answer by (cases rule: rank_cases [of r' c]) simp_all
  qed (use r q(3) queues rank_cases [of _ c] in fastforce)+
  let ?t = "procs t (Suc c mod 2)"
  have keep: "procs t (c mod 2) = procs s (c mod 2)" "queue t (c mod 2) = [(100, Answer (crc_ok ?q))]" "queue t (Suc c mod 2) = []"
    using queues by (simp_all add: t post_simps ranks)
  have new: "?t = end_receive print limit ?q" by (simp add: t post_simps)
  have Sq: "S (arrays ?t)" if "crc_ok ?q" using that q(5) by (simp add: new end_receive_def)
  show ?thesis
  proof (cases "crc_ok ?q")
    case False
    then have "waiting c ?t" using q(1,2,6) assms(1) by (simp add: new end_receive_def waiting_def roomy_def)
    then show ?thesis using False q(4) snd keep by (intro phase.rejected [OF assms(1,2)]) simp_all
  next
    case True
    show ?thesis
    proof (cases "Suc c < limit")
      case more: True
      have "sending (Suc c) ?t (turn_messages crc32 CT (Suc c) (arrays ?t))"
        using q(2,6) True Sq by (intro waiting_sends roomy_cong [OF q(2)]) (simp_all add: new)
      then show ?thesis using True q(4) snd keep
        by (intro phase.accepted [OF more assms(2), of t "turn_messages crc32 CT (Suc c) (arrays ?t)" "[]"]) simp_all
    next
      case False
      then have e: "Suc c = limit" using assms(1) by simp
      have "ping_pong_count ?q = Suc c" using q(6) True by simp
      then have "ping_pong_count ?q = limit" using e by metis
      then have "idle limit ?t" "reported ?t" unfolding new by (simp_all add: end_receive_def idle_def reported_def)
      then show ?thesis using True q(4) snd keep Sq by (intro phase.last [OF e assms(2)]) simp_all
    qed
  qed
qed

text \<open>The answer is heard.\<close>

lemma heard:
  assumes "sending c p []" and "checked CT" and "accept CT (100, Answer ok) p = Some p'"
  shows "after_answer p' = p\<lparr>crc_ok := ok, pc := Head, ping_pong_count := if ok then Suc c else c\<rparr>"
  using sent_all [OF assms(1,2)] assms(3) by (auto simp: accept_def after_answer_def)

lemma rejected_step:
  assumes "c < limit" and "checked CT" and snd: "sending c (procs s (c mod 2)) []" and wait: "waiting c (procs s (Suc c mod 2))"
    and "False \<in> outcomes" and queues: "queue s (c mod 2) = [(100, Answer False)]" "queue s (Suc c mod 2) = []"
    and "step crc32 CT print limit s act t"
  shows "phase t"
  using assms(8)
proof cases
  case (turn r)
  from turn(4) show ?thesis
  proof (cases rule: rank_cases [of r c])
    case 1
    then show ?thesis using sent_all [OF snd assms(2)] turn by simp
  next
    case 2
    then have "waiting c (procs t (Suc c mod 2))" using waiting_starts [OF wait] turn(2,3) ranks by simp
    then show ?thesis using snd queues turn(2) 2 assms(5) by (intro phase.rejected [OF assms(1,2)]) (simp_all add: ranks)
  qed
next
  case (hear r m rest p)
  from hear(4) show ?thesis
  proof (cases rule: rank_cases [of r c])
    case 1
    then have m: "m = (100, Answer False)" "rest = []" using hear(5) queues by simp_all
    have t: "t = pick (c mod 2) ((procs s (c mod 2))\<lparr>crc_ok := False, pc := Head, ping_pong_count := c\<rparr>) [] s"
      using heard [OF snd assms(2), of False p] hear(2,6) 1 m by simp
    let ?b = "arrays (procs s (c mod 2))"
    have "sending c (procs t (c mod 2)) (turn_messages crc32 CT c ?b)"
      using sending_arrays [OF snd] by (simp add: t post_simps sending_def roomy_def)
    moreover have "receiving c (procs t (Suc c mod 2)) [] (map fst (turn_messages crc32 CT c ?b))"
      using waiting_receives [OF wait assms(1)] tags_all [of ?b] sending_arrays [OF snd] by (simp add: t post_simps ranks)
    ultimately show ?thesis
      using queues by (intro phase.transfer [OF assms(1), of t _ "[]" "[]"]) (simp_all add: t post_simps ranks)
  next
    case 2
    then show ?thesis using wait hear(3) by (auto simp: waiting_def)
  qed
qed (use sent_all [OF snd assms(2)] wait queues rank_cases [of _ c] in \<open>fastforce simp: waiting_def\<close>)+

lemma accepted_step:
  assumes "Suc c < limit" and "checked CT" and snd: "sending c (procs s (c mod 2)) []" and "True \<in> outcomes"
    and new: "sending (Suc c) (procs s (Suc c mod 2)) unsent"
    and all: "flight @ unsent = turn_messages crc32 CT (Suc c) (arrays (procs s (Suc c mod 2)))"
    and queues: "queue s (c mod 2) = (100, Answer True) # flight" "queue s (Suc c mod 2) = []"
    and "step crc32 CT print limit s act t"
  shows "phase t"
  using assms(9)
proof cases
  case (turn r)
  from turn(4) show ?thesis
  proof (cases rule: rank_cases [of r c])
    case 1
    then show ?thesis using sent_all [OF snd assms(2)] turn by simp
  next
    case 2
    then have "sending (Suc c) (procs t (Suc c mod 2)) unsent" using sending_starts [OF new _ assms(1)] turn(2,3) by simp
    then show ?thesis using snd queues turn(2) 2 assms(4) all
      by (intro phase.accepted [OF assms(1,2), of t unsent flight]) (simp_all add: ranks start_turn_def)
  qed
next
  case (send r m ms)
  from send(4) show ?thesis
  proof (cases rule: rank_cases [of r c])
    case 1
    then show ?thesis using sent_all [OF snd assms(2)] send by simp
  next
    case 2
    then have u: "unsent = m # ms" using sending_pc [OF new] send(3) by simp
    have t: "t = post (Suc c mod 2) (after_send CT ms (procs s (Suc c mod 2))) m s" using send(2) 2 by simp
    have "sending (Suc c) (procs t (Suc c mod 2)) ms \<and> arrays (procs t (Suc c mod 2)) = arrays (procs s (Suc c mod 2))"
      using sending_sends [of "Suc c" "procs s (Suc c mod 2)" m ms] new u send(3) 2 by (simp add: t post_simps)
    then show ?thesis using snd queues assms(4) all u
      by (intro phase.accepted [OF assms(1,2), of t ms "flight @ [m]"]) (simp_all add: t post_simps ranks)
  qed
next
  case (receive r tag tags m rest p rnd)
  from receive(4) show ?thesis
    using sent_all [OF snd assms(2)] queues receive(3,5) by (cases rule: rank_cases [of r c]) simp_all
next
  case (answer r)
  from answer(4) show ?thesis
    using sent_all [OF snd assms(2)] sending_not_answering [OF new] answer(3) by (cases rule: rank_cases [of r c]) simp_all
next
  case (hear r m rest p)
  from hear(4) show ?thesis
  proof (cases rule: rank_cases [of r c])
    case 1
    then have m: "m = (100, Answer True)" "rest = flight" using hear(5) queues by simp_all
    have t: "t = pick (c mod 2) ((procs s (c mod 2))\<lparr>crc_ok := True, pc := Head, ping_pong_count := Suc c\<rparr>) flight s"
      using heard [OF snd assms(2), of True p] hear(2,6) 1 m by simp
    have "waiting (Suc c) (procs t (c mod 2))"
      using sending_arrays [OF snd] by (simp add: t post_simps waiting_def roomy_def)
    then have "receiving (Suc c) (procs t (Suc (Suc c) mod 2)) [] (map fst (flight @ unsent))"
      using waiting_receives assms(1) tags_all [of "arrays (procs s (Suc c mod 2))"] sending_arrays [OF new] unfolding all ranks by simp
    then show ?thesis
      using queues new all by (intro phase.transfer [OF assms(1), of t unsent "[]" flight]) (simp_all add: t post_simps ranks)
  next
    case 2
    then show ?thesis using queues hear(5) by simp
  qed
qed

lemma idle_step:
  assumes "idle limit p"
  shows "idle limit (start_turn crc32 CT limit r p) \<and> arrays (start_turn crc32 CT limit r p) = arrays p \<and>
    (reported p \<longrightarrow> reported (start_turn crc32 CT limit r p))"
  using assms by (auto simp: idle_def start_turn_def reported_def)

lemma idle_pc: "idle limit p \<Longrightarrow> pc p = Head \<or> pc p = Ended"
  by (auto simp: idle_def)

lemma last_step:
  assumes "Suc c = limit" and "checked CT" and snd: "sending c (procs s (c mod 2)) []" and "True \<in> outcomes"
    and q: "S (arrays (procs s (Suc c mod 2)))" "idle limit (procs s (Suc c mod 2))" "reported (procs s (Suc c mod 2))"
    and queues: "queue s (c mod 2) = [(100, Answer True)]" "queue s (Suc c mod 2) = []"
    and "step crc32 CT print limit s act t"
  shows "phase t"
  using assms(10)
proof cases
  case (turn r)
  from turn(4) show ?thesis
  proof (cases rule: rank_cases [of r c])
    case 1
    then show ?thesis using sent_all [OF snd assms(2)] turn by simp
  next
    case 2
    have t: "t = s\<lparr>procs := (procs s)(Suc c mod 2 := start_turn crc32 CT limit (Suc c mod 2) (procs s (Suc c mod 2)))\<rparr>"
      using turn(2) 2 by simp
    show ?thesis
      using snd queues assms(4) q idle_step [OF q(2), of "Suc c mod 2"]
      by (intro phase.last [OF assms(1,2)]) (simp_all add: t ranks)
  qed
next
  case (hear r m rest p)
  from hear(4) show ?thesis
  proof (cases rule: rank_cases [of r c])
    case 1
    then have m: "m = (100, Answer True)" "rest = []" using hear(5) queues by simp_all
    have t: "t = pick (c mod 2) ((procs s (c mod 2))\<lparr>crc_ok := True, pc := Head, ping_pong_count := Suc c\<rparr>) [] s"
      using heard [OF snd assms(2), of True p] hear(2,6) 1 m by simp
    have "idle (Suc c) (procs t (c mod 2))" by (simp add: t post_simps idle_def)
    moreover have "R (arrays (procs t (c mod 2)))" using sending_arrays [OF snd] by (simp add: t post_simps)
    moreover have "queue t (c mod 2) = []" "queue t (Suc c mod 2) = []" "procs t (Suc c mod 2) = procs s (Suc c mod 2)"
      using queues by (simp_all add: t post_simps ranks)
    ultimately show ?thesis using q assms(4) by (intro all_over [OF assms(1)]) simp_all
  next
    case 2
    then show ?thesis using queues hear(5) by simp
  qed
qed (use sent_all [OF snd assms(2)] idle_pc [OF q(2)] queues rank_cases [of _ c] in fastforce)+

lemma over_step:
  assumes "idle limit (procs s 0)" "idle limit (procs s 1)" "S (arrays (procs s (limit mod 2)))" "R (arrays (procs s (Suc limit mod 2)))"
    "reported (procs s (limit mod 2))" "0 < limit \<longrightarrow> True \<in> outcomes" "queue s 0 = []" "queue s 1 = []"
    and "step crc32 CT print limit s act t"
  shows "phase t"
  using assms(9)
proof cases
  case (turn r)
  then have "idle limit (procs s r)" using assms(1,2) by (auto simp: less_2_cases_iff)
  note kept = idle_step [OF this, of r]
  have "idle limit (procs t 0)" "idle limit (procs t 1)" "arrays (procs t x) = arrays (procs s x)" "reported (procs s x) \<longrightarrow> reported (procs t x)" for x
    using assms(1,2) kept by (auto simp: turn(2))
  then show ?thesis using assms(3-8) by (intro phase.over) (simp_all add: turn(2))
qed (use assms(1,2) idle_pc in \<open>fastforce simp: less_2_cases_iff\<close>)+

lemma phase_step: "phase s \<Longrightarrow> step crc32 CT print limit s act t \<Longrightarrow> phase t"
proof (induction s rule: phase.induct)
  case (transfer c s unsent taken flight)
  then show ?case by (intro transfer_step [of c s unsent taken flight act])
next
  case (verdict c s)
  then show ?case by (intro verdict_step [of c s act])
next
  case (rejected c s)
  then show ?case by (intro rejected_step [of c s act])
next
  case (accepted c s unsent flight)
  then show ?case by (intro accepted_step [of c s unsent flight act])
next
  case (last c s)
  then show ?case by (intro last_step [of c s act])
next
  case (over s)
  then show ?case by (intro over_step [of s act])
qed

lemma receiving_roomy:
  assumes "receiving c p taken tags" and "set taken \<subseteq> set (turn_messages crc32 CT c b)" and "R b"
  shows "roomy a p"
  using assms(1) accept_all_roomy [OF assms(2) sizes_kept [OF assms(3)]] unfolding receiving_def by fastforce

lemma can_receive:
  assumes "receiving c (procs s (Suc c mod 2)) taken (map fst (m # ms))" and "pc (procs s (Suc c mod 2)) \<noteq> Head"
    and "queue s (Suc c mod 2) = m # flight" and "set (m # taken) \<subseteq> set (turn_messages crc32 CT c b)" and "R b"
  shows "\<exists>t. step crc32 CT print limit s (Receives (Suc c mod 2)) t"
proof -
  let ?q = "procs s (Suc c mod 2)"
  have "roomy a ?q" using receiving_roomy [OF assms(1) _ assms(5)] assms(4) by simp
  then obtain p where "accept CT m ?q = Some p" using accept_roomy [OF _ sizes_kept [OF assms(5)]] assms(4) by fastforce
  moreover have "pc ?q = Receiving (fst m # map fst ms)" using assms(1,2) by (auto simp: receiving_def)
  ultimately have "step crc32 CT print limit s (Receives (Suc c mod 2))
      (pick (Suc c mod 2) (after_receive crc32 CT print limit (\<lambda>_. 0) (map fst ms) p) flight s)"
    using assms(3) by (intro step.receive [of s _ "fst m" "map fst ms" m]) simp_all
  then show ?thesis by blast
qed

lemma can_hear:
  assumes "sending c (procs s (c mod 2)) []" and "checked CT" and "queue s (c mod 2) = (100, Answer ok) # flight"
  shows "\<exists>t. step crc32 CT print limit s (Receives (c mod 2)) t"
proof -
  have "accept CT (100, Answer ok) (procs s (c mod 2)) = Some ((procs s (c mod 2))\<lparr>crc_ok := ok\<rparr>)" by (simp add: accept_def)
  then have "step crc32 CT print limit s (Receives (c mod 2)) (pick (c mod 2) (after_answer ((procs s (c mod 2))\<lparr>crc_ok := ok\<rparr>)) flight s)"
    using sent_all [OF assms(1,2)] assms(3) by (intro step.hear [of s "c mod 2" "(100, Answer ok)" flight]) simp_all
  then show ?thesis by blast
qed

text \<open>A process moves, or it receives a message, or it sends one that its partner is about to receive.\<close>

definition goes_on :: "'w system \<Rightarrow> bool" where
  "goes_on s \<longleftrightarrow> (\<exists>r t. step crc32 CT print limit s (Moves r) t) \<or> (\<exists>r t. step crc32 CT print limit s (Receives r) t) \<or>
     (\<exists>r t u. step crc32 CT print limit s (Sends r) t \<and> step crc32 CT print limit t (Receives (partner r)) u)"

lemma goes_on_head: "pc (procs s r) = Head \<Longrightarrow> r < 2 \<Longrightarrow> goes_on s"
  unfolding goes_on_def using step.turn by blast

lemma transfer_goes_on:
  assumes "c < limit" and snd: "sending c (procs s (c mod 2)) unsent"
    and rcv: "receiving c (procs s (Suc c mod 2)) taken (map fst (flight @ unsent))"
    and all: "taken @ flight @ unsent = turn_messages crc32 CT c (arrays (procs s (c mod 2)))"
    and queues: "queue s (c mod 2) = []" "queue s (Suc c mod 2) = flight"
  shows "goes_on s"
proof (cases "pc (procs s (c mod 2)) = Head \<or> pc (procs s (Suc c mod 2)) = Head")
  case True
  then show ?thesis using goes_on_head [of s "c mod 2"] goes_on_head [of s "Suc c mod 2"] by auto
next
  case False
  let ?b = "arrays (procs s (c mod 2))"
  have b: "R ?b" using sending_arrays [OF snd] by simp
  show ?thesis
  proof (cases flight)
    case (Cons m fl)
    then show ?thesis
      using can_receive [of c s taken m "fl @ unsent" fl ?b] rcv queues False b all [symmetric] unfolding goes_on_def by auto
  next
    case Nil
    then obtain m ms where u: "unsent = m # ms" using rcv by (cases unsent) (auto simp: receiving_def)
    then have "pc (procs s (c mod 2)) = Sending (m # ms)" using snd False by (auto simp: sending_def)
    then have "step crc32 CT print limit s (Sends (c mod 2)) (post (c mod 2) (after_send CT ms (procs s (c mod 2))) m s)" (is "step _ _ _ _ _ _ ?t")
      by (intro step.send) simp_all
    moreover have "\<exists>t. step crc32 CT print limit ?t (Receives (Suc c mod 2)) t"
      using rcv queues False b all [symmetric] Nil u
      by (intro can_receive [of c ?t taken m ms "[]" ?b]) (auto simp: post_simps ranks)
    ultimately show ?thesis unfolding goes_on_def using ranks(1) by metis
  qed
qed

lemma phase_goes_on: "phase s \<Longrightarrow> both_ended s \<or> goes_on s"
proof (induction s rule: phase.induct)
  case (transfer c s unsent taken flight)
  then show ?case using transfer_goes_on by blast
next
  case (verdict c s)
  let ?q = "procs s (Suc c mod 2)"
  have "step crc32 CT print limit s (Sends (Suc c mod 2)) (post (Suc c mod 2) (end_receive print limit ?q) (100, Answer (crc_ok ?q)) s)"
    (is "step _ _ _ _ _ _ ?t") using verdict by (intro step.answer) simp_all
  moreover have "\<exists>t. step crc32 CT print limit ?t (Receives (c mod 2)) t"
    using verdict by (intro can_hear [where flight = "[]" and ok = "crc_ok ?q"]) (simp_all add: post_simps ranks)
  ultimately show ?case unfolding goes_on_def using ranks(2) by metis
next
  case (rejected c s)
  then show ?case unfolding goes_on_def using can_hear by blast
next
  case (accepted c s unsent flight)
  then show ?case unfolding goes_on_def using can_hear by blast
next
  case (last c s)
  then show ?case unfolding goes_on_def using can_hear by blast
next
  case (over s)
  then show ?case using goes_on_head [of s 0] goes_on_head [of s 1] idle_pc unfolding both_ended_def by fastforce
qed

lemma both_ended_over:
  assumes "phase s" and "both_ended s"
  shows "ping_pong_count (procs s 0) = limit \<and> ping_pong_count (procs s 1) = limit \<and> queue s 0 = [] \<and> queue s 1 = [] \<and>
    S (arrays (procs s (limit mod 2))) \<and> R (arrays (procs s (Suc limit mod 2))) \<and> reported (procs s (limit mod 2)) \<and> (0 < limit \<longrightarrow> True \<in> outcomes)"
proof -
  have ended: "pc (procs s (x mod 2)) = Ended" for x
    using assms(2) by (cases "x mod 2 = 0") (simp_all add: both_ended_def mod2_eq_if)
  show ?thesis
    using assms(1)
  proof cases
    case (transfer c unsent taken flight)
    then show ?thesis using receiving_pc ended by metis
  next
    case (verdict c)
    then show ?thesis using ended [of "Suc c"] by simp
  next
    case (rejected c)
    then show ?thesis using sent_all [of c] ended [of c] by simp
  next
    case (accepted c unsent flight)
    then show ?thesis using sent_all [of c] ended [of c] by simp
  next
    case (last c)
    then show ?thesis using sent_all [of c] ended [of c] by simp
  next
    case over
    then show ?thesis by (simp add: idle_def)
  qed
qed

lemma phase_start: "phase (start a)"
proof -
  have a: "S a" "R a" "roomy a (initial a)"
    using start_sends sender_receives by (simp_all add: roomy_def initial_def same_sizes_refl)
  show ?thesis
  proof (cases "0 < limit")
    case True
    then show ?thesis
      using a by (intro phase.transfer [of 0 "start a" "turn_messages crc32 CT 0 a" "[]" "[]"])
        (auto simp: start_def sending_def receiving_def, auto simp: initial_def turn_messages_def)
  next
    case False
    then have "idle limit (initial a)" "reported (initial a)" unfolding idle_def reported_def by (simp_all add: initial_def)
    moreover have "arrays (initial a) = a" by (simp add: initial_def)
    ultimately show ?thesis using a False by (intro phase.over) (simp_all only: start_def system.select_convs, simp_all)
  qed
qed

lemma reachable_phase: "reachable crc32 CT print limit a s \<Longrightarrow> phase s"
  by (induction rule: reachable.induct) (auto intro: phase_start phase_step)

text \<open>
  What is left to do, if no test fails: for every turn that has not begun more than a process can do in it, for every message that
  has still to be sent a send and a receive.
\<close>

definition turn_work :: nat where
  "turn_work = 2 * length (incoming CT a) + 8"

fun local_work :: "'w pc \<Rightarrow> nat" where
  "local_work Head = 1"
| "local_work (Sending ms) = 2 * length ms + 2"
| "local_work Awaiting = 2"
| "local_work (Receiving tags) = (if hd tags = 0 then 0 else length tags + 4)"
| "local_work Answering = 3"
| "local_work Ended = 0"

definition process_work :: "'w process \<Rightarrow> nat" where
  "process_work p = (limit - ping_pong_count p) * turn_work + local_work (pc p)"

definition work :: "'w system \<Rightarrow> nat" where
  "work s = process_work (procs s 0) + process_work (procs s 1) + length (queue s 0) + length (queue s 1)"

lemma work_split: "r < 2 \<Longrightarrow>
    work s = process_work (procs s r) + process_work (procs s (partner r)) + length (queue s r) + length (queue s (partner r))"
  by (auto simp: work_def partner_def less_2_cases_iff)

lemma partner_neq: "r < 2 \<Longrightarrow> partner r \<noteq> r" "r < 2 \<Longrightarrow> r \<noteq> partner r" "r < 2 \<Longrightarrow> partner r < 2"
  by (auto simp: partner_def less_2_cases_iff)

lemma take_tag_length: "take_tag tag ms = Some (m, rest) \<Longrightarrow> length ms = Suc (length rest)"
  by (induction ms arbitrary: rest) (auto split: if_splits)

lemma receive_facts:
  assumes "phase s" and "r < 2" and "pc (procs s r) = Receiving (tag # tags)" and "take_tag tag (queue s r) = Some (m, rest)"
    and "accept CT m (procs s r) = Some p"
  shows "length tags \<le> length (incoming CT a) \<and> 0 \<notin> set tags \<and> pc p = pc (procs s r) \<and>
    ping_pong_count p = (if tag = 0 then Suc (ping_pong_count (procs s r)) else ping_pong_count (procs s r)) \<and>
    (tag = 0 \<longrightarrow> ping_pong_count (procs s r) < limit) \<and>
    (tags = [] \<and> checked CT \<longrightarrow> fst (test_received crc32 CT rnd p) \<in> outcomes)"
  using assms(1)
proof cases
  case (transfer c unsent taken flight)
  from assms(2) show ?thesis
  proof (cases rule: rank_cases [of r c])
    case 1
    then show ?thesis using transfer(5) assms(4) by simp
  next
    case 2
    let ?q = "procs s (Suc c mod 2)" and ?b = "arrays (procs s (c mod 2))"
    have b: "S ?b" "R ?b" "same_sizes ?b a" using sending_arrays [OF transfer(2)] sizes_kept by blast+
    have nxt: "map fst (flight @ unsent) = tag # tags" "flight = m # rest" "fst m = tag" "tags = map fst (rest @ unsent)"
      using next_message [OF transfer(3), of tag tags m rest] assms(3,4) transfer(6) 2 by simp_all
    have m: "m \<in> set (turn_messages crc32 CT c ?b)" "set taken \<subseteq> set (turn_messages crc32 CT c ?b)"
      using transfer(4) [symmetric] nxt(2) by auto
    have q: "roomy a ?q" using receiving_roomy [OF transfer(3) m(2) b(2)] .
    obtain p' where "accept CT m ?q = Some p'" "roomy a p'" "pc p' = pc ?q"
      "ping_pong_count p' = (if fst m = 0 then Suc c else ping_pong_count ?q)"
      using accept_roomy [OF m(1) b(3) q] by blast
    then have acc: "pc p = pc ?q" "ping_pong_count p = (if tag = 0 then Suc c else ping_pong_count ?q)" using assms(5) nxt(3) 2 by simp_all
    have "map fst taken @ map fst (flight @ unsent) = 0 # incoming CT a"
      using tags_all [OF b(2), of c] unfolding transfer(4) [symmetric] by simp
    then have all: "map fst taken @ tag # tags = 0 # incoming CT a" unfolding nxt(1) .
    have "length tags \<le> length (incoming CT a) \<and> 0 \<notin> set tags \<and> (tag = 0 \<longrightarrow> taken = [])"
    proof (cases taken)
      case Nil
      then show ?thesis using all incoming_pos [of CT a] by simp
    next
      case (Cons x xs)
      then have i: "incoming CT a = map fst xs @ tag # tags" using all by simp
      show ?thesis using incoming_pos [of CT a] unfolding i by auto
    qed
    note fine = this
    have "tag = 0 \<longrightarrow> ping_pong_count ?q = c" using fine transfer(3) by (auto simp: receiving_def)
    moreover have "fst (test_received crc32 CT rnd p) \<in> outcomes" if "tags = []" "checked CT"
    proof -
      have "received_turn crc32 CT c R a ?b p"
        using receives_last [of c ?q taken tag m p ?b] transfer(3,4) assms(5) nxt that(1) b(1) 2 by simp
      then show ?thesis using tested [OF that(2) b(1)] by (metis prod.collapse)
    qed
    ultimately show ?thesis using acc transfer(1) 2 fine by auto
  qed
next
  case (verdict c)
  from assms(2) show ?thesis using sent_all verdict assms(3) by (cases rule: rank_cases [of r c]) auto
next
  case (rejected c)
  from assms(2) show ?thesis using sent_all rejected assms(3,4) by (cases rule: rank_cases [of r c]) auto
next
  case (accepted c unsent flight)
  from assms(2) show ?thesis using sent_all accepted assms(3,4) by (cases rule: rank_cases [of r c]) auto
next
  case (last c)
  from assms(2) show ?thesis using sent_all last assms(3,4) by (cases rule: rank_cases [of r c]) auto
next
  case over
  then show ?thesis using idle_pc [of "procs s r"] assms(2,3) by (auto simp: less_2_cases_iff)
qed

lemma hear_facts:
  assumes "phase s" and "r < 2" and "pc (procs s r) = Awaiting" and "take_tag 100 (queue s r) = Some (m, rest)"
  shows "\<exists>ok \<in> outcomes. m = (100, Answer ok)"
  using assms(1)
proof cases
  case (transfer c unsent taken flight)
  from assms(2) show ?thesis using transfer(5) receiving_pc [OF transfer(3)] assms(3,4) by (cases rule: rank_cases [of r c]) auto
next
  case (verdict c)
  from assms(2) show ?thesis using verdict assms(3,4) by (cases rule: rank_cases [of r c]) auto
next
  case (rejected c)
  from assms(2) show ?thesis using rejected assms(3,4) by (cases rule: rank_cases [of r c]) auto
next
  case (accepted c unsent flight)
  from assms(2) show ?thesis using accepted assms(3,4) by (cases rule: rank_cases [of r c]) auto
next
  case (last c)
  from assms(2) show ?thesis using last assms(3,4) by (cases rule: rank_cases [of r c]) auto
next
  case over
  then show ?thesis using idle_pc [of "procs s r"] assms(2,3) by (auto simp: less_2_cases_iff)
qed

lemma phase_sizes:
  assumes "phase s" and "r < 2"
  shows "same_sizes (arrays (procs s r)) a"
  using assms(1)
proof cases
  case (transfer c unsent taken flight)
  have b: "R (arrays (procs s (c mod 2)))" using sending_arrays [OF transfer(2)] by simp
  have "roomy a (procs s (Suc c mod 2))" using receiving_roomy [OF transfer(3) _ b] transfer(4) [symmetric] by auto
  from assms(2) show ?thesis using sizes_kept [OF b] \<open>roomy a (procs s (Suc c mod 2))\<close> by (cases rule: rank_cases [of r c]) (auto simp: roomy_def)
next
  case (verdict c)
  from assms(2) show ?thesis using verdict sending_arrays sizes_kept by (cases rule: rank_cases [of r c]) auto
next
  case (rejected c)
  from assms(2) show ?thesis using rejected sending_arrays sizes_kept by (cases rule: rank_cases [of r c]) (auto simp: waiting_def)
next
  case (accepted c unsent flight)
  from assms(2) show ?thesis using accepted sending_arrays sizes_kept by (cases rule: rank_cases [of r c]) auto
next
  case (last c)
  from assms(2) show ?thesis using last sending_arrays sender_receives sizes_kept by (cases rule: rank_cases [of r c]) auto
next
  case over
  from assms(2) show ?thesis using over sender_receives sizes_kept by (cases rule: rank_cases [of r limit]) auto
qed

lemma turn_works:
  assumes "same_sizes (arrays p) a" and "pc p = Head"
  shows "process_work (start_turn crc32 CT limit r p) < process_work p"
proof (cases "ping_pong_count p < limit")
  case True
  have "length (outgoing crc32 CT (arrays p)) = length (incoming CT a)"
    using arg_cong [OF tags_outgoing, of length crc32 CT "arrays p"] same_sizes_incoming [OF assms(1), of CT] by simp
  moreover have "limit - ping_pong_count p = Suc (limit - Suc (ping_pong_count p))" using True by simp
  ultimately show ?thesis using True assms(2) by (simp add: start_turn_def process_work_def turn_work_def)
next
  case False
  then show ?thesis using assms(2) by (simp add: start_turn_def process_work_def)
qed

lemma post_works:
  assumes "r < 2" and "process_work p + 1 < process_work (procs s r)"
  shows "work (post r p m s) < work s"
  using assms by (simp add: work_split [OF assms(1)] post_simps partner_neq)

lemma pick_works:
  assumes "r < 2" and "take_tag tag (queue s r) = Some (m, rest)" and "process_work p \<le> process_work (procs s r)"
  shows "work (pick r p rest s) < work s"
  using assms take_tag_length [OF assms(2)] by (simp add: work_split [OF assms(1)] post_simps partner_neq)

lemma receive_works:
  assumes "outcomes \<subseteq> {True}" and "phase s" and "r < 2" and "pc (procs s r) = Receiving (tag # tags)"
    and "take_tag tag (queue s r) = Some (m, rest)" and "accept CT m (procs s r) = Some p"
  shows "process_work (after_receive crc32 CT print limit rnd tags p) \<le> process_work (procs s r)"
proof -
  let ?q = "procs s r" and ?p = "after_receive crc32 CT print limit rnd tags p"
  note facts = receive_facts [OF assms(2-6), of rnd]
  have ok: "fst (test_received crc32 CT rnd p) = True" if "tags = []" "checked CT" using facts that assms(1) by blast
  have "ping_pong_count ?p = ping_pong_count p"
    using ok by (auto simp: after_receive_def check_turn_def split: prod.split)
  moreover have "local_work (pc ?p) \<le> length tags + 4" "tags \<noteq> [] \<longrightarrow> hd tags \<noteq> 0"
    using facts by (cases tags; simp add: after_receive_def)+
  moreover have "limit - ping_pong_count ?q = Suc (limit - ping_pong_count p)" if "tag = 0" using facts that by auto
  ultimately show ?thesis
    using facts assms(4) by (cases "tag = 0") (simp_all add: process_work_def turn_work_def)
qed

lemma step_works:
  assumes "outcomes \<subseteq> {True}" and "phase s" and "step crc32 CT print limit s act t"
  shows "work t < work s"
  using assms(3)
proof cases
  case (turn r)
  then show ?thesis
    using turn_works [OF phase_sizes [OF assms(2)], of r r] by (simp add: work_split [of r] partner_neq)
next
  case (send r m ms)
  have "process_work (after_send CT ms (procs s r)) + 1 < process_work (procs s r)"
    using send(3) by (simp add: process_work_def after_send_def)
  then show ?thesis using send(2,4) post_works by simp
next
  case (receive r tag tags m rest p rnd)
  then show ?thesis using pick_works receive_works [OF assms(1,2)] by simp
next
  case (answer r)
  have "process_work (end_receive print limit (procs s r)) + 1 < process_work (procs s r)"
    using answer(3) by (simp add: process_work_def)
  then show ?thesis using answer(2,4) post_works by simp
next
  case (hear r m rest p)
  then obtain ok where "m = (100, Answer ok)" "ok" using hear_facts [OF assms(2)] assms(1) by blast
  then have "process_work (after_answer p) \<le> process_work (procs s r)"
    using hear(3,6) by (auto simp: accept_def after_answer_def process_work_def)
  then show ?thesis using hear(2,4,5) pick_works by simp
qed

lemma runs_end:
  assumes "outcomes \<subseteq> {True}" and "((\<lambda>s t. \<exists>act. step crc32 CT print limit s act t) ^^ n) (start a) t"
  shows "phase t \<and> n + work t \<le> 2 * (limit * turn_work + 1)"
  using assms(2)
proof (induction n arbitrary: t)
  case 0
  have "work (start a) = 2 * (limit * turn_work + 1)" by (simp add: work_def start_def initial_def process_work_def)
  then show ?case using 0 phase_start by simp
next
  case (Suc n)
  then obtain s act where s: "((\<lambda>s t. \<exists>act. step crc32 CT print limit s act t) ^^ n) (start a) s" "step crc32 CT print limit s act t" by auto
  have "phase s \<and> n + work s \<le> 2 * (limit * turn_work + 1)" using Suc.IH s(1) .
  then show ?case using step_works [OF assms(1) _ s(2)] phase_step [OF _ s(2)] by fastforce
qed

lemma finishes:
  assumes "outcomes \<subseteq> {True}" and "reachable crc32 CT print limit a s"
  shows "\<exists>t. reachable crc32 CT print limit a t \<and> both_ended t"
  using assms(2)
proof (induction "work s" arbitrary: s rule: less_induct)
  case less
  show ?case
  proof (cases "both_ended s")
    case False
    then obtain act t where t: "step crc32 CT print limit s act t"
      using phase_goes_on [OF reachable_phase [OF less.prems]] unfolding goes_on_def by blast
    then show ?thesis
      using less.hyps [OF step_works [OF assms(1) reachable_phase [OF less.prems] t]] reachable.step [OF less.prems t] by blast
  qed (use less.prems in blast)
qed

end

end
