(* ===== verification/PingPongRuns.thy ===== *)
theory PingPongRuns
  imports Exchange
begin

text \<open>
  What the programs of \<open>app/src/pingpong\<close> do: the locale \<open>exchange\<close> interpreted for any data and any bit errors,
  for data that no bit error reaches, and for data too long to be received without one.
\<close>

section \<open>The tests\<close>

lemma test_sizes: "test_received crc32 CT rnd p = (ok, a) \<Longrightarrow> same_sizes a (arrays p)"
  using length_check_received length_flip_errors
  by (fastforce simp: test_received_def same_sizes_def Let_def split: if_splits prod.splits)

lemma received_turn_roomy:
  assumes "received_turn crc32 CT c R a b p" and "same_sizes b a"
  shows "roomy a p"
proof -
  obtain p0 where "roomy a p0" "accept_all CT (turn_messages crc32 CT c b) p0 = Some p" using assms(1) by (auto simp: received_turn_def)
  then show ?thesis using accept_all_roomy [OF subset_refl [of "set (turn_messages crc32 CT c b)"] assms(2), of p0] by simp
qed

lemma exchange_any: "exchange crc32 CT a (\<lambda>b. same_sizes b a) (\<lambda>b. same_sizes b a) UNIV"
proof
  show "same_sizes a a" by (rule same_sizes_refl)
next
  fix b c p rnd ok a'
  assume "same_sizes b a" and "received_turn crc32 CT c (\<lambda>b. same_sizes b a) a b p" and t: "test_received crc32 CT rnd p = (ok, a')"
  then have "roomy a p" by (intro received_turn_roomy)
  then show "ok \<in> UNIV \<and> same_sizes a' a \<and> (ok \<longrightarrow> same_sizes a' a)"
    using test_sizes [OF t] by (simp add: roomy_def same_sizes_def)
next
  fix b c p
  assume "same_sizes b a" and "received_turn crc32 CT c (\<lambda>b. same_sizes b a) a b p"
  then have "roomy a p" by (intro received_turn_roomy)
  then show "True \<in> UNIV \<and> same_sizes (arrays p) a" by (simp add: roomy_def)
qed

interpretation any: exchange crc32 CT print limit a "\<lambda>b. same_sizes b a" "\<lambda>b. same_sizes b a" UNIV
  for crc32 CT print limit a
  by (rule exchange_any)

text \<open>A process that receives what it has already.\<close>

lemma receive_own: "receive_into xs xs = Some xs"
  by (simp add: receive_into_def)

lemma accept_own:
  assumes "m \<in> set (turn_messages crc32 CT c (arrays p))" and "accept CT m p = Some p'"
  shows "arrays p' = arrays p"
  using assms by (auto simp: turn_messages_def outgoing_def accept_def receive_own Let_def split: if_splits)

lemma accept_crc: "accept CT m p = Some p' \<Longrightarrow> crc p' = (case snd m of Crc x \<Rightarrow> x | _ \<Rightarrow> crc p)"
  by (cases m; cases "snd m") (auto simp: accept_def split: if_splits)

lemma accept_all_own:
  assumes "accept_all CT ms p = Some p'" and "set ms \<subseteq> set (turn_messages crc32 CT c (arrays p))"
    and "\<And>tag x. (tag, Crc x) \<in> set (turn_messages crc32 CT c (arrays p)) \<Longrightarrow> x = y"
  shows "arrays p' = arrays p \<and> ((\<exists>tag x. (tag, Crc x) \<in> set ms) \<or> crc p = y \<longrightarrow> crc p' = y)"
  using assms
proof (induction ms arbitrary: p)
  case (Cons m ms)
  then obtain p1 where p1: "accept CT m p = Some p1" "accept_all CT ms p1 = Some p'" by (auto simp: bind_eq_Some_conv)
  have own: "arrays p1 = arrays p" using accept_own [OF _ p1(1), of crc32 c] Cons.prems(2) by simp
  have "arrays p' = arrays p1 \<and> ((\<exists>tag x. (tag, Crc x) \<in> set ms) \<or> crc p1 = y \<longrightarrow> crc p' = y)"
    using Cons.IH [OF p1(2)] Cons.prems(2,3) own by simp
  moreover have "crc p1 = y" if "(\<exists>x. m = (fst m, Crc x)) \<or> crc p = y"
    using accept_crc [OF p1(1)] that Cons.prems(2) Cons.prems(3) [of "fst m"] by (cases m; cases "snd m") auto
  ultimately show ?case using own by (metis fst_conv list.set_cases set_ConsD)
qed simp

definition data_crc :: "crc32_fun \<Rightarrow> int \<Rightarrow> 'w arrays \<Rightarrow> 32 word" where
  "data_crc crc32 CT a = (let d = (if CT = 9 then bits_mask a else bits_pred a) in do_crc32 crc32 d (length d))"

lemma sent_crc:
  "checked CT \<Longrightarrow> (32, Crc (data_crc crc32 CT a)) \<in> set (turn_messages crc32 CT c a)"
  "(tag, Crc x) \<in> set (turn_messages crc32 CT c a) \<Longrightarrow> x = data_crc crc32 CT a"
  by (auto simp: checked_def turn_messages_def outgoing_def data_crc_def Let_def split: if_splits)

lemma received_own:
  assumes "received_turn crc32 CT c ((=) a) a a p"
  shows "arrays p = a \<and> (checked CT \<longrightarrow> crc p = data_crc crc32 CT a)"
proof -
  obtain p0 where p0: "arrays p0 = a" "accept_all CT (turn_messages crc32 CT c a) p0 = Some p" using assms by (auto simp: received_turn_def)
  have "arrays p = arrays p0 \<and> ((\<exists>tag x. (tag, Crc x) \<in> set (turn_messages crc32 CT c a)) \<or> crc p0 = data_crc crc32 CT a \<longrightarrow> crc p = data_crc crc32 CT a)"
    using sent_crc(2) p0(1) by (intro accept_all_own [OF p0(2), of crc32 c]) auto
  then show ?thesis using sent_crc(1) [of CT crc32 a c] p0(1) by blast
qed

text \<open>No bit error is put into the data if there is none, or if the data are too short.\<close>

definition unaltered :: "int \<Rightarrow> 'w arrays \<Rightarrow> bool" where
  "unaltered CT a \<longleftrightarrow> CT \<notin> {8, 10} \<or> length (bits_pred a) * 8 < one_error_in"

lemma no_flips: "length d * 8 < one_error_in \<Longrightarrow> flip_errors rnd d = d"
  by (simp add: flip_errors_def)

lemma exchange_unaltered:
  assumes "unaltered CT a"
  shows "exchange crc32 CT a ((=) a) ((=) a) (if CT = 9 then UNIV else {True})"
proof
  fix c b p rnd ok a'
  assume "checked CT" and "a = b" and got: "received_turn crc32 CT c ((=) a) a b p" and t: "test_received crc32 CT rnd p = (ok, a')"
  then have p: "arrays p = a" "crc p = data_crc crc32 CT a" using received_own by blast+
  have d: "CT \<noteq> 9 \<Longrightarrow> flip_errors rnd (bits_pred a) = bits_pred a"
    using \<open>checked CT\<close> assms by (intro no_flips) (auto simp: unaltered_def checked_def)
  show "ok \<in> (if CT = 9 then UNIV else {True}) \<and> a = a' \<and> (ok \<longrightarrow> a = a')"
    using t p d by (auto simp: test_received_def data_crc_def check_received_def Let_def split: if_splits)
next
  fix c b p
  assume "\<not> checked CT" and "a = b" and "received_turn crc32 CT c ((=) a) a b p"
  then show "True \<in> (if CT = 9 then UNIV else {True}) \<and> a = arrays p" using received_own [of crc32 CT c a p] by auto
qed (auto simp: same_sizes_refl)

section \<open>The properties\<close>

text \<open>C32: The two processes never wait for each other for ever: from every state they can reach, whatever bit errors rand() makes
  and however the tests come out, unless both have left the loop one of them can move, or can receive a message that is
  there, or can send one that the other is about to receive.  So it does not matter whether MPI_Send
  returns before the message is received.\<close>

theorem pingpong_never_blocks:
  assumes "reachable crc32 CT print limit a s"
  shows "both_ended s \<or> (\<exists>r t. step crc32 CT print limit s (Moves r) t) \<or> (\<exists>r t. step crc32 CT print limit s (Receives r) t) \<or>
    (\<exists>r t u. step crc32 CT print limit s (Sends r) t \<and> step crc32 CT print limit t (Receives (partner r)) u)"
  using any.phase_goes_on [OF any.reachable_phase [OF assms]] unfolding any.goes_on_def .

text \<open>At the start both can move.\<close>

definition sample :: "64 word arrays" where
  "sample = \<lparr>numbers = [0x3FF0000000000000, 0x4004000000000000], msg = \<lparr>array_num = [0x3FF0000000000000, 0x4004000000000000], array_char = [], array_char_displacement = []\<rparr>,
     least = 0x3FF0000000000000, bits_pred = [135, 255, 0, 0, 0], bits_np = [1], bits_op = [2], bits_mask = [3], mask_type = 0, mask_bits = []\<rparr>"

theorem pingpong_never_blocks_witness:
  "\<exists>r t. step checksum 8 (printed decompress_double 8) 3 (start sample) (Moves r) t \<or> step checksum 8 (printed decompress_double 8) 3 (start sample) (Receives r) t \<or>
    (\<exists>u. step checksum 8 (printed decompress_double 8) 3 (start sample) (Sends r) t \<and> step checksum 8 (printed decompress_double 8) 3 t (Receives (partner r)) u)"
proof -
  have "\<not> both_ended (start sample)" by (simp add: both_ended_def start_def initial_def)
  then show ?thesis
    using pingpong_never_blocks [of checksum 8 "printed decompress_double 8" 3 sample "start sample"] reachable.start by blast
qed

text \<open>C35: When both processes have left the loop they have counted to the limit, every message has been received, and
  the arrays still have the sizes they were allocated with.\<close>

theorem pingpong_ends_together:
  assumes "reachable crc32 CT print limit a s" and "both_ended s"
  shows "ping_pong_count (procs s 0) = limit \<and> ping_pong_count (procs s 1) = limit \<and> queue s 0 = [] \<and> queue s 1 = [] \<and>
    same_sizes (arrays (procs s (limit mod 2))) a \<and> same_sizes (arrays (procs s (Suc limit mod 2))) a"
  using any.both_ended_over [OF any.reachable_phase [OF assms(1)] assms(2)] by blast

text \<open>With the limit 0 both leave the loop at once.\<close>

lemma reachable_no_turns:
  "\<exists>s. reachable crc32 CT print 0 a s \<and> both_ended s"
proof -
  have "step crc32 CT print 0 (start a) (Moves 0) ((start a)\<lparr>procs := (procs (start a))(0 := start_turn crc32 CT 0 0 (procs (start a) 0))\<rparr>)"
    (is "step _ _ _ _ _ _ ?s") by (rule step.turn) (simp_all add: start_def initial_def)
  moreover have "step crc32 CT print 0 ?s (Moves 1) (?s\<lparr>procs := (procs ?s)(1 := start_turn crc32 CT 0 1 (procs ?s 1))\<rparr>)"
    (is "step _ _ _ _ _ _ ?t") by (rule step.turn) (simp_all add: start_def initial_def)
  ultimately have "reachable crc32 CT print 0 a ?t" by (meson reachable.intros)
  moreover have "both_ended ?t" by (simp add: both_ended_def start_def initial_def start_turn_def)
  ultimately show ?thesis by blast
qed

theorem pingpong_ends_together_witness:
  "\<exists>s. both_ended s \<and> ping_pong_count (procs s 0) = 0 \<and> ping_pong_count (procs s 1) = 0 \<and> reachable checksum 10 (printed decompress_double 10) 0 sample s"
proof -
  obtain s where s: "reachable checksum 10 (printed decompress_double 10) 0 sample s" "both_ended s" using reachable_no_turns by blast
  then show ?thesis using pingpong_ends_together [OF s] by blast
qed



text \<open>C33: If no bit error is put into the data and CT is not 9, whose tests fail at random, every run ends: it has at most as
  many steps as this bound, however the processes take turns.\<close>

theorem pingpong_terminates:
  assumes "unaltered CT a" and "CT \<noteq> 9" and "((\<lambda>s t. \<exists>act. step crc32 CT print limit s act t) ^^ n) (start a) t"
  shows "n \<le> 2 * (limit * (2 * length (incoming CT a) + 8) + 1)"
proof -
  note ex = exchange_unaltered [OF assms(1)]
  have "n + exchange.work CT limit a t \<le> 2 * (limit * exchange.turn_work CT a + 1)"
    using exchange.runs_end [OF ex _ assms(3)] assms(2) by simp
  then show ?thesis unfolding exchange.turn_work_def [OF ex] by simp
qed

theorem pingpong_terminates_witness:
  "\<exists>t. ((\<lambda>s t. \<exists>act. step checksum 8 (printed decompress_double 8) 10000 s act t) ^^ 1) (start sample) t \<and> (1 :: nat) \<le> 240002"
proof -
  have "step checksum 8 (printed decompress_double 8) 10000 (start sample) (Moves 0)
      ((start sample)\<lparr>procs := (procs (start sample))(0 := start_turn checksum 8 10000 0 (procs (start sample) 0))\<rparr>)"
    (is "step _ _ _ _ _ _ ?t") by (rule step.turn) (simp_all add: start_def initial_def)
  then have run: "((\<lambda>s t. \<exists>act. step checksum 8 (printed decompress_double 8) 10000 s act t) ^^ 1) (start sample) ?t" by auto
  have "unaltered 8 sample" by (simp add: unaltered_def sample_def one_error_in_value)
  then have "1 \<le> 2 * (10000 * (2 * length (incoming 8 sample) + 8) + (1 :: nat))"
    by (rule pingpong_terminates [OF _ _ run]) simp
  then show ?thesis using run by (auto simp: incoming_def)
qed

section \<open>Long data\<close>

lemma received_bits:
  assumes "received_turn crc32 8 c (\<lambda>b. same_sizes b a) a a p"
  shows "bits_pred (arrays p) = bits_pred a \<and> crc p = data_crc crc32 8 a"
  using assms by (auto simp: received_turn_def turn_messages_def outgoing_def accept_def receive_into_def same_sizes_def data_crc_def Let_def
      split: if_splits)

lemma exchange_altered:
  assumes "\<forall>rnd. do_crc32 crc32 (flip_errors rnd (bits_pred a)) (length (bits_pred a)) \<noteq> do_crc32 crc32 (bits_pred a) (length (bits_pred a))"
  shows "exchange crc32 8 a ((=) a) (\<lambda>b. same_sizes b a) {False}"
proof
  fix b c p rnd ok a'
  assume "a = b" and got: "received_turn crc32 8 c (\<lambda>b. same_sizes b a) a b p" and t: "test_received crc32 8 rnd p = (ok, a')"
  then have p: "bits_pred (arrays p) = bits_pred a" "crc p = data_crc crc32 8 a" using received_bits by blast+
  have "roomy a p" using received_turn_roomy [OF got] \<open>a = b\<close> same_sizes_refl by blast
  then have "same_sizes a' a" using test_sizes [OF t] by (simp add: roomy_def same_sizes_def)
  moreover have "\<not> ok" using t p assms [rule_format, of rnd] by (auto simp: test_received_def data_crc_def length_flip_errors Let_def)
  ultimately show "ok \<in> {False} \<and> same_sizes a' a \<and> (ok \<longrightarrow> a = a')" by simp
qed (auto simp: same_sizes_refl checked_def)

text \<open>C36: With CT = 8 and at least 125000 compressed bytes, every receive flips a bit of the data, so if the checksum notices that, no
  test ever succeeds.  The programs then send the same data for ever: they never get stuck, and they never end.\<close>

theorem pingpong_livelock:
  assumes "\<forall>rnd. do_crc32 crc32 (flip_errors rnd (bits_pred a)) (length (bits_pred a)) \<noteq> do_crc32 crc32 (bits_pred a) (length (bits_pred a))"
    and "0 < limit" and "reachable crc32 8 print limit a s"
  shows "\<not> both_ended s \<and> (\<exists>act t. step crc32 8 print limit s act t)"
proof -
  note ex = exchange_altered [OF assms(1)]
  have phase: "exchange.phase crc32 8 print limit a ((=) a) (\<lambda>b. same_sizes b a) {False} s"
    by (rule exchange.reachable_phase [OF ex assms(3)])
  have "\<not> both_ended s" using exchange.both_ended_over [OF ex phase] assms(2) by auto
  then show ?thesis
    using exchange.phase_goes_on [OF ex phase] unfolding exchange.goes_on_def [OF ex] by blast
qed

text \<open>A checksum that is 0 if and only if all bytes are 0 notices a bit flipped in an array of zeros.\<close>

fun any_bit :: crc32_fun where
  "any_bit x None = 0"
| "any_bit x (Some d) = (if x = 0 \<and> (\<forall>b \<in> set d. b = 0) then 0 else 1)"

lemma any_bit_crc: "do_crc32 any_bit d (length d) = 0 \<longleftrightarrow> (\<forall>b \<in> set d. b = 0)"
proof -
  have "foldl (\<lambda>x b. any_bit x (Some [b])) x d = 0 \<longleftrightarrow> x = 0 \<and> (\<forall>b \<in> set d. b = 0)" for x
    by (induction d arbitrary: x) auto
  moreover have "do_crc32 any_bit d (length d) = foldl (\<lambda>x b. any_bit x (Some [b])) 0 (map (\<lambda>i. d ! i) [0..<length d])"
    by (simp add: do_crc32_def foldl_map)
  ultimately show ?thesis by (simp add: map_nth)
qed

definition zeros :: "byte list" where
  "zeros = replicate 125000 0"

lemma zeros: "length zeros = 125000" "b \<in> set zeros \<Longrightarrow> b = 0" "i < 125000 \<Longrightarrow> zeros ! i = 0"
  by (simp_all add: zeros_def)

lemma flip_zeros: "\<not> (\<forall>b \<in> set (flip_errors rnd zeros). b = 0)"
proof -
  let ?num = "rnd 0 mod 1000000"
  have "flt (fint 0) BER" by code_simp
  moreover have "?num div 8 < 125000" by (simp add: div_less_iff_less_mult)
  ultimately have f: "flip_errors rnd zeros = zeros[?num div 8 := push_bit (7 - ?num mod 8) 1]"
    by (simp add: flip_errors_def one_error_in_value bit_flip_def Let_def zeros)
  have "push_bit (7 - ?num mod 8) 1 \<in> set (flip_errors rnd zeros)"
    unfolding f using \<open>?num div 8 < 125000\<close> by (simp add: set_update_memI zeros)
  moreover have "bit (push_bit (7 - ?num mod 8) (1 :: byte)) (7 - ?num mod 8)"
    by (simp add: bit_exp_iff)
  ultimately show ?thesis by (metis bit_0_eq bot_apply bot_bool_def)
qed

theorem pingpong_livelock_witness:
  "\<exists>act t. step any_bit 8 (printed decompress_double 8) 10000 (start (sample\<lparr>bits_pred := zeros\<rparr>)) act t"
proof -
  let ?a = "sample\<lparr>bits_pred := zeros\<rparr>"
  have "do_crc32 any_bit (flip_errors rnd zeros) (length zeros) \<noteq> do_crc32 any_bit zeros (length zeros)" for rnd
    using any_bit_crc [of zeros] any_bit_crc [of "flip_errors rnd zeros"] flip_zeros [of rnd] zeros(2)
    by (metis length_flip_errors)
  then have "\<forall>rnd. do_crc32 any_bit (flip_errors rnd (bits_pred ?a)) (length (bits_pred ?a)) \<noteq> do_crc32 any_bit (bits_pred ?a) (length (bits_pred ?a))"
    by simp
  from pingpong_livelock [OF this _ reachable.start, of 10000 "printed decompress_double 8"] show ?thesis by simp
qed

end
