(* ===== verification/Himeno.thy ===== *)
theory Himeno
  imports Ratios
begin

text \<open>
  The Himeno benchmark, \<open>app/src/himeno/himenoBMTxps.c\<close>: Jacobi's iteration for the pressure on a
  grid that is cut into blocks, one for each process of a Cartesian arrangement.  A block has
  one layer of points of each neighbour, which \<open>sendp\<close> brings up to date after every sweep.  The
  state of the program is the stencil of every process.  A process leaves \<open>sendp\<close> when its
  neighbours have sent what they computed in the same iteration, so that one iteration is a
  function of all the stencils.  The sizes are at most 1025, no \<open>int\<close> overflows.
\<close>

section \<open>The code\<close>

text \<open>\<open>param.h\<close>: as it is, and as \<open>paramset.sh\<close> writes it for a size of the grid and a number of
  blocks in each direction.\<close>

record params =
  mx0 :: int
  my0 :: int
  mz0 :: int
  mimax :: int
  mjmax :: int
  mkmax :: int
  ndx0 :: nat
  ndy0 :: nat
  ndz0 :: nat

definition shipped :: params where
  "shipped = \<lparr>mx0 = 129, my0 = 129, mz0 = 257, mimax = 129, mjmax = 129, mkmax = 131, ndx0 = 1, ndy0 = 1, ndz0 = 2\<rparr>"

datatype grid_size = Ssmall | Small | Midium | Large | Elarge

fun grid_sizes :: "grid_size \<Rightarrow> int \<times> int \<times> int" where
  "grid_sizes Ssmall = (33, 33, 65)"
| "grid_sizes Small = (65, 65, 129)"
| "grid_sizes Midium = (129, 129, 257)"
| "grid_sizes Large = (257, 257, 513)"
| "grid_sizes Elarge = (513, 513, 1025)"

definition array_size :: "int \<Rightarrow> nat \<Rightarrow> int" where
  "array_size m0 nd = (if nd = 1 then m0 else m0 div int nd + 3)"

definition paramset :: "grid_size \<Rightarrow> nat \<Rightarrow> nat \<Rightarrow> nat \<Rightarrow> params" where
  "paramset g ndx ndy ndz =
     (case grid_sizes g of (mx, my, mz) \<Rightarrow>
        \<lparr>mx0 = mx, my0 = my, mz0 = mz, mimax = array_size mx ndx, mjmax = array_size my ndy,
         mkmax = array_size mz ndz, ndx0 = ndx, ndy0 = ndy, ndz0 = ndz\<rparr>)"

subsection \<open>Blocks\<close>

text \<open>\<open>mx1\<close> and \<open>mx2\<close> of \<open>initmax\<close>, for any direction: where a block of \<open>m\<close> points cut into \<open>nd\<close>
  begins, and how many points it has with those of its neighbours.\<close>

fun block_start :: "int \<Rightarrow> nat \<Rightarrow> nat \<Rightarrow> int" where
  "block_start m nd 0 = 0"
| "block_start m nd (Suc i) =
     (if int (Suc i) \<le> m mod int nd then block_start m nd i + m div int nd + 1
      else block_start m nd i + m div int nd)"

definition block_width :: "int \<Rightarrow> nat \<Rightarrow> nat \<Rightarrow> int" where
  "block_width m nd i = block_start m nd (i + 1) - block_start m nd i
     + (if i \<noteq> 0 then 1 else 0) + (if i \<noteq> nd - 1 then 1 else 0)"

definition block_offset :: "int \<Rightarrow> nat \<Rightarrow> nat \<Rightarrow> int" where
  "block_offset m nd i = (if i = 0 then block_start m nd i else block_start m nd i - 1)"

type_synonym coord = "nat \<times> nat \<times> nat"

definition coords :: "params \<Rightarrow> coord list" where
  "coords par = List.product [0..<ndx0 par] (List.product [0..<ndy0 par] [0..<ndz0 par])"

record stencil =
  imax :: int
  jmax :: int
  kmax :: int
  coef_a :: "nat \<Rightarrow> grid"
  coef_b :: "nat \<Rightarrow> grid"
  coef_c :: "nat \<Rightarrow> grid"
  bnd :: grid
  wrk1 :: grid
  wrk2 :: grid
  press :: grid

type_synonym net = "coord \<Rightarrow> stencil"

definition initmax :: "params \<Rightarrow> coord \<Rightarrow> int \<times> int \<times> int \<times> int" where
  "initmax par = (\<lambda>(x, y, z).
     (block_width (mx0 par - 1) (ndx0 par) x, block_width (my0 par - 1) (ndy0 par) y,
      block_width (mz0 par - 1) (ndz0 par) z, block_offset (mx0 par - 1) (ndx0 par) x))"

text \<open>\<open>initmt\<close> writes past the arrays when a block has more points than they have.  The first loop
  clears the arrays, the second one fills the block.\<close>

definition in_range :: "int \<Rightarrow> int \<Rightarrow> int \<Rightarrow> int \<Rightarrow> int \<Rightarrow> int \<Rightarrow> bool" where
  "in_range ni nj nk i j k \<longleftrightarrow> 0 \<le> i \<and> i < ni \<and> 0 \<le> j \<and> j < nj \<and> 0 \<le> k \<and> k < nk"

definition block_values :: "int \<times> int \<times> int \<Rightarrow> (int \<Rightarrow> 32 word) \<Rightarrow> grid" where
  "block_values n v = (case n of (ni, nj, nk) \<Rightarrow> (\<lambda>i j k. if in_range ni nj nk i j k then v i else 0))"

definition one_sixth :: "32 word" where
  "one_sixth = fconv (fdiv (fint 1) (fint 6 :: 64 word))"

definition first_pressure :: "int \<Rightarrow> int \<Rightarrow> int \<Rightarrow> 32 word" where
  "first_pressure mx it i = fdiv (fint ((i + it) * (i + it))) (fint ((mx - 1) * (mx - 1)))"

definition initmt :: "params \<Rightarrow> coord \<Rightarrow> stencil" where
  "initmt par c =
     (case initmax par c of (ni, nj, nk, it) \<Rightarrow>
        \<lparr>imax = ni, jmax = nj, kmax = nk,
         coef_a = (\<lambda>m. block_values (ni, nj, nk) (\<lambda>i. if m < 3 then fint 1 else one_sixth)),
         coef_b = (\<lambda>m. block_values (ni, nj, nk) (\<lambda>i. 0)),
         coef_c = (\<lambda>m. block_values (ni, nj, nk) (\<lambda>i. fint 1)),
         bnd = block_values (ni, nj, nk) (\<lambda>i. fint 1),
         wrk1 = block_values (ni, nj, nk) (\<lambda>i. 0),
         wrk2 = block_values (ni, nj, nk) (\<lambda>i. 0),
         press = block_values (ni, nj, nk) (first_pressure (mx0 par - 1) it)\<rparr>)"

definition fits :: "params \<Rightarrow> coord \<Rightarrow> bool" where
  "fits par c \<longleftrightarrow>
     (case initmax par c of (ni, nj, nk, it) \<Rightarrow>
        ni \<le> 0 \<or> nj \<le> 0 \<or> nk \<le> 0 \<or> ni \<le> mimax par \<and> nj \<le> mjmax par \<and> nk \<le> mkmax par)"

definition init_net :: "params \<Rightarrow> net result" where
  "init_net par = (if list_all (fits par) (coords par) then Inr (initmt par) else Inl OutOfBounds)"

subsection \<open>A sweep\<close>

definition omega :: "32 word" where
  "omega = 0x3F4CCCCD"

text \<open>The product of a coefficient with a difference of four corners.\<close>

definition cross :: "32 word \<Rightarrow> 32 word \<Rightarrow> 32 word \<Rightarrow> 32 word \<Rightarrow> 32 word \<Rightarrow> 32 word" where
  "cross c p1 p2 p3 p4 = fmul c (fadd (fsub (fsub p1 p2) p3) p4)"

definition s0_of :: "stencil \<Rightarrow> int \<Rightarrow> int \<Rightarrow> int \<Rightarrow> 32 word" where
  "s0_of st i j k =
     (let p = press st; a = coef_a st; b = coef_b st; c = coef_c st in
      fadd (fadd (fadd (fadd (fadd (fadd (fadd (fadd (fadd
        (fmul (a 0 i j k) (p (i + 1) j k))
        (fmul (a 1 i j k) (p i (j + 1) k)))
        (fmul (a 2 i j k) (p i j (k + 1))))
        (cross (b 0 i j k) (p (i + 1) (j + 1) k) (p (i + 1) (j - 1) k) (p (i - 1) (j + 1) k) (p (i - 1) (j - 1) k)))
        (cross (b 1 i j k) (p i (j + 1) (k + 1)) (p i (j - 1) (k + 1)) (p i (j + 1) (k - 1)) (p i (j - 1) (k - 1))))
        (cross (b 2 i j k) (p (i + 1) j (k + 1)) (p (i - 1) j (k + 1)) (p (i + 1) j (k - 1)) (p (i - 1) j (k - 1))))
        (fmul (c 0 i j k) (p (i - 1) j k)))
        (fmul (c 1 i j k) (p i (j - 1) k)))
        (fmul (c 2 i j k) (p i j (k - 1))))
        (wrk1 st i j k))"

definition ss_of :: "stencil \<Rightarrow> int \<Rightarrow> int \<Rightarrow> int \<Rightarrow> 32 word" where
  "ss_of st i j k = fmul (fsub (fmul (s0_of st i j k) (coef_a st 3 i j k)) (press st i j k)) (bnd st i j k)"

definition interior :: "stencil \<Rightarrow> int \<Rightarrow> int \<Rightarrow> int \<Rightarrow> bool" where
  "interior st i j k \<longleftrightarrow> 1 \<le> i \<and> i < imax st - 1 \<and> 1 \<le> j \<and> j < jmax st - 1 \<and> 1 \<le> k \<and> k < kmax st - 1"

definition wgosa_of :: "stencil \<Rightarrow> 32 word" where
  "wgosa_of st =
     foldl (\<lambda>w i. foldl (\<lambda>w j. foldl (\<lambda>w k. fadd w (fmul (ss_of st i j k) (ss_of st i j k)))
       w [1..kmax st - 2]) w [1..jmax st - 2]) 0 [1..imax st - 2]"

text \<open>The first loop writes \<open>wrk2\<close> only and reads \<open>p\<close>, the second one copies it.\<close>

definition relaxed :: "stencil \<Rightarrow> grid" where
  "relaxed st = (\<lambda>i j k. if interior st i j k then fadd (press st i j k) (fmul omega (ss_of st i j k)) else wrk2 st i j k)"

definition sweep :: "stencil \<Rightarrow> stencil" where
  "sweep st = st\<lparr>wrk2 := relaxed st,
     press := (\<lambda>i j k. if interior st i j k then relaxed st i j k else press st i j k)\<rparr>"

subsection \<open>The exchange\<close>

text \<open>
  \<open>ijvec\<close> describes \<open>imax*jmax\<close> numbers at the distance of \<open>MKMAX\<close>, one for each pair \<open>[i][j]\<close> of
  the array, of which the rows have \<open>MJMAX\<close> pairs; \<open>ikvec\<close> and \<open>jkvec\<close> describe a plane of the block.
\<close>

definition ijvec :: "params \<Rightarrow> stencil \<Rightarrow> int \<Rightarrow> int \<Rightarrow> bool" where
  "ijvec par st i j \<longleftrightarrow> 0 \<le> i \<and> 0 \<le> j \<and> j < mjmax par \<and> i * mjmax par + j < imax st * jmax st"

definition ikvec :: "stencil \<Rightarrow> int \<Rightarrow> int \<Rightarrow> bool" where
  "ikvec st i k \<longleftrightarrow> 0 \<le> i \<and> i < imax st \<and> 0 \<le> k \<and> k < kmax st"

definition jkvec :: "stencil \<Rightarrow> int \<Rightarrow> int \<Rightarrow> bool" where
  "jkvec st j k \<longleftrightarrow> 0 \<le> j \<and> j < jmax st \<and> 0 \<le> k \<and> k < kmax st"

text \<open>The last layer comes from the second one of the next block, the first layer from the last but
  one of the block before; at the ends there is no neighbour (\<open>MPI_PROC_NULL\<close>).\<close>

definition sendp3 :: "params \<Rightarrow> net \<Rightarrow> net" where
  "sendp3 par net = (\<lambda>(x, y, z). let st = net (x, y, z) in
     st\<lparr>press := (\<lambda>i j k.
       if ijvec par st i j \<and> k = kmax st - 1 \<and> z + 1 < ndz0 par then press (net (x, y, z + 1)) i j 1
       else if ijvec par st i j \<and> k = 0 \<and> 0 < z then press (net (x, y, z - 1)) i j (kmax (net (x, y, z - 1)) - 2)
       else press st i j k)\<rparr>)"

definition sendp2 :: "params \<Rightarrow> net \<Rightarrow> net" where
  "sendp2 par net = (\<lambda>(x, y, z). let st = net (x, y, z) in
     st\<lparr>press := (\<lambda>i j k.
       if ikvec st i k \<and> j = jmax st - 1 \<and> y + 1 < ndy0 par then press (net (x, y + 1, z)) i 1 k
       else if ikvec st i k \<and> j = 0 \<and> 0 < y then press (net (x, y - 1, z)) i (jmax (net (x, y - 1, z)) - 2) k
       else press st i j k)\<rparr>)"

definition sendp1 :: "params \<Rightarrow> net \<Rightarrow> net" where
  "sendp1 par net = (\<lambda>(x, y, z). let st = net (x, y, z) in
     st\<lparr>press := (\<lambda>i j k.
       if jkvec st j k \<and> i = imax st - 1 \<and> x + 1 < ndx0 par then press (net (x + 1, y, z)) 1 j k
       else if jkvec st j k \<and> i = 0 \<and> 0 < x then press (net (x - 1, y, z)) (imax (net (x - 1, y, z)) - 2) j k
       else press st i j k)\<rparr>)"

definition sendp :: "params \<Rightarrow> net \<Rightarrow> net" where
  "sendp par net =
     (let net = (if 1 < ndz0 par then sendp3 par net else net);
          net = (if 1 < ndy0 par then sendp2 par net else net)
      in if 1 < ndx0 par then sendp1 par net else net)"

subsection \<open>The program\<close>

text \<open>\<open>reduce\<close> is \<open>MPI_Allreduce\<close> with \<open>MPI_SUM\<close>, whose order of additions is MPI's.  Without a
  round \<open>gosa\<close> is never set.\<close>

definition jacobi_round ::
  "(params \<Rightarrow> net \<Rightarrow> net) \<Rightarrow> params \<Rightarrow> (32 word list \<Rightarrow> 32 word) \<Rightarrow> net \<times> 32 word result \<Rightarrow> net \<times> 32 word result" where
  "jacobi_round exchange par reduce s =
     (exchange par (\<lambda>c. sweep (fst s c)), Inr (reduce (map (\<lambda>c. wgosa_of (fst s c)) (coords par))))"

definition jacobi ::
  "(params \<Rightarrow> net \<Rightarrow> net) \<Rightarrow> params \<Rightarrow> (32 word list \<Rightarrow> 32 word) \<Rightarrow> nat \<Rightarrow> net \<Rightarrow> net \<times> 32 word result" where
  "jacobi exchange par reduce nn net = (jacobi_round exchange par reduce ^^ nn) (net, Inl Uninitialised)"

text \<open>\<open>None\<close>: the number of processes is not that of the blocks, the program ends.  \<open>nn\<close> is the
  number of rounds for which the time of the first three leaves room.\<close>

definition himeno ::
  "params \<Rightarrow> nat \<Rightarrow> (32 word list \<Rightarrow> 32 word) \<Rightarrow> nat \<Rightarrow> (net \<times> 32 word) option result" where
  "himeno par npe reduce nn =
     (if ndx0 par * ndy0 par * ndz0 par \<noteq> npe then Inr None
      else res_bind (init_net par) (\<lambda>net.
        case jacobi sendp par reduce nn (fst (jacobi sendp par reduce 3 net)) of (net, gosa) \<Rightarrow>
          res_bind gosa (\<lambda>gosa. Inr (Some (net, gosa)))))"

section \<open>Blocks\<close>

lemma block_start_value:
  "block_start m nd i = int i * (m div int nd) + min (int i) (m mod int nd)" if "0 < nd"
proof (induction i)
  case 0
  then show ?case using that by simp
next
  case (Suc i)
  then show ?case by (simp add: algebra_simps min_def)
qed

lemma block_start_last: "0 < nd \<Longrightarrow> block_start m nd nd = m"
  by (simp add: block_start_value min_def) (metis mult_div_mod_eq less_le not_le pos_mod_bound of_nat_0_less_iff)

lemma block_count:
  "block_start m nd (Suc i) - block_start m nd i = m div int nd + (if int (Suc i) \<le> m mod int nd then 1 else 0)"
  by simp

lemma block_nonempty:
  assumes "0 < nd" and "int nd \<le> m"
  shows "block_start m nd i + 1 \<le> block_start m nd (Suc i)"
proof -
  have "1 \<le> m div int nd" using assms by (simp add: pos_imp_zdiv_pos_iff int_one_le_iff_zero_less)
  then show ?thesis by simp
qed

lemma block_start_mono:
  assumes "0 < nd" and "int nd \<le> m" and "i \<le> i'"
  shows "block_start m nd i + int (i' - i) \<le> block_start m nd i'"
  using assms(3)
proof (induction i' rule: dec_induct)
  case (step n)
  then show ?case using block_nonempty [OF assms(1,2), of n] by simp
qed simp

declare block_start.simps(2) [simp del]

lemma block_end: "i < nd \<Longrightarrow>
  block_offset m nd i + block_width m nd i = block_start m nd (Suc i) + (if i \<noteq> nd - 1 then 1 else 0)"
  by (simp add: block_offset_def block_width_def)

lemma array_size_suffices:
  assumes "i < nd" and "0 \<le> m"
  shows "block_width (m - 1) nd i \<le> array_size m nd"
proof -
  have "(m - 1) div int nd \<le> m div int nd" using assms by (intro zdiv_mono1) auto
  then show ?thesis using assms block_count [of "m - 1" nd i]
    by (auto simp: block_width_def array_size_def split: if_splits)
qed

text \<open>C29: The arrays \<open>paramset.sh\<close> declares are large enough for every block: \<open>initmt\<close> never writes
  past them, whatever the size of the grid and the number of blocks.\<close>

theorem paramset_fits: "init_net (paramset g ndx ndy ndz) = Inr (initmt (paramset g ndx ndy ndz))"
proof -
  obtain mx my mz where g: "grid_sizes g = (mx, my, mz)" "0 \<le> mx" "0 \<le> my" "0 \<le> mz" by (cases g) auto
  have "fits (paramset g ndx ndy ndz) (x, y, z)" if "x < ndx" "y < ndy" "z < ndz" for x y z
    using that g by (simp add: fits_def initmax_def paramset_def array_size_suffices)
  then show ?thesis using g by (auto simp: init_net_def list_all_iff coords_def paramset_def)
qed

end
