(* ===== verification/HimenoRuns.thy ===== *)
theory HimenoRuns
  imports Himeno
begin

text \<open>
  The run of the Himeno benchmark on several blocks compared with its run on one: what an exchange
  promises the sweeps is the locale \<open>halo_exchange\<close>, which \<open>sendp\<close> interprets, and every point
  of every block has in every round the value of the same point in the run on one block.
\<close>

section \<open>One direction\<close>

text \<open>Where the point \<open>a\<close> of the block \<open>i\<close> comes from in an exchange.\<close>

definition source :: "int \<Rightarrow> nat \<Rightarrow> nat \<Rightarrow> int \<Rightarrow> nat \<times> int" where
  "source m nd i a =
     (if a = block_width m nd i - 1 \<and> i + 1 < nd then (i + 1, 1)
      else if a = 0 \<and> 0 < i then (i - 1, block_width m nd (i - 1) - 2) else (i, a))"

definition inner :: "int \<Rightarrow> nat \<Rightarrow> nat \<Rightarrow> int \<Rightarrow> bool" where
  "inner m nd i a \<longleftrightarrow> 1 \<le> a \<and> a < block_width m nd i - 1"

definition edge :: "int \<Rightarrow> int \<Rightarrow> bool" where
  "edge m g \<longleftrightarrow> g = 0 \<or> g = m - 1"

lemma inner_inside:
  assumes "i < nd" and "int nd \<le> m" and "inner m nd i a"
  shows "1 \<le> block_offset m nd i + a" and "block_offset m nd i + a < m - 1"
proof -
  have nd: "0 < nd" using assms(1) by simp
  have "block_start m nd 0 + int i \<le> block_start m nd i"
    using block_start_mono [OF nd assms(2), of 0 i] by simp
  then show "1 \<le> block_offset m nd i + a" using assms(3)
    by (auto simp: block_offset_def inner_def)
  have "block_start m nd (Suc i) + int (nd - Suc i) \<le> m"
    using block_start_mono [OF nd assms(2), of "Suc i" nd] block_start_last [OF nd, of m] assms(1) by simp
  then show "block_offset m nd i + a < m - 1" using assms(1,3) block_end [OF assms(1), of m]
    by (auto simp: inner_def split: if_splits)
qed

lemma source_place:
  assumes "i < nd" and "int nd \<le> m" and "0 \<le> a" and "a < block_width m nd i" and "source m nd i a = (i', a')"
  shows "i' < nd" and "0 \<le> a'" and "a' < block_width m nd i'"
    and "block_offset m nd i' + a' = block_offset m nd i + a"
    and "inner m nd i' a' \<or> edge m (block_offset m nd i + a)"
proof -
  have nd: "0 < nd" using assms(1) by simp
  note ne = block_nonempty [OF nd assms(2)]
  have last: "block_start m nd nd = m" by (rule block_start_last [OF nd])
  have s0: "block_start m nd 0 = 0" by simp
  let ?high = "a = block_width m nd i - 1 \<and> i + 1 < nd" and ?low = "a = 0 \<and> 0 < i"
  consider (high) "a = block_width m nd i - 1" "i + 1 < nd" "i' = i + 1" "a' = 1"
    | (low) "a = 0" "0 < i" "i' = i - 1" "a' = block_width m nd (i - 1) - 2"
    | (here) "\<not> ?high" "\<not> ?low" "i' = i" "a' = a"
    using assms(5) unfolding source_def by (metis prod.inject)
  then have "i' < nd \<and> 0 \<le> a' \<and> a' < block_width m nd i' \<and>
    block_offset m nd i' + a' = block_offset m nd i + a \<and> (inner m nd i' a' \<or> edge m (block_offset m nd i + a))"
  proof cases
    case high
    then show ?thesis using ne [of i] ne [of "i + 1"] last
      by (cases "Suc (Suc i) = nd") (auto simp: block_width_def block_offset_def inner_def edge_def)
  next
    case low
    then show ?thesis using assms(1) ne [of "i - 1"] s0
      by (cases "i = 1") (auto simp: block_width_def block_offset_def inner_def edge_def)
  next
    case here
    then show ?thesis using assms(1,3,4) last s0
      by (cases "Suc i = nd") (auto simp: block_width_def block_offset_def inner_def edge_def)
  qed
  then show "i' < nd" "0 \<le> a'" "a' < block_width m nd i'"
    "block_offset m nd i' + a' = block_offset m nd i + a"
    "inner m nd i' a' \<or> edge m (block_offset m nd i + a)" by simp_all
qed

section \<open>Blocks of the grid\<close>

text \<open>The cuts the theorems speak of: every block has points, the arrays have room, and \<open>ijvec\<close>
  reaches every inner pair.\<close>

definition covered :: "params \<Rightarrow> coord \<Rightarrow> bool" where
  "covered par c \<longleftrightarrow>
     (case initmax par c of (ni, nj, nk, it) \<Rightarrow> nj \<le> mjmax par \<and> (ni - 2) * mjmax par + (nj - 2) < ni * nj)"

definition well_cut :: "params \<Rightarrow> bool" where
  "well_cut par \<longleftrightarrow> 0 < ndx0 par \<and> int (ndx0 par) < mx0 par \<and> 0 < ndy0 par \<and> int (ndy0 par) < my0 par \<and>
     0 < ndz0 par \<and> int (ndz0 par) < mz0 par \<and> list_all (fits par) (coords par) \<and>
     (1 < ndz0 par \<longrightarrow> list_all (covered par) (coords par))"

text \<open>The run on one block.\<close>

definition one_block :: "params \<Rightarrow> params" where
  "one_block par = par\<lparr>mimax := mx0 par, mjmax := my0 par, mkmax := mz0 par, ndx0 := 1, ndy0 := 1, ndz0 := 1\<rparr>"

definition block_point :: "params \<Rightarrow> coord \<Rightarrow> int \<Rightarrow> int \<Rightarrow> int \<Rightarrow> bool" where
  "block_point par c i j k = (case initmax par c of (ni, nj, nk, it) \<Rightarrow> in_range ni nj nk i j k)"

text \<open>The value at the place in the whole grid of a point of a block.\<close>

definition at_place :: "params \<Rightarrow> grid \<Rightarrow> coord \<Rightarrow> grid" where
  "at_place par G = (\<lambda>(x, y, z) i j k.
     G (block_offset (mx0 par - 1) (ndx0 par) x + i) (block_offset (my0 par - 1) (ndy0 par) y + j)
       (block_offset (mz0 par - 1) (ndz0 par) z + k))"

definition inner_i :: "params \<Rightarrow> coord \<Rightarrow> int \<Rightarrow> bool" where
  "inner_i par c = inner (mx0 par - 1) (ndx0 par) (fst c)"

definition inner_j :: "params \<Rightarrow> coord \<Rightarrow> int \<Rightarrow> bool" where
  "inner_j par c = inner (my0 par - 1) (ndy0 par) (fst (snd c))"

definition inner_k :: "params \<Rightarrow> coord \<Rightarrow> int \<Rightarrow> bool" where
  "inner_k par c = inner (mz0 par - 1) (ndz0 par) (snd (snd c))"

definition on_edge :: "params \<Rightarrow> coord \<Rightarrow> int \<Rightarrow> int \<Rightarrow> int \<Rightarrow> bool" where
  "on_edge par = (\<lambda>(x, y, z) i j k.
     edge (mx0 par - 1) (block_offset (mx0 par - 1) (ndx0 par) x + i) \<or>
     edge (my0 par - 1) (block_offset (my0 par - 1) (ndy0 par) y + j) \<or>
     edge (mz0 par - 1) (block_offset (mz0 par - 1) (ndz0 par) z + k))"

text \<open>A net whose points that satisfy \<open>Q\<close> have the values of \<open>G\<close>.\<close>

definition agrees ::
  "params \<Rightarrow> grid \<Rightarrow> (coord \<Rightarrow> int \<Rightarrow> int \<Rightarrow> int \<Rightarrow> bool) \<Rightarrow> net \<Rightarrow> bool" where
  "agrees par G Q net \<longleftrightarrow> (\<forall>c \<in> set (coords par). \<forall>i j k. block_point par c i j k \<longrightarrow> Q c i j k \<longrightarrow>
     press (net c) i j k = at_place par G c i j k)"

text \<open>Only the pressure and \<open>wrk2\<close> change after \<open>initmt\<close>.\<close>

definition shaped :: "params \<Rightarrow> net \<Rightarrow> bool" where
  "shaped par net \<longleftrightarrow> (\<forall>c. \<exists>w p. net c = (initmt par c)\<lparr>wrk2 := w, press := p\<rparr>)"

lemma set_coords: "(x, y, z) \<in> set (coords par) \<longleftrightarrow> x < ndx0 par \<and> y < ndy0 par \<and> z < ndz0 par"
  by (auto simp: coords_def)

lemma shaped_sizes:
  assumes "shaped par net"
  shows "imax (net (x, y, z)) = block_width (mx0 par - 1) (ndx0 par) x"
    and "jmax (net (x, y, z)) = block_width (my0 par - 1) (ndy0 par) y"
    and "kmax (net (x, y, z)) = block_width (mz0 par - 1) (ndz0 par) z"
proof -
  obtain w p where n: "net (x, y, z) = (initmt par (x, y, z))\<lparr>wrk2 := w, press := p\<rparr>"
    using assms unfolding shaped_def by blast
  show "imax (net (x, y, z)) = block_width (mx0 par - 1) (ndx0 par) x"
    "jmax (net (x, y, z)) = block_width (my0 par - 1) (ndy0 par) y"
    "kmax (net (x, y, z)) = block_width (mz0 par - 1) (ndz0 par) z"
    unfolding n by (simp_all add: initmt_def initmax_def)
qed

lemma block_point_iff:
  "block_point par (x, y, z) i j k \<longleftrightarrow>
     0 \<le> i \<and> i < block_width (mx0 par - 1) (ndx0 par) x \<and> 0 \<le> j \<and> j < block_width (my0 par - 1) (ndy0 par) y \<and>
     0 \<le> k \<and> k < block_width (mz0 par - 1) (ndz0 par) z"
  by (simp add: block_point_def initmax_def in_range_def)

lemma agreesD:
  "agrees par G Q net \<Longrightarrow> (x, y, z) \<in> set (coords par) \<Longrightarrow> block_point par (x, y, z) i j k \<Longrightarrow> Q (x, y, z) i j k \<Longrightarrow>
    press (net (x, y, z)) i j k = at_place par G (x, y, z) i j k"
  by (simp add: agrees_def)

lemma agreesI:
  assumes "\<And>x y z i j k. x < ndx0 par \<Longrightarrow> y < ndy0 par \<Longrightarrow> z < ndz0 par \<Longrightarrow> block_point par (x, y, z) i j k \<Longrightarrow>
    Q (x, y, z) i j k \<Longrightarrow> press (net (x, y, z)) i j k = at_place par G (x, y, z) i j k"
  shows "agrees par G Q net"
  using assms by (auto simp: agrees_def set_coords)

section \<open>What an exchange promises\<close>

text \<open>
  An exchange writes the pressure only, and brings a net right whose inner points are right and
  those of the boundary of the whole grid.
\<close>

locale halo_exchange =
  fixes exchange :: "params \<Rightarrow> net \<Rightarrow> net" and suits :: "params \<Rightarrow> bool"
  assumes keeps: "shaped par net \<Longrightarrow> shaped par (exchange par net)"
    and cut: "suits par \<Longrightarrow> int (ndx0 par) < mx0 par \<and> int (ndy0 par) < my0 par \<and> int (ndz0 par) < mz0 par"
    and fills: "suits par \<Longrightarrow> shaped par net \<Longrightarrow>
      agrees par G (\<lambda>c i j k. on_edge par c i j k \<or> inner_i par c i \<and> inner_j par c j \<and> inner_k par c k) net \<Longrightarrow>
      agrees par G (\<lambda>c i j k. True) (exchange par net)"
    and alone: "ndx0 par = 1 \<Longrightarrow> ndy0 par = 1 \<Longrightarrow> ndz0 par = 1 \<Longrightarrow> exchange par net = net"

subsection \<open>The three exchanges\<close>

lemma source_case:
  "(case source m nd i a of (i', a') \<Rightarrow> f i' a') =
    (if a = block_width m nd i - 1 \<and> i + 1 < nd then f (i + 1) 1
     else if a = 0 \<and> 0 < i then f (i - 1) (block_width m nd (i - 1) - 2) else f i a)"
  by (auto simp: source_def)

lemma press_sendp3:
  assumes "shaped par net"
  shows "press (sendp3 par net (x, y, z)) i j k =
    (if ijvec par (net (x, y, z)) i j
     then case source (mz0 par - 1) (ndz0 par) z k of (z', k') \<Rightarrow> press (net (x, y, z')) i j k'
     else press (net (x, y, z)) i j k)"
  by (auto simp: sendp3_def source_case Let_def shaped_sizes [OF assms])

lemma press_sendp2:
  assumes "shaped par net" and "block_point par (x, y, z) i j k"
  shows "press (sendp2 par net (x, y, z)) i j k =
    (case source (my0 par - 1) (ndy0 par) y j of (y', j') \<Rightarrow> press (net (x, y', z)) i j' k)"
  using assms(2) by (auto simp: sendp2_def source_case Let_def shaped_sizes [OF assms(1)] ikvec_def block_point_iff)

lemma press_sendp1:
  assumes "shaped par net" and "block_point par (x, y, z) i j k"
  shows "press (sendp1 par net (x, y, z)) i j k =
    (case source (mx0 par - 1) (ndx0 par) x i of (x', i') \<Rightarrow> press (net (x', y, z)) i' j k)"
  using assms(2) by (auto simp: sendp1_def source_case Let_def shaped_sizes [OF assms(1)] jkvec_def block_point_iff)

text \<open>Where a point comes from has the same place, and is an inner point or on the edge.\<close>

lemma moved_k:
  assumes "well_cut par" and "(x, y, z) \<in> set (coords par)" and "block_point par (x, y, z) i j k"
    and "agrees par G (\<lambda>c i j k. on_edge par c i j k \<or> inner_i par c i \<and> inner_j par c j \<and> inner_k par c k) net"
    and "on_edge par (x, y, z) i j k \<or> inner_i par (x, y, z) i \<and> inner_j par (x, y, z) j"
  shows "(case source (mz0 par - 1) (ndz0 par) z k of (z', k') \<Rightarrow> press (net (x, y, z')) i j k') =
    at_place par G (x, y, z) i j k"
proof -
  obtain z' k' where src: "source (mz0 par - 1) (ndz0 par) z k = (z', k')" by force
  have "z < ndz0 par" "int (ndz0 par) \<le> mz0 par - 1" "0 \<le> k" "k < block_width (mz0 par - 1) (ndz0 par) z"
    using assms(1-3) by (simp_all add: set_coords well_cut_def block_point_iff)
  note sp = source_place [OF this src]
  have "press (net (x, y, z')) i j k' = at_place par G (x, y, z') i j k'"
    using assms(2,3,5) sp
    by (intro agreesD [OF assms(4)]) (auto simp: set_coords block_point_iff on_edge_def inner_i_def inner_j_def inner_k_def)
  then show ?thesis by (simp add: src at_place_def sp(4))
qed

lemma moved_j:
  assumes "well_cut par" and "(x, y, z) \<in> set (coords par)" and "block_point par (x, y, z) i j k"
    and "agrees par G (\<lambda>c i j k. on_edge par c i j k \<or> inner_i par c i \<and> inner_j par c j) net"
    and "on_edge par (x, y, z) i j k \<or> inner_i par (x, y, z) i"
  shows "(case source (my0 par - 1) (ndy0 par) y j of (y', j') \<Rightarrow> press (net (x, y', z)) i j' k) =
    at_place par G (x, y, z) i j k"
proof -
  obtain y' j' where src: "source (my0 par - 1) (ndy0 par) y j = (y', j')" by force
  have "y < ndy0 par" "int (ndy0 par) \<le> my0 par - 1" "0 \<le> j" "j < block_width (my0 par - 1) (ndy0 par) y"
    using assms(1-3) by (simp_all add: set_coords well_cut_def block_point_iff)
  note sp = source_place [OF this src]
  have "press (net (x, y', z)) i j' k = at_place par G (x, y', z) i j' k"
    using assms(2,3,5) sp
    by (intro agreesD [OF assms(4)]) (auto simp: set_coords block_point_iff on_edge_def inner_i_def inner_j_def)
  then show ?thesis by (simp add: src at_place_def sp(4))
qed

lemma moved_i:
  assumes "well_cut par" and "(x, y, z) \<in> set (coords par)" and "block_point par (x, y, z) i j k"
    and "agrees par G (\<lambda>c i j k. on_edge par c i j k \<or> inner_i par c i) net"
  shows "(case source (mx0 par - 1) (ndx0 par) x i of (x', i') \<Rightarrow> press (net (x', y, z)) i' j k) =
    at_place par G (x, y, z) i j k"
proof -
  obtain x' i' where src: "source (mx0 par - 1) (ndx0 par) x i = (x', i')" by force
  have "x < ndx0 par" "int (ndx0 par) \<le> mx0 par - 1" "0 \<le> i" "i < block_width (mx0 par - 1) (ndx0 par) x"
    using assms(1-3) by (simp_all add: set_coords well_cut_def block_point_iff)
  note sp = source_place [OF this src]
  have "press (net (x', y, z)) i' j k = at_place par G (x', y, z) i' j k"
    using assms(2,3) sp
    by (intro agreesD [OF assms(4)]) (auto simp: set_coords block_point_iff on_edge_def inner_i_def)
  then show ?thesis by (simp add: src at_place_def sp(4))
qed

lemma source_single: "\<not> 1 < nd \<Longrightarrow> i < nd \<Longrightarrow> source m nd i a = (i, a)"
  by (simp add: source_def)

lemma shaped_press:
  assumes "shaped par net" and "\<And>x y z. \<exists>q. net' (x, y, z) = (net (x, y, z))\<lparr>press := q\<rparr>"
  shows "shaped par net'"
  unfolding shaped_def split_paired_All
proof (intro allI)
  fix x y z
  obtain w p q where "net (x, y, z) = (initmt par (x, y, z))\<lparr>wrk2 := w, press := p\<rparr>"
    "net' (x, y, z) = (net (x, y, z))\<lparr>press := q\<rparr>"
    using assms unfolding shaped_def by blast
  then have "net' (x, y, z) = (initmt par (x, y, z))\<lparr>wrk2 := w, press := q\<rparr>" by simp
  then show "\<exists>w p. net' (x, y, z) = (initmt par (x, y, z))\<lparr>wrk2 := w, press := p\<rparr>" by blast
qed

lemma shaped_sendp:
  assumes "shaped par net"
  shows "shaped par (sendp3 par net)" and "shaped par (sendp2 par net)" and "shaped par (sendp1 par net)"
  by (rule shaped_press [OF assms], simp only: sendp3_def prod.case Let_def, blast,
      rule shaped_press [OF assms], simp only: sendp2_def prod.case Let_def, blast,
      rule shaped_press [OF assms], simp only: sendp1_def prod.case Let_def, blast)

lemma ijvec_inner:
  assumes "well_cut par" and "1 < ndz0 par" and "shaped par net" and "(x, y, z) \<in> set (coords par)"
    and "inner_i par (x, y, z) i" and "inner_j par (x, y, z) j"
  shows "ijvec par (net (x, y, z)) i j"
proof -
  let ?ni = "block_width (mx0 par - 1) (ndx0 par) x" and ?nj = "block_width (my0 par - 1) (ndy0 par) y"
  have "covered par (x, y, z)" using assms(1,2,4) by (simp add: well_cut_def list_all_iff)
  then have c: "?nj \<le> mjmax par" "(?ni - 2) * mjmax par + (?nj - 2) < ?ni * ?nj"
    by (simp_all add: covered_def initmax_def)
  have b: "1 \<le> i" "i \<le> ?ni - 2" "1 \<le> j" "j \<le> ?nj - 2" using assms(5,6) by (simp_all add: inner_i_def inner_j_def inner_def)
  then have "i * mjmax par \<le> (?ni - 2) * mjmax par" using c(1) by (intro mult_right_mono) auto
  then have "i * mjmax par + j < ?ni * ?nj" using b(4) c(2) by linarith
  then show ?thesis using b c(1) by (simp add: ijvec_def shaped_sizes [OF assms(3)])
qed

lemma sendp_fills:
  assumes "well_cut par" and "shaped par net"
    and "agrees par G (\<lambda>c i j k. on_edge par c i j k \<or> inner_i par c i \<and> inner_j par c j \<and> inner_k par c k) net"
  shows "agrees par G (\<lambda>c i j k. True) (sendp par net)"
proof -
  define net3 where "net3 = (if 1 < ndz0 par then sendp3 par net else net)"
  define net2 where "net2 = (if 1 < ndy0 par then sendp2 par net3 else net3)"
  have s3: "shaped par net3" and s2: "shaped par net2"
    using assms(2) by (simp_all add: net3_def net2_def shaped_sendp)
  have a3: "agrees par G (\<lambda>c i j k. on_edge par c i j k \<or> inner_i par c i \<and> inner_j par c j) net3"
  proof (rule agreesI)
    fix x y z i j k
    assume c: "x < ndx0 par" "y < ndy0 par" "z < ndz0 par" and p: "block_point par (x, y, z) i j k"
      and q: "on_edge par (x, y, z) i j k \<or> inner_i par (x, y, z) i \<and> inner_j par (x, y, z) j"
    then have m: "(x, y, z) \<in> set (coords par)" by (simp add: set_coords)
    note mv = moved_k [OF assms(1) m p assms(3) q]
    show "press (net3 (x, y, z)) i j k = at_place par G (x, y, z) i j k"
    proof (cases "1 < ndz0 par \<and> ijvec par (net (x, y, z)) i j")
      case True
      then show ?thesis using mv by (simp add: net3_def press_sendp3 [OF assms(2)])
    next
      case False
      then have "press (net3 (x, y, z)) i j k = press (net (x, y, z)) i j k"
        by (auto simp: net3_def press_sendp3 [OF assms(2)])
      moreover have "\<not> 1 < ndz0 par \<or> on_edge par (x, y, z) i j k"
        using False q ijvec_inner [OF assms(1) _ assms(2) m] by blast
      ultimately show ?thesis using mv c(3) agreesD [OF assms(3) m p] by (auto simp: source_single)
    qed
  qed
  have a2: "agrees par G (\<lambda>c i j k. on_edge par c i j k \<or> inner_i par c i) net2"
  proof (rule agreesI)
    fix x y z i j k
    assume c: "x < ndx0 par" "y < ndy0 par" "z < ndz0 par" and p: "block_point par (x, y, z) i j k"
      and q: "on_edge par (x, y, z) i j k \<or> inner_i par (x, y, z) i"
    have m: "(x, y, z) \<in> set (coords par)" using c by (simp add: set_coords)
    show "press (net2 (x, y, z)) i j k = at_place par G (x, y, z) i j k"
      using moved_j [OF assms(1) m p a3 q] source_single [OF _ c(2)]
      by (cases "1 < ndy0 par") (simp_all add: net2_def press_sendp2 [OF s3 p])
  qed
  have f: "sendp par net = (if 1 < ndx0 par then sendp1 par net2 else net2)"
    by (simp add: sendp_def net2_def net3_def Let_def)
  show ?thesis
  proof (rule agreesI)
    fix x y z i j k
    assume c: "x < ndx0 par" "y < ndy0 par" "z < ndz0 par" and p: "block_point par (x, y, z) i j k"
    have m: "(x, y, z) \<in> set (coords par)" using c by (simp add: set_coords)
    show "press (sendp par net (x, y, z)) i j k = at_place par G (x, y, z) i j k"
      using moved_i [OF assms(1) m p a2] source_single [OF _ c(1)]
      by (cases "1 < ndx0 par") (simp_all add: f press_sendp1 [OF s2 p])
  qed
qed

interpretation plain: halo_exchange sendp well_cut
proof unfold_locales
  fix par :: params and net :: net
  assume "shaped par net"
  then show "shaped par (sendp par net)" by (simp add: sendp_def Let_def shaped_sendp)
next
  show "well_cut par \<Longrightarrow> int (ndx0 par) < mx0 par \<and> int (ndy0 par) < my0 par \<and> int (ndz0 par) < mz0 par" for par
    by (simp add: well_cut_def)
  show "ndx0 par = 1 \<Longrightarrow> ndy0 par = 1 \<Longrightarrow> ndz0 par = 1 \<Longrightarrow> sendp par net = net" for par net
    by (simp add: sendp_def Let_def)
qed (rule sendp_fills)

section \<open>A sweep of the blocks is a sweep of the grid\<close>

text \<open>A step by at most one in a direction.\<close>

definition near_step :: "int \<Rightarrow> bool" where
  "near_step d \<longleftrightarrow> - 1 \<le> d \<and> d \<le> 1"

lemma ss_cong:
  assumes p: "\<And>di dj dk. near_step di \<Longrightarrow> near_step dj \<Longrightarrow> near_step dk \<Longrightarrow>
      press st (i + di) (j + dj) (k + dk) = press st' (i' + di) (j' + dj) (k' + dk)"
    and "\<And>m. m < 4 \<Longrightarrow> coef_a st m i j k = coef_a st' m i' j' k'"
    and "\<And>m. coef_b st m i j k = coef_b st' m i' j' k'" and "\<And>m. coef_c st m i j k = coef_c st' m i' j' k'"
    and "bnd st i j k = bnd st' i' j' k'" and "wrk1 st i j k = wrk1 st' i' j' k'"
  shows "ss_of st i j k = ss_of st' i' j' k'"
  using assms(2-6) p [of 0 0 0] p [of 1 0 0] p [of 0 1 0] p [of 0 0 1] p [of "- 1" 0 0] p [of 0 "- 1" 0] p [of 0 0 "- 1"]
    p [of 1 1 0] p [of 1 "- 1" 0] p [of "- 1" 1 0] p [of "- 1" "- 1" 0]
    p [of 0 1 1] p [of 0 "- 1" 1] p [of 0 1 "- 1"] p [of 0 "- 1" "- 1"]
    p [of 1 0 1] p [of "- 1" 0 1] p [of 1 0 "- 1"] p [of "- 1" 0 "- 1"]
  by (simp add: ss_of_def s0_of_def near_step_def Let_def)

lemma shaped_fields:
  assumes "shaped par net" and "block_point par (x, y, z) i j k"
  shows "coef_a (net (x, y, z)) m i j k = (if m < 3 then fint 1 else one_sixth)"
    and "coef_b (net (x, y, z)) m i j k = 0" and "coef_c (net (x, y, z)) m i j k = fint 1"
    and "bnd (net (x, y, z)) i j k = fint 1" and "wrk1 (net (x, y, z)) i j k = 0"
proof -
  obtain w p where n: "net (x, y, z) = (initmt par (x, y, z))\<lparr>wrk2 := w, press := p\<rparr>"
    using assms unfolding shaped_def by blast
  show "coef_a (net (x, y, z)) m i j k = (if m < 3 then fint 1 else one_sixth)"
    "coef_b (net (x, y, z)) m i j k = 0" "coef_c (net (x, y, z)) m i j k = fint 1"
    "bnd (net (x, y, z)) i j k = fint 1" "wrk1 (net (x, y, z)) i j k = 0"
    using assms(2) unfolding n by (simp_all add: initmt_def initmax_def block_values_def block_point_def)
qed

lemma shaped_sweep:
  assumes "shaped par net"
  shows "shaped par (\<lambda>c. sweep (net c))"
  unfolding shaped_def
proof
  fix c
  obtain w p where "net c = (initmt par c)\<lparr>wrk2 := w, press := p\<rparr>" using assms unfolding shaped_def by blast
  then have "sweep (net c) = (initmt par c)\<lparr>wrk2 := wrk2 (sweep (net c)), press := press (sweep (net c))\<rparr>"
    by (simp add: sweep_def)
  then show "\<exists>w p. sweep (net c) = (initmt par c)\<lparr>wrk2 := w, press := p\<rparr>" by blast
qed

lemma block_width_one [simp]: "block_width m (Suc 0) 0 = m"
  using block_start_last [of 1 m] by (simp add: block_width_def)

lemma one_block_point:
  "block_point (one_block par) (0, 0, 0) i j k \<longleftrightarrow>
     0 \<le> i \<and> i < mx0 par - 1 \<and> 0 \<le> j \<and> j < my0 par - 1 \<and> 0 \<le> k \<and> k < mz0 par - 1"
  by (simp add: block_point_iff one_block_def)

lemma interior_shaped:
  "shaped par net \<Longrightarrow> interior (net (x, y, z)) i j k \<longleftrightarrow>
     inner_i par (x, y, z) i \<and> inner_j par (x, y, z) j \<and> inner_k par (x, y, z) k"
  by (auto simp: interior_def shaped_sizes inner_i_def inner_j_def inner_k_def inner_def)

lemma interior_one:
  assumes "shaped (one_block par) net"
  shows "interior (net (0, 0, 0)) i j k \<longleftrightarrow>
    1 \<le> i \<and> i < mx0 par - 2 \<and> 1 \<le> j \<and> j < my0 par - 2 \<and> 1 \<le> k \<and> k < mz0 par - 2"
  by (auto simp: interior_def shaped_sizes [OF assms] one_block_def)

lemma sweep_agrees:
  assumes cut: "int (ndx0 par) < mx0 par \<and> int (ndy0 par) < my0 par \<and> int (ndz0 par) < mz0 par"
    and sh: "shaped par net" and sh1: "shaped (one_block par) net1"
    and ag: "agrees par (press (net1 (0, 0, 0))) (\<lambda>c i j k. True) net"
  shows "agrees par (press (sweep (net1 (0, 0, 0))))
    (\<lambda>c i j k. on_edge par c i j k \<or> inner_i par c i \<and> inner_j par c j \<and> inner_k par c k) (\<lambda>c. sweep (net c))"
proof (rule agreesI)
  fix x y z :: nat and i j k :: int
  let ?c = "(x, y, z)" and ?st1 = "net1 (0, 0, 0)"
  let ?i = "block_offset (mx0 par - 1) (ndx0 par) x + i" and ?j = "block_offset (my0 par - 1) (ndy0 par) y + j"
    and ?k = "block_offset (mz0 par - 1) (ndz0 par) z + k"
  assume c: "x < ndx0 par" "y < ndy0 par" "z < ndz0 par" and p: "block_point par ?c i j k"
    and q: "on_edge par ?c i j k \<or> inner_i par ?c i \<and> inner_j par ?c j \<and> inner_k par ?c k"
  have m: "?c \<in> set (coords par)" using c by (simp add: set_coords)
  note all = agreesD [OF ag m, unfolded at_place_def prod.case]
  have "press (sweep (net ?c)) i j k = press (sweep ?st1) ?i ?j ?k"
  proof (cases "inner_i par ?c i \<and> inner_j par ?c j \<and> inner_k par ?c k")
    case True
    have g: "1 \<le> ?i" "?i < mx0 par - 2" "1 \<le> ?j" "?j < my0 par - 2" "1 \<le> ?k" "?k < mz0 par - 2"
      using inner_inside [OF c(1), of "mx0 par - 1" i] inner_inside [OF c(2), of "my0 par - 1" j]
        inner_inside [OF c(3), of "mz0 par - 1" k] True cut by (simp_all add: inner_i_def inner_j_def inner_k_def)
    have gp: "block_point (one_block par) (0, 0, 0) ?i ?j ?k" using g by (simp add: one_block_point)
    have "block_point par ?c (i + di) (j + dj) (k + dk)" if "near_step di" "near_step dj" "near_step dk" for di dj dk
      using True that by (auto simp: block_point_iff near_step_def inner_i_def inner_j_def inner_k_def inner_def)
    then have "ss_of (net ?c) i j k = ss_of ?st1 ?i ?j ?k"
      by (intro ss_cong) (simp_all add: all add.assoc shaped_fields [OF sh p] shaped_fields [OF sh1 gp])
    then show ?thesis using True g all [OF p]
      by (simp add: sweep_def relaxed_def interior_shaped [OF sh] interior_one [OF sh1])
  next
    case False
    then have "\<not> interior ?st1 ?i ?j ?k"
      using q by (auto simp: on_edge_def edge_def interior_one [OF sh1])
    then show ?thesis using False all [OF p]
      by (auto simp: sweep_def interior_shaped [OF sh])
  qed
  then show "press (sweep (net ?c)) i j k = at_place par (press (sweep ?st1)) ?c i j k" by (simp add: at_place_def)
qed

section \<open>Rounds\<close>

context halo_exchange
begin

lemma one_round:
  assumes "suits par" and "shaped par net" and "shaped (one_block par) net1"
    and "agrees par (press (net1 (0, 0, 0))) (\<lambda>c i j k. True) net"
    and "jacobi_round exchange par reduce (net, g) = (net', g')"
    and "jacobi_round exchange (one_block par) reduce1 (net1, g1) = (net1', g1')"
  shows "shaped par net' \<and> shaped (one_block par) net1' \<and> agrees par (press (net1' (0, 0, 0))) (\<lambda>c i j k. True) net'"
proof -
  have n: "net' = exchange par (\<lambda>c. sweep (net c))" "net1' = (\<lambda>c. sweep (net1 c))"
    using assms(5,6) alone [of "one_block par"] by (auto simp: jacobi_round_def one_block_def)
  note sh = shaped_sweep [OF assms(2)] and sh1 = shaped_sweep [OF assms(3)]
  show ?thesis
    using fills [OF assms(1) sh sweep_agrees [OF cut [OF assms(1)] assms(2,3,4)]] keeps [OF sh] sh1
    by (simp add: n)
qed

lemma rounds:
  assumes "suits par" and "shaped par net" and "shaped (one_block par) net1"
    and "agrees par (press (net1 (0, 0, 0))) (\<lambda>c i j k. True) net"
    and "(jacobi_round exchange par reduce ^^ n) (net, g) = (net', g')"
    and "(jacobi_round exchange (one_block par) reduce1 ^^ n) (net1, g1) = (net1', g1')"
  shows "shaped par net' \<and> shaped (one_block par) net1' \<and> agrees par (press (net1' (0, 0, 0))) (\<lambda>c i j k. True) net'"
  using assms(5,6)
proof (induction n arbitrary: net' g' net1' g1')
  case 0
  then show ?case using assms(2-4) by simp
next
  case (Suc n)
  obtain net2 g2 where r: "(jacobi_round exchange par reduce ^^ n) (net, g) = (net2, g2)" by force
  obtain net3 g3 where r1: "(jacobi_round exchange (one_block par) reduce1 ^^ n) (net1, g1) = (net3, g3)" by force
  have ih: "shaped par net2" "shaped (one_block par) net3" "agrees par (press (net3 (0, 0, 0))) (\<lambda>c i j k. True) net2"
    using Suc.IH [OF r r1] by simp_all
  have "jacobi_round exchange par reduce (net2, g2) = (net', g')"
    "jacobi_round exchange (one_block par) reduce1 (net3, g3) = (net1', g1')"
    using Suc.prems by (simp_all add: r r1)
  from one_round [OF assms(1) ih this] show ?case .
qed

end

section \<open>The program\<close>

lemma shaped_initmt: "shaped par (initmt par)"
  unfolding shaped_def
proof
  fix c
  have "initmt par c = (initmt par c)\<lparr>wrk2 := wrk2 (initmt par c), press := press (initmt par c)\<rparr>" by simp
  then show "\<exists>w p. initmt par c = (initmt par c)\<lparr>wrk2 := w, press := p\<rparr>" by blast
qed

lemma initmt_agrees:
  assumes "well_cut par"
  shows "agrees par (press (initmt (one_block par) (0, 0, 0))) (\<lambda>c i j k. True) (initmt par)"
proof (rule agreesI)
  fix x y z :: nat and i j k :: int
  let ?i = "block_offset (mx0 par - 1) (ndx0 par) x + i" and ?j = "block_offset (my0 par - 1) (ndy0 par) y + j"
    and ?k = "block_offset (mz0 par - 1) (ndz0 par) z + k"
  assume c: "x < ndx0 par" "y < ndy0 par" "z < ndz0 par" and p: "block_point par (x, y, z) i j k"
  have inside: "0 \<le> block_offset m nd e + a \<and> block_offset m nd e + a < m"
    if "e < nd" "int nd \<le> m" "0 \<le> a" "a < block_width m nd e" for m nd e a
  proof -
    obtain e' a' where src: "source m nd e a = (e', a')" by force
    from source_place [OF that src] inner_inside [of e' nd m a'] that(1,2)
    show ?thesis by (auto simp: edge_def)
  qed
  have "block_point (one_block par) (0, 0, 0) ?i ?j ?k"
    using assms c p [unfolded block_point_iff] by (simp add: well_cut_def one_block_point inside)
  then show "press (initmt par (x, y, z)) i j k = at_place par (press (initmt (one_block par) (0, 0, 0))) (x, y, z) i j k"
    using p by (simp add: initmt_def at_place_def block_point_def initmax_def block_values_def first_pressure_def
      one_block_def block_offset_def [of _ "Suc 0"] add.commute)
qed

lemma init_net_cut: "well_cut par \<Longrightarrow> init_net par = Inr (initmt par)"
  by (simp add: init_net_def well_cut_def)

lemma init_net_one: "init_net (one_block par) = Inr (initmt (one_block par))"
  by (simp add: init_net_def coords_def fits_def initmax_def one_block_def)

lemma jacobi_sets: "0 < nn \<Longrightarrow> \<exists>net' gosa. jacobi exchange par reduce nn net = (net', Inr gosa)"
  by (cases nn) (auto simp: jacobi_def jacobi_round_def split_beta)

text \<open>C25: Cut into blocks in any way in which the arrays have room and \<open>ijvec\<close> reaches every inner pair,
  the benchmark ends with the values of the run on one block: after the three rounds of the
  rehearsal and any number of measured ones every point of every block, those of its neighbours
  included, is the same float as the point of the whole grid at its place.\<close>

theorem himeno_blocks_agree:
  assumes "well_cut par" and "npe = ndx0 par * ndy0 par * ndz0 par" and "0 < nn"
  shows "\<exists>net gosa net1 gosa1. himeno par npe reduce nn = Inr (Some (net, gosa)) \<and>
    himeno (one_block par) 1 reduce1 nn = Inr (Some (net1, gosa1)) \<and>
    (\<forall>x < ndx0 par. \<forall>y < ndy0 par. \<forall>z < ndz0 par. \<forall>i j k.
      block_point par (x, y, z) i j k \<longrightarrow>
      press (net (x, y, z)) i j k = press (net1 (0, 0, 0))
        (block_offset (mx0 par - 1) (ndx0 par) x + i) (block_offset (my0 par - 1) (ndy0 par) y + j)
        (block_offset (mz0 par - 1) (ndz0 par) z + k))"
proof -
  let ?one = "one_block par"
  obtain net3 g3 where r3: "jacobi sendp par reduce 3 (initmt par) = (net3, g3)" by force
  obtain one3 o3 where o3: "jacobi sendp ?one reduce1 3 (initmt ?one) = (one3, o3)" by force
  obtain net gosa where r: "jacobi sendp par reduce nn net3 = (net, Inr gosa)" using jacobi_sets [OF assms(3)] by blast
  obtain net1 gosa1 where o: "jacobi sendp ?one reduce1 nn one3 = (net1, Inr gosa1)" using jacobi_sets [OF assms(3)] by blast
  have "shaped par net3 \<and> shaped ?one one3 \<and> agrees par (press (one3 (0, 0, 0))) (\<lambda>c i j k. True) net3"
    by (rule plain.rounds [OF assms(1) shaped_initmt shaped_initmt initmt_agrees [OF assms(1)]
        r3 [unfolded jacobi_def] o3 [unfolded jacobi_def]])
  then have "shaped par net \<and> agrees par (press (net1 (0, 0, 0))) (\<lambda>c i j k. True) net"
    using plain.rounds [OF assms(1) _ _ _ r [unfolded jacobi_def] o [unfolded jacobi_def]] by blast
  moreover have "himeno par npe reduce nn = Inr (Some (net, gosa))"
    using assms(2) by (simp add: himeno_def init_net_cut [OF assms(1)] r3 r)
  moreover have "himeno ?one 1 reduce1 nn = Inr (Some (net1, gosa1))"
    unfolding himeno_def init_net_one res_bind.simps o3 fst_conv o by (simp add: one_block_def)
  ultimately show ?thesis
    by (auto simp: agrees_def set_coords at_place_def intro!: exI [of _ net] exI [of _ net1])
qed

text \<open>The parameters the repository ships are such a cut.\<close>

lemma shipped_well_cut: "well_cut shipped"
  by code_simp

theorem himeno_blocks_agree_witness:
  "\<exists>net gosa net1 gosa1. himeno shipped 2 hd 12 = Inr (Some (net, gosa)) \<and>
    himeno (one_block shipped) 1 hd 12 = Inr (Some (net1, gosa1)) \<and>
    press (net (0, 0, 1)) 5 6 0 = press (net1 (0, 0, 0)) 5 6 127"
proof -
  have n: "2 = ndx0 shipped * ndy0 shipped * ndz0 shipped" "(0 :: nat) < 12" by (simp_all add: shipped_def)
  have b: "ndx0 shipped = 1" "ndy0 shipped = 1" "ndz0 shipped = 2" by (simp_all add: shipped_def)
  have p: "block_point shipped (0, 0, 1) 5 6 0" and o: "block_offset (mx0 shipped - 1) 1 0 = 0"
    "block_offset (my0 shipped - 1) 1 0 = 0" "block_offset (mz0 shipped - 1) 2 1 = 127" by code_simp+
  from himeno_blocks_agree [OF shipped_well_cut n, of hd hd] obtain net gosa net1 gosa1 where
    r: "himeno shipped 2 hd 12 = Inr (Some (net, gosa))" "himeno (one_block shipped) 1 hd 12 = Inr (Some (net1, gosa1))"
    and "\<forall>x < ndx0 shipped. \<forall>y < ndy0 shipped. \<forall>z < ndz0 shipped. \<forall>i j k. block_point shipped (x, y, z) i j k \<longrightarrow>
      press (net (x, y, z)) i j k = press (net1 (0, 0, 0)) (block_offset (mx0 shipped - 1) (ndx0 shipped) x + i)
        (block_offset (my0 shipped - 1) (ndy0 shipped) y + j) (block_offset (mz0 shipped - 1) (ndz0 shipped) z + k)"
    by blast
  from this(3) [rule_format, of 0 0 1 5 6 0] p
  have "press (net (0, 0, 1)) 5 6 0 = press (net1 (0, 0, 0)) 5 6 127" by (simp only: b o) simp
  with r show ?thesis by blast
qed

section \<open>Cuts that are not reached\<close>

lemma paramset_well_cut:
  assumes "0 < ndx" and "0 < ndy" and "0 < ndz"
    and "int ndx < fst (grid_sizes g)" and "int ndy < fst (snd (grid_sizes g))" and "int ndz < snd (snd (grid_sizes g))"
    and "ndy = 1 \<or> ndz = 1"
  shows "well_cut (paramset g ndx ndy ndz)"
proof -
  let ?par = "paramset g ndx ndy ndz"
  obtain m mz where g: "grid_sizes g = (m, m, mz)" by (cases g) auto
  have le: "block_width (m - 1) ndx x \<le> m" if "x < ndx" for x
  proof -
    have "m div int ndx \<le> m div 2" if "2 \<le> ndx" using that assms(4) g by (intro zdiv_mono2) simp_all
    moreover have "m div 2 + 3 \<le> m" by (cases g) (use g in auto)
    ultimately show ?thesis
      using array_size_suffices [OF that, of m] assms(1,4) g by (cases "ndx = 1") (auto simp: array_size_def)
  qed
  have "list_all (covered ?par) (coords ?par)" if "ndz \<noteq> 1"
    using assms(7) that g
    by (auto simp: list_all_iff coords_def covered_def initmax_def paramset_def array_size_def algebra_simps
      intro: order.strict_trans1 [OF le])
  moreover have "list_all (fits ?par) (coords ?par)"
    using paramset_fits [of g ndx ndy ndz] by (simp add: init_net_def split: if_splits)
  ultimately show ?thesis using assms g by (auto simp: well_cut_def paramset_def)
qed

text \<open>The smallest grid, with two blocks in the second and in the third direction.\<close>

definition gap_cut :: params where
  "gap_cut = paramset Ssmall 1 2 2"

text \<open>Other cuts in both directions are reached.\<close>

lemma reached_cut: "well_cut (paramset Ssmall 4 2 2)"
  by code_simp

text \<open>What the neighbours in the third direction own of a block.\<close>

definition foreign_layer :: "params \<Rightarrow> coord \<Rightarrow> int \<Rightarrow> bool" where
  "foreign_layer par c k \<longleftrightarrow>
     (case c of (x, y, z) \<Rightarrow> k = kmax (initmt par c) - 1 \<and> z + 1 < ndz0 par \<or> k = 0 \<and> 0 < z)"

text \<open>A round leaves the points of such a layer whose pair \<open>[i][j]\<close> is inner and \<open>ijvec\<close> does not reach.\<close>

lemma unreached_round:
  assumes "shaped par net" and "foreign_layer par (x, y, z) k" and "\<not> ijvec par (initmt par (x, y, z)) i j"
    and "1 \<le> i" and "i < imax (initmt par (x, y, z)) - 1" and "1 \<le> j" and "j < jmax (initmt par (x, y, z)) - 1"
  shows "press (fst (jacobi_round sendp par reduce (net, g)) (x, y, z)) i j k = press (net (x, y, z)) i j k"
proof -
  let ?c = "(x, y, z)" and ?net = "\<lambda>c. sweep (net c)"
  have sizes: "imax (n ?c) = imax (initmt par ?c)" "jmax (n ?c) = jmax (initmt par ?c)"
    "kmax (n ?c) = kmax (initmt par ?c)" if "shaped par n" for n
    using shaped_sizes [OF that] shaped_sizes [OF shaped_initmt] by simp_all
  note sh = shaped_sweep [OF assms(1)]
  have "press (?net ?c) i j k = press (net ?c) i j k"
    using assms(2) by (auto simp: sweep_def interior_def foreign_layer_def sizes [OF assms(1)])
  moreover have "\<not> ijvec par (?net ?c) i j"
    using assms(3) by (simp add: ijvec_def sizes [OF sh])
  then have "press (sendp3 par ?net ?c) i j k = press (?net ?c) i j k"
    by (simp add: press_sendp3 [OF sh])
  moreover have "press (sendp2 par n ?c) i j k = press (n ?c) i j k" if "shaped par n" for n
    using assms(6,7) by (simp add: sendp2_def Let_def sizes [OF that])
  moreover have "press (sendp1 par n ?c) i j k = press (n ?c) i j k" if "shaped par n" for n
    using assms(4,5) by (simp add: sendp1_def Let_def sizes [OF that])
  ultimately show ?thesis
    using shaped_sendp sh by (simp add: jacobi_round_def sendp_def Let_def)
qed

lemma unreached_rounds:
  assumes "shaped par net" and "foreign_layer par (x, y, z) k" and "\<not> ijvec par (initmt par (x, y, z)) i j"
    and "1 \<le> i" and "i < imax (initmt par (x, y, z)) - 1" and "1 \<le> j" and "j < jmax (initmt par (x, y, z)) - 1"
    and "(jacobi_round sendp par reduce ^^ m) (net, g) = (net', g')"
  shows "shaped par net' \<and> press (net' (x, y, z)) i j k = press (net (x, y, z)) i j k"
  using assms(8)
proof (induction m arbitrary: net' g')
  case (Suc m)
  obtain net2 g2 where r: "(jacobi_round sendp par reduce ^^ m) (net, g) = (net2, g2)" by force
  have n: "net' = fst (jacobi_round sendp par reduce (net2, g2))" using Suc.prems by (simp add: r)
  have s: "shaped par net2" using Suc.IH [OF r] by simp
  then have "shaped par net'" using plain.keeps [OF shaped_sweep] by (simp add: n jacobi_round_def)
  then show ?case
    using Suc.IH [OF r] unreached_round [OF s assms(2-7)] by (simp add: n)
qed (use assms(1) in simp)

text \<open>C30: A pair \<open>[i][j]\<close> of inner points that \<open>ijvec\<close> does not reach, since it counts \<open>imax*jmax\<close>
  pairs but steps through rows of \<open>MJMAX\<close>, is never exchanged: in the layer of its block that
  belongs to the neighbour in the third direction the point keeps its first pressure whatever the
  number of rounds, for every cut for whose blocks the arrays have room.  There are such cuts:
  with \<open>gap_cut\<close> it is so for \<open>p[30][1][32]\<close> of the first process, which the run on one block changes in
  the first round.\<close>

theorem ijvec_leaves_gap:
  assumes "init_net par = Inr (initmt par)" and "npe = ndx0 par * ndy0 par * ndz0 par" and "0 < nn"
    and "(x, y, z) \<in> set (coords par)" and "block_point par (x, y, z) i j k" and "foreign_layer par (x, y, z) k"
    and "\<not> ijvec par (initmt par (x, y, z)) i j"
    and "1 \<le> i" and "i < imax (initmt par (x, y, z)) - 1" and "1 \<le> j" and "j < jmax (initmt par (x, y, z)) - 1"
  shows "(\<exists>net gosa. himeno par npe reduce nn = Inr (Some (net, gosa)) \<and>
      press (net (x, y, z)) i j k =
        first_pressure (mx0 par - 1) (block_offset (mx0 par - 1) (ndx0 par) x) i) \<and>
    foreign_layer gap_cut (0, 0, 0) 32 \<and> \<not> ijvec gap_cut (initmt gap_cut (0, 0, 0)) 30 1 \<and>
    (let one = one_block gap_cut in
     press (fst (jacobi sendp one reduce1 1 (initmt one)) (0, 0, 0)) 30 1 32 \<noteq> first_pressure 32 0 30)"
proof (intro conjI)
  obtain net3 g3 where r3: "jacobi sendp par reduce 3 (initmt par) = (net3, g3)" by force
  obtain net gosa where r: "jacobi sendp par reduce nn net3 = (net, Inr gosa)"
    using jacobi_sets [OF assms(3)] by blast
  note stay = unreached_rounds [OF _ assms(6-11)]
  have "press (net (x, y, z)) i j k = press (initmt par (x, y, z)) i j k"
    using stay [OF shaped_initmt r3 [unfolded jacobi_def]] stay [OF _ r [unfolded jacobi_def]] by simp
  also have "\<dots> = first_pressure (mx0 par - 1) (block_offset (mx0 par - 1) (ndx0 par) x) i"
    using assms(5) by (simp add: initmt_def initmax_def block_values_def block_point_def)
  finally show "\<exists>net gosa. himeno par npe reduce nn = Inr (Some (net, gosa)) \<and> press (net (x, y, z)) i j k =
      first_pressure (mx0 par - 1) (block_offset (mx0 par - 1) (ndx0 par) x) i"
    using assms(1,2) by (auto simp: himeno_def r3 r)
next
  have "press (sweep (initmt (one_block gap_cut) (0, 0, 0))) 30 1 32 \<noteq> first_pressure 32 0 30" by code_simp
  moreover have "ndx0 (one_block gap_cut) = 1" "ndy0 (one_block gap_cut) = 1" "ndz0 (one_block gap_cut) = 1"
    by code_simp+
  ultimately show "let one = one_block gap_cut in
     press (fst (jacobi sendp one reduce1 1 (initmt one)) (0, 0, 0)) 30 1 32 \<noteq> first_pressure 32 0 30"
    by (simp add: jacobi_def jacobi_round_def plain.alone Let_def)
qed (code_simp, code_simp)

theorem ijvec_leaves_gap_witness:
  "\<exists>net gosa. himeno gap_cut 4 hd 12 = Inr (Some (net, gosa)) \<and>
    press (net (0, 0, 0)) 30 1 32 = first_pressure 32 0 30"
proof -
  have "4 = ndx0 gap_cut * ndy0 gap_cut * ndz0 gap_cut" "(0, 0, 0) \<in> set (coords gap_cut)"
    "block_point gap_cut (0, 0, 0) 30 1 32" "foreign_layer gap_cut (0, 0, 0) 32"
    "\<not> ijvec gap_cut (initmt gap_cut (0, 0, 0)) 30 1" "30 < imax (initmt gap_cut (0, 0, 0)) - 1"
    "1 < jmax (initmt gap_cut (0, 0, 0)) - 1" by code_simp+
  note h = this
  have "mx0 gap_cut - 1 = 32" "block_offset 32 (ndx0 gap_cut) 0 = 0" by code_simp+
  with ijvec_leaves_gap [OF paramset_fits [of Ssmall 1 2 2, folded gap_cut_def] h(1) _ h(2-5) _ h(6) _ h(7), of 12 hd hd]
  show ?thesis by simp
qed

text \<open>When the rehearsal takes more than three times the minute allowed, the measured loop has no
  round, and the \<open>gosa\<close> that is printed is never set.\<close>

lemma no_round_no_gosa:
  "well_cut par \<Longrightarrow> himeno par (ndx0 par * ndy0 par * ndz0 par) reduce 0 = Inl Uninitialised"
  by (simp add: himeno_def init_net_cut jacobi_def)

end
