(* ===== verification/HimenoComp.thy ===== *)
theory HimenoComp
  imports HimenoRuns Dataset MaskCodec
begin

text \<open>
  The Himeno benchmark with compressed exchanges, \<open>app/src/himeno/himenoBMTxps_comp.c\<close>: its sweeps
  and blocks are those of \<open>himenoBMTxps.c\<close>, and the number \<open>CT\<close> on the command line chooses how the
  layers are sent.  \<open>dataCompression.c\<close> has the sizes of the arrays from another copy of \<open>param.h\<close>, in
  \<open>app/include\<close>; the model is that of a program for which the two copies agree, as they do in the repository.  For \<open>CT = 4\<close> the program sz, which is not part of the
  repository, is a parameter.
\<close>

section \<open>The code\<close>

record sz_program =
  sz_comp :: "32 word list \<Rightarrow> byte list"
  sz_decomp :: "byte list \<Rightarrow> nat \<Rightarrow> 32 word"

text \<open>A process; \<open>cr\<close> and \<open>cr_num\<close> add up the ratios of what it sends.\<close>

record process =
  block :: stencil
  cr :: "32 word"
  cr_num :: nat

type_synonym cnet = "coord \<Rightarrow> process"

subsection \<open>A layer\<close>

text \<open>What is sent for a layer, in one or more messages: the bytes with the least number, the mean and
  the prefix length; the bytes with the least number; what sz makes; the arrays of \<open>myCompress\<close>.\<close>

datatype face =
  Masked "byte list" "32 word" "32 word" nat | Bits "byte list" "32 word" | Szed "byte list" | Chars "32 word packed"

definition bits_of :: "bitbuf \<Rightarrow> byte list" where
  "bits_of st = take (bytes st) (data_bits st)"

definition pack_face :: "sz_program \<Rightarrow> int \<Rightarrow> 32 word list \<Rightarrow> face result" where
  "pack_face ext CT data =
     (if CT = 7 then res_bind (toSmallDataset_float data) (\<lambda>(least, small).
        res_bind (med_dataset_float small 0) (\<lambda>(medium, type).
          Inr (Masked (bits_of (myCompress_bitwise_mask small type (take (1 + 8 + 8) (floattostr medium)) empty_bitbuf))
            least medium type)))
      else if CT = 6 then res_bind (toSmallDataset_float data) (\<lambda>(least, small).
        Inr (Bits (bits_of (myCompress_bitwise_np small empty_bitbuf)) least))
      else if CT = 5 then res_bind (toSmallDataset_float data) (\<lambda>(least, small).
        Inr (Bits (bits_of (myCompress_bitwise small empty_bitbuf)) least))
      else if CT = 4 then Inr (Szed (sz_comp ext data))
      else Inr (Chars (myCompress data)))"

text \<open>The layer 1 goes to the process below, the last but one to the process above.\<close>

definition thickness :: "nat \<Rightarrow> stencil \<Rightarrow> int" where
  "thickness d st = (if d = 1 then imax st else if d = 2 then jmax st else kmax st)"

definition plane_count :: "nat \<Rightarrow> stencil \<Rightarrow> nat" where
  "plane_count d st = nat (if d = 1 then jmax st * kmax st else if d = 2 then imax st * kmax st else imax st * jmax st)"

definition send_face :: "sz_program \<Rightarrow> int \<Rightarrow> nat \<Rightarrow> stencil \<Rightarrow> int \<Rightarrow> face result" where
  "send_face ext CT d st v =
     res_bind (transform_3d_array_to_1d_array (press st) (int d) v (imax st) (jmax st) (kmax st)) (pack_face ext CT)"

definition above_low :: "32 word \<Rightarrow> nat \<Rightarrow> 32 word list \<Rightarrow> 32 word list result" where
  "above_low low num nums =
     (if length nums < num then Inl Uninitialised else Inr (map (\<lambda>x. fadd x low) (take num nums)))"

text \<open>
  Nothing arrives from \<open>MPI_PROC_NULL\<close>: the numbers of bytes and of values stay 0.  The decoders of bits then
  write no number, and \<open>data_min_recv\<close> is never set; \<open>myDecompress\<close> looks at places and characters that were
  never set.  All the numbers of the layer are read nevertheless.  With \<open>CT = 4\<close> sz gets an empty file.
\<close>

fun unpack_face :: "sz_program \<Rightarrow> int \<Rightarrow> nat \<Rightarrow> face option \<Rightarrow> 32 word list result" where
  "unpack_face ext CT num (Some (Masked packed low medium type)) =
     res_bind (myDecompress_bitwise_mask packed num type (take (1 + 8 + 8) (floattostr medium))) (above_low low num)"
| "unpack_face ext CT num (Some (Bits packed low)) =
     res_bind (if CT = 6 then myDecompress_bitwise_np packed num else myDecompress_bitwise packed num) (above_low low num)"
| "unpack_face ext CT num (Some (Szed packed)) = Inr (map (sz_decomp ext packed) [0..<num])"
| "unpack_face ext CT num (Some (Chars p)) =
     myDecompress (array_num p) (array_char p) (Some (array_char_displacement p)) num"
| "unpack_face ext CT num None =
     (if CT = 4 then Inr (map (sz_decomp ext []) [0..<num]) else if num = 0 then Inr [] else Inl Uninitialised)"

text \<open>The loops over the layer write the last one and then the first one.\<close>

definition layer_index :: "nat \<Rightarrow> stencil \<Rightarrow> int \<Rightarrow> int \<Rightarrow> int \<Rightarrow> nat" where
  "layer_index d st i j k =
     nat (if d = 1 then j * kmax st + k else if d = 2 then i * kmax st + k else i * jmax st + j)"

definition put_layers :: "nat \<Rightarrow> stencil \<Rightarrow> 32 word list \<Rightarrow> 32 word list \<Rightarrow> stencil" where
  "put_layers d st new0 new1 = st\<lparr>press := (\<lambda>i j k.
     let v = (if d = 1 then i else if d = 2 then j else k) in
     if \<not> in_range (imax st) (jmax st) (kmax st) i j k then press st i j k
     else if v = 0 then new1 ! layer_index d st i j k
     else if v = thickness d st - 1 then new0 ! layer_index d st i j k
     else press st i j k)\<rparr>"

definition add_face_ratio :: "nat \<Rightarrow> face \<Rightarrow> 32 word \<Rightarrow> 32 word" where
  "add_face_ratio num m c =
     fconv (fadd (fconv c :: 64 word)
       (case m of
          Chars p \<Rightarrow>
            fadd (fmul (fdiv (fint 8) (fint 32))
                   (fconv (fdiv (fint (int (num - length (array_num p)))) (fint (int num)) :: 32 word)))
              (fmul (fint 1) (fconv (fdiv (fint (int (length (array_num p)))) (fint (int num)) :: 32 word)))
        | Masked packed low medium type \<Rightarrow> fdiv (fmul (fint (int (length packed))) (fint 8)) (fint (int (num * 32)))
        | Bits packed low \<Rightarrow> fdiv (fmul (fint (int (length packed))) (fint 8)) (fint (int (num * 32)))
        | Szed packed \<Rightarrow> fdiv (fmul (fint (int (length packed))) (fint 8)) (fint (int (num * 32)))))"

subsection \<open>The exchange\<close>

text \<open>\<open>MPI_Cart_shift\<close>: the processes below and above; \<open>None\<close> is \<open>MPI_PROC_NULL\<close>.\<close>

definition cart_shift :: "params \<Rightarrow> nat \<Rightarrow> coord \<Rightarrow> coord option \<times> coord option" where
  "cart_shift par d = (\<lambda>(x, y, z).
     if d = 1 then (if 0 < x then Some (x - 1, y, z) else None, if x + 1 < ndx0 par then Some (x + 1, y, z) else None)
     else if d = 2 then (if 0 < y then Some (x, y - 1, z) else None, if y + 1 < ndy0 par then Some (x, y + 1, z) else None)
     else (if 0 < z then Some (x, y, z - 1) else None, if z + 1 < ndz0 par then Some (x, y, z + 1) else None))"

definition receive_face :: "(coord \<Rightarrow> face result) \<Rightarrow> coord option \<Rightarrow> face option result" where
  "receive_face face_of src = (case src of None \<Rightarrow> Inr None | Some c \<Rightarrow> res_bind (face_of c) (\<lambda>m. Inr (Some m)))"

definition process_exchange :: "sz_program \<Rightarrow> int \<Rightarrow> nat \<Rightarrow> params \<Rightarrow> cnet \<Rightarrow> coord \<Rightarrow> process result" where
  "process_exchange ext CT d par net c =
     (let st = block (net c); num = plane_count d st; (below, above) = cart_shift par d c in
      res_bind (send_face ext CT d st 1) (\<lambda>to_below. res_bind (send_face ext CT d st (thickness d st - 2)) (\<lambda>to_above.
      res_bind (receive_face (\<lambda>c. send_face ext CT d (block (net c)) 1) above) (\<lambda>from_above.
      res_bind (receive_face (\<lambda>c. send_face ext CT d (block (net c)) (thickness d (block (net c)) - 2)) below) (\<lambda>from_below.
      res_bind (unpack_face ext CT num from_above) (\<lambda>new0. res_bind (unpack_face ext CT num from_below) (\<lambda>new1.
        Inr ((net c)\<lparr>block := put_layers d st new0 new1,
          cr := add_face_ratio num to_above (add_face_ratio num to_below (cr (net c))), cr_num := cr_num (net c) + 2\<rparr>))))))))"

definition exchange_ct ::
  "(params \<Rightarrow> net \<Rightarrow> net) \<Rightarrow> nat \<Rightarrow> sz_program \<Rightarrow> int \<Rightarrow> params \<Rightarrow> cnet \<Rightarrow> cnet result" where
  "exchange_ct uncompressed d ext CT par net =
     (if CT \<in> {7, 6, 5, 4, 1} then
        res_fold (\<lambda>new c. res_bind (process_exchange ext CT d par net c) (\<lambda>p. Inr (new(c := p)))) net (coords par)
      else if CT = 0 then Inr (\<lambda>c. (net c)\<lparr>block := uncompressed par (\<lambda>c. block (net c)) c\<rparr>)
      else Inr net)"

definition sendp3_comp :: "sz_program \<Rightarrow> int \<Rightarrow> params \<Rightarrow> cnet \<Rightarrow> cnet result" where
  "sendp3_comp = exchange_ct sendp3 3"

definition sendp2_comp :: "sz_program \<Rightarrow> int \<Rightarrow> params \<Rightarrow> cnet \<Rightarrow> cnet result" where
  "sendp2_comp = exchange_ct sendp2 2"

definition sendp1_comp :: "sz_program \<Rightarrow> int \<Rightarrow> params \<Rightarrow> cnet \<Rightarrow> cnet result" where
  "sendp1_comp = exchange_ct sendp1 1"

definition sendp_comp :: "sz_program \<Rightarrow> int \<Rightarrow> params \<Rightarrow> cnet \<Rightarrow> cnet result" where
  "sendp_comp ext CT par net =
     res_bind (if 1 < ndz0 par then sendp3_comp ext CT par net else Inr net) (\<lambda>net.
     res_bind (if 1 < ndy0 par then sendp2_comp ext CT par net else Inr net) (\<lambda>net.
       if 1 < ndx0 par then sendp1_comp ext CT par net else Inr net))"

subsection \<open>The program\<close>

definition comp_round ::
  "sz_program \<Rightarrow> int \<Rightarrow> params \<Rightarrow> (32 word list \<Rightarrow> 32 word) \<Rightarrow> cnet \<times> 32 word result \<Rightarrow> (cnet \<times> 32 word result) result" where
  "comp_round ext CT par reduce s =
     res_bind (sendp_comp ext CT par (\<lambda>c. (fst s c)\<lparr>block := sweep (block (fst s c))\<rparr>)) (\<lambda>net.
       Inr (net, Inr (reduce (map (\<lambda>c. wgosa_of (block (fst s c))) (coords par)))))"

definition jacobi_comp ::
  "sz_program \<Rightarrow> int \<Rightarrow> params \<Rightarrow> (32 word list \<Rightarrow> 32 word) \<Rightarrow> nat \<Rightarrow> cnet \<Rightarrow> (cnet \<times> 32 word result) result" where
  "jacobi_comp ext CT par reduce nn net =
     ((\<lambda>r. res_bind r (comp_round ext CT par reduce)) ^^ nn) (Inr (net, Inl Uninitialised))"

text \<open>The measured loop has 12 rounds; process 0 prints the inverse of the mean ratio.\<close>

definition himeno_comp ::
  "sz_program \<Rightarrow> int \<Rightarrow> params \<Rightarrow> nat \<Rightarrow> (32 word list \<Rightarrow> 32 word) \<Rightarrow> (cnet \<times> 32 word \<times> 32 word) option result" where
  "himeno_comp ext CT par npe reduce =
     (if ndx0 par * ndy0 par * ndz0 par \<noteq> npe then Inr None
      else res_bind (init_net par) (\<lambda>net.
        res_bind (jacobi_comp ext CT par reduce 3 (\<lambda>c. \<lparr>block = net c, cr = 0, cr_num = 0\<rparr>)) (\<lambda>s.
        res_bind (jacobi_comp ext CT par reduce 12 (fst s)) (\<lambda>(net, gosa).
        res_bind gosa (\<lambda>gosa.
          Inr (Some (net, gosa, fdiv (fint 1) (fdiv (cr (net (0, 0, 0))) (fint (int (cr_num (net (0, 0, 0)))))))))))))"

section \<open>Without compression\<close>

text \<open>A net of processes that have sent nothing compressed.\<close>

definition fresh :: "net \<Rightarrow> cnet" where
  "fresh net = (\<lambda>c. \<lparr>block = net c, cr = 0, cr_num = 0\<rparr>)"

lemma sendp_comp_plain: "sendp_comp ext 0 par (fresh net) = Inr (fresh (sendp par net))"
  by (simp add: sendp_comp_def sendp3_comp_def sendp2_comp_def sendp1_comp_def exchange_ct_def fresh_def sendp_def Let_def)

lemma comp_round_plain:
  "comp_round ext 0 par reduce (fresh net, g) =
     Inr (case jacobi_round sendp par reduce (net, g) of (net', g') \<Rightarrow> (fresh net', g'))"
proof -
  have "(\<lambda>c. (fresh net c)\<lparr>block := sweep (block (fresh net c))\<rparr>) = fresh (\<lambda>c. sweep (net c))"
    by (simp add: fresh_def)
  then show ?thesis
    unfolding comp_round_def fst_conv by (simp add: sendp_comp_plain) (simp add: jacobi_round_def fresh_def)
qed

lemma jacobi_comp_plain:
  "jacobi_comp ext 0 par reduce nn (fresh net) =
     Inr (case jacobi sendp par reduce nn net of (net', g') \<Rightarrow> (fresh net', g'))"
proof (induction nn)
  case (Suc nn)
  then show ?case
    by (simp add: jacobi_comp_def jacobi_def comp_round_plain split_beta)
qed (simp add: jacobi_comp_def jacobi_def)

text \<open>C28: Without compression (\<open>CT = 0\<close>) the compressed benchmark computes in its twelve rounds what the
  plain one does, ends where that ends, and prints no number (NaN) as compression rate; for a
  \<open>CT\<close> that is none of the methods no process sends anything, whose layers keep their first values.\<close>

theorem himeno_comp_plain:
  "himeno_comp ext 0 par npe reduce =
     res_bind (himeno par npe reduce 12) (\<lambda>out. Inr (map_option (\<lambda>(net, gosa). (fresh net, gosa, qnan)) out)) \<and>
   (CT \<in> {0, 1, 4, 5, 6, 7} \<or> sendp_comp ext CT par cnet = Inr cnet)"
proof
  have nan: "fdiv (fint 1) (fdiv 0 (fint 0)) = (qnan :: 32 word)" by code_simp
  show "himeno_comp ext 0 par npe reduce =
     res_bind (himeno par npe reduce 12) (\<lambda>out. Inr (map_option (\<lambda>(net, gosa). (fresh net, gosa, qnan)) out))"
  proof (cases "ndx0 par * ndy0 par * ndz0 par = npe")
    case True
    show ?thesis
    proof (cases "init_net par")
      case (Inr net)
      obtain net3 g3 where r3: "jacobi sendp par reduce 3 net = (net3, g3)" by force
      obtain net12 g12 where r: "jacobi sendp par reduce 12 net3 = (net12, g12)" by force
      show ?thesis using True Inr
        by (cases g12) (simp_all add: himeno_comp_def himeno_def fresh_def [symmetric] jacobi_comp_plain r3 r,
          simp add: fresh_def nan)
    qed (simp add: himeno_comp_def himeno_def True)
  qed (simp add: himeno_comp_def himeno_def)
  show "CT \<in> {0, 1, 4, 5, 6, 7} \<or> sendp_comp ext CT par cnet = Inr cnet"
    by (simp add: sendp_comp_def sendp3_comp_def sendp2_comp_def sendp1_comp_def exchange_ct_def)
qed

section \<open>Processes without a neighbour\<close>

lemma res_fold_fails:
  assumes "x \<in> set xs" and "\<And>s. \<exists>e. f s x = Inl e"
  shows "\<exists>e. res_fold f s xs = Inl e"
  using assms(1)
proof (induction xs arbitrary: s)
  case (Cons y ys)
  then show ?case using assms(2) by (cases "f s y") (auto, metis sum.distinct(1))
qed simp

lemma unpack_nothing: "CT \<noteq> 4 \<Longrightarrow> 0 < num \<Longrightarrow> unpack_face ext CT num None = Inl Uninitialised"
  by simp

text \<open>The process at the lower end, if what it sends and what its neighbour sends can be compressed, and what it
  receives decompressed.\<close>

lemma end_reads_uninitialised:
  assumes "CT \<noteq> 4" and "0 < plane_count d (block (net c))" and "cart_shift par d c = (None, hi)"
    and "send_face ext CT d (block (net c)) 1 = Inr m0"
    and "send_face ext CT d (block (net c)) (thickness d (block (net c)) - 2) = Inr m1"
    and "receive_face (\<lambda>c. send_face ext CT d (block (net c)) 1) hi = Inr m"
    and "unpack_face ext CT (plane_count d (block (net c))) m = Inr new0"
  shows "process_exchange ext CT d par net c = Inl Uninitialised"
  using assms by (simp add: process_exchange_def receive_face_def Let_def)

lemma end_process_fails:
  assumes "CT \<noteq> 4" and "0 < plane_count d (block (net c))" and "fst (cart_shift par d c) = None"
  shows "\<exists>e. process_exchange ext CT d par net c = Inl e"
proof -
  obtain hi where "cart_shift par d c = (None, hi)" using assms(3) by (cases "cart_shift par d c") simp
  then show ?thesis using assms(1,2)
    by (auto simp: process_exchange_def receive_face_def Let_def res_bind_case split: sum.split option.split)
qed

lemma first_fails:
  assumes "CT \<in> {1, 5, 6, 7}" and "c \<in> set (coords par)" and "0 < plane_count d (block (net c))"
    and "fst (cart_shift par d c) = None"
  shows "\<exists>e. exchange_ct uncompressed d ext CT par net = Inl e"
proof -
  have "\<exists>e. res_bind (process_exchange ext CT d par net c) (\<lambda>p. Inr (new(c := p))) = Inl e" for new
    using end_process_fails [of CT d net c par ext] assms by auto
  then have "\<exists>e. res_fold (\<lambda>new c. res_bind (process_exchange ext CT d par net c) (\<lambda>p. Inr (new(c := p))))
      net (coords par) = Inl e"
    by (rule res_fold_fails [OF assms(2)])
  then show ?thesis using assms(1) by (auto simp: exchange_ct_def)
qed

text \<open>C27: Compressed with any method of the repository (\<open>CT\<close> 1, 5, 6 and 7) the benchmark never ends without a fault on
  more than one process: the processes at the ends of the grid, which have one neighbour only, receive
  nothing from \<open>MPI_PROC_NULL\<close> and yet decompress what was never set into the outermost layer,
  whose values must not change.\<close>

theorem compressed_run_undefined:
  assumes "CT \<in> {1, 5, 6, 7}" and "npe = ndx0 par * ndy0 par * ndz0 par" and "1 < npe"
    and "int (ndx0 par) < mx0 par" and "int (ndy0 par) < my0 par" and "int (ndz0 par) < mz0 par"
  shows "\<exists>fault. himeno_comp ext CT par npe reduce = Inl fault"
proof (cases "init_net par")
  case (Inr net)
  then have net: "net = initmt par" by (simp add: init_net_def split: if_splits)
  define swept where "swept = (\<lambda>c. (\<lparr>block = sweep (net c), cr = 0, cr_num = 0\<rparr> :: process))"
  have nd: "0 < ndx0 par" "0 < ndy0 par" "0 < ndz0 par" using assms(2,3) by (auto intro: gr0I)
  have size: "0 < block_width m k 0" if "0 < k" "int k < m + 1" for m k
    using block_nonempty [OF that(1), of m 0] that by (simp add: block_width_def)
  have "shaped par (\<lambda>c. sweep (net c))" unfolding net by (rule shaped_sweep [OF shaped_initmt])
  then have pc: "0 < plane_count d (block (swept (0, 0, 0)))" for d
    using shaped_sizes [of par "\<lambda>c. sweep (net c)" 0 0 0] nd assms(4-6) size
    by (simp add: plane_count_def swept_def)
  have c: "(0, 0, 0) \<in> set (coords par)" using nd by (simp add: set_coords)
  have e: "\<exists>e. exchange_ct uncompressed d ext CT par swept = Inl e" for uncompressed d
    using pc [of d] by (intro first_fails [OF assms(1) c, where net = swept]) (simp_all add: cart_shift_def)
  have "1 < ndx0 par \<or> 1 < ndy0 par \<or> 1 < ndz0 par" using assms(2,3) nd
    by (metis less_one linorder_neqE_nat mult.right_neutral not_less_iff_gr_or_eq)
  then have "\<exists>e. sendp_comp ext CT par swept = Inl e"
    using e [of sendp3 3] e [of sendp2 2] e [of sendp1 1]
    by (auto simp: sendp_comp_def sendp3_comp_def sendp2_comp_def sendp1_comp_def)
  then obtain fault where f: "sendp_comp ext CT par swept = Inl fault" ..
  have "comp_round ext CT par reduce (\<lambda>c. \<lparr>block = net c, cr = 0, cr_num = 0\<rparr>, g) = Inl fault" for g
    using f by (simp add: comp_round_def swept_def)
  then have "jacobi_comp ext CT par reduce 3 (\<lambda>c. \<lparr>block = net c, cr = 0, cr_num = 0\<rparr>) = Inl fault"
    by (simp add: jacobi_comp_def eval_nat_numeral)
  then show ?thesis using assms(2) Inr by (simp add: himeno_comp_def)
qed (use assms(2) in \<open>simp add: himeno_comp_def\<close>)

theorem compressed_run_undefined_witness:
  "\<exists>fault. himeno_comp \<lparr>sz_comp = (\<lambda>data. []), sz_decomp = (\<lambda>packed i. 0)\<rparr> 6 shipped 2 hd = Inl fault"
  by (rule compressed_run_undefined) (simp_all add: shipped_def)

section \<open>Processes with two neighbours\<close>

text \<open>What the exchange needs of a codec of floats: on numbers without a sign bit that meet \<open>complete\<close> the
  decoder gives as many numbers, within \<open>near\<close>.\<close>

locale face_codec =
  fixes compress :: "32 word list \<Rightarrow> bitbuf \<Rightarrow> bitbuf"
    and decompress :: "byte list \<Rightarrow> nat \<Rightarrow> 32 word list result"
    and complete :: "32 word list \<Rightarrow> bool"
    and near :: "32 word list \<Rightarrow> 32 word list \<Rightarrow> bool"
  assumes buffer_ok: "bitbuf_ok (compress small empty_bitbuf)"
    and decompressed: "\<forall>x \<in> set small. \<not> fsign x \<Longrightarrow> complete small \<Longrightarrow>
      \<exists>out. decompress (data_bits (compress small empty_bitbuf)) (length small) = Inr out \<and>
        length out = length small \<and> near small out"
begin

lemma delivered:
  assumes "toSmallDataset_float data = Inr (low, small)"
    and "\<forall>x \<in> set data. is_fin x \<and> \<not> (fsign x \<and> is_zero x)" and "complete small"
  shows "\<exists>out. res_bind (decompress (bits_of (compress small empty_bitbuf)) (length data)) (above_low low (length data)) =
      Inr (map (\<lambda>x. fadd x low) out) \<and> length out = length data \<and> near small out"
proof -
  have s: "length small = length data" "\<forall>x \<in> set small. \<not> fsign x"
    using single.small_nonneg [of data low small] assms(1,2) by (simp_all add: toSmallDataset_float_def)
  have "bits_of (compress small empty_bitbuf) = data_bits (compress small empty_bitbuf)"
    using buffer_ok [of small] by (simp add: bits_of_def bitbuf_ok_def)
  then show ?thesis using decompressed [OF s(2) assms(3)] s(1) by (auto simp: above_low_def)
qed

end

definition close_at :: "int \<Rightarrow> 32 word list \<Rightarrow> 32 word list \<Rightarrow> bool" where
  "close_at CT small out \<longleftrightarrow> (\<forall>i < length small. CT = 6 \<or> i < 3 \<or> \<not> predicted small i \<longrightarrow>
     \<bar>fval (small ! i) - fval (out ! i)\<bar> \<le> fval absErrorBound)"

text \<open>The numbers are finite, and the last one is decoded: a bit follows it, or it has mantissa bits.\<close>

definition lasting :: "int \<Rightarrow> 32 word list \<Rightarrow> bool" where
  "lasting CT small \<longleftrightarrow> (\<forall>x \<in> set small. is_fin x) \<and>
     (pos (if CT = 6 then myCompress_bitwise_np small empty_bitbuf else myCompress_bitwise small empty_bitbuf) \<noteq> 8 \<or>
      kept (last small) \<noteq> 0)"

interpretation np_face: face_codec myCompress_bitwise_np myDecompress_bitwise_np "lasting 6" "close_at 6"
proof
  show "bitbuf_ok (myCompress_bitwise_np small empty_bitbuf)" for small
    using single.myCompress_np_written [of empty_bitbuf small] by (simp add: np_functions)
  show "\<exists>out. myDecompress_bitwise_np (data_bits (myCompress_bitwise_np small empty_bitbuf)) (length small) = Inr out \<and>
      length out = length small \<and> close_at 6 small out"
    if "\<forall>x \<in> set small. \<not> fsign x" "lasting 6 small" for small
  proof -
    have "myDecompress_bitwise_np (data_bits (myCompress_bitwise_np small empty_bitbuf)) (length small) =
        Inr (map truncated small)"
      using single.np_result [OF that(1) refl] that(2) by (auto simp: np_functions lasting_def)
    then obtain out where "myDecompress_bitwise_np (data_bits (myCompress_bitwise_np small empty_bitbuf)) (length small) = Inr out"
      "length out = length small" "\<forall>i < length small. \<bar>fval (small ! i) - fval (out ! i)\<bar> \<le> 2 powi (- 21)"
      using single.near_truncated by blast
    then show ?thesis using half_bound by (auto simp: close_at_def intro: order_trans)
  qed
qed

interpretation pred_face: face_codec myCompress_bitwise myDecompress_bitwise "lasting 5" "close_at 5"
proof
  show "bitbuf_ok (myCompress_bitwise small empty_bitbuf)" for small
    using truncated_float.myCompress_pred_written [of small] by (simp add: pred_functions)
  show "\<exists>out. myDecompress_bitwise (data_bits (myCompress_bitwise small empty_bitbuf)) (length small) = Inr out \<and>
      length out = length small \<and> close_at 5 small out"
    if "\<forall>x \<in> set small. \<not> fsign x" "lasting 5 small" for small
  proof (intro exI conjI)
    show "myDecompress_bitwise (data_bits (myCompress_bitwise small empty_bitbuf)) (length small) =
        Inr (single.readings code_bits small)"
      using that pred_float_result [OF that(1) refl] by (auto simp: lasting_def single.lost_last_def)
    show "close_at 5 small (single.readings code_bits small)"
      using that not_predicted_start(2) pred_float_error unfolding close_at_def lasting_def by force
  qed simp
qed

lemma face_delivered:
  assumes "CT \<in> {5, 6}" and "toSmallDataset_float data = Inr (low, small)"
    and "\<forall>x \<in> set data. is_fin x \<and> \<not> (fsign x \<and> is_zero x)" and "lasting CT small"
  shows "\<exists>m out. pack_face ext CT data = Inr m \<and>
    unpack_face ext CT (length data) (Some m) = Inr (map (\<lambda>x. fadd x low) out) \<and> length out = length data \<and> close_at CT small out"
proof (cases "CT = 6")
  case True
  then show ?thesis using np_face.delivered [OF assms(2,3)] assms(2,4) by (simp add: pack_face_def)
next
  case False
  then have "CT = 5" using assms(1) by simp
  then show ?thesis using pred_face.delivered [OF assms(2,3)] assms(2,4) by (simp add: pack_face_def)
qed

text \<open>The plane \<open>v\<close> of a process.\<close>

definition plane_of :: "nat \<Rightarrow> stencil \<Rightarrow> int \<Rightarrow> 32 word list result" where
  "plane_of d st v = transform_3d_array_to_1d_array (press st) (int d) v (imax st) (jmax st) (kmax st)"

text \<open>C26: A process with a neighbour on both sides receives, with the bitwise codecs (\<open>CT\<close> 5 and 6), the
  outer layers its neighbours sent, if these are as large as its own, finite, without a negative zero and lose no last
  number: the least number of each added to decoded differences.  Without prediction (\<open>CT\<close> 6) all of them
  are within the error bound, with it (\<open>CT\<close> 5) the first three and those that were not predicted.\<close>

theorem inner_process_receives:
  assumes "CT \<in> {5, 6}" and "cart_shift par d c = (Some lo, Some hi)"
    and "send_face ext CT d (block (net c)) 1 = Inr m0"
    and "send_face ext CT d (block (net c)) (thickness d (block (net c)) - 2) = Inr m1"
    and "plane_of d (block (net hi)) 1 = Inr hi_data" and "length hi_data = plane_count d (block (net c))"
    and "toSmallDataset_float hi_data = Inr (hi_low, hi_small)"
    and "\<forall>x \<in> set hi_data. is_fin x \<and> \<not> (fsign x \<and> is_zero x)" and "lasting CT hi_small"
    and "plane_of d (block (net lo)) (thickness d (block (net lo)) - 2) = Inr lo_data"
    and "length lo_data = plane_count d (block (net c))"
    and "toSmallDataset_float lo_data = Inr (lo_low, lo_small)"
    and "\<forall>x \<in> set lo_data. is_fin x \<and> \<not> (fsign x \<and> is_zero x)" and "lasting CT lo_small"
  shows "\<exists>p hi_out lo_out. process_exchange ext CT d par net c = Inr p \<and>
    block p = put_layers d (block (net c)) (map (\<lambda>x. fadd x hi_low) hi_out) (map (\<lambda>x. fadd x lo_low) lo_out) \<and>
    length hi_out = plane_count d (block (net c)) \<and> close_at CT hi_small hi_out \<and>
    length lo_out = plane_count d (block (net c)) \<and> close_at CT lo_small lo_out \<and> cr_num p = cr_num (net c) + 2"
proof -
  obtain um uo where u: "pack_face ext CT hi_data = Inr um" "length uo = plane_count d (block (net c))" "close_at CT hi_small uo"
    "unpack_face ext CT (plane_count d (block (net c))) (Some um) = Inr (map (\<lambda>x. fadd x hi_low) uo)"
    using face_delivered [OF assms(1,7-9), of ext] unfolding assms(6) by blast
  obtain dm dn where w: "pack_face ext CT lo_data = Inr dm" "length dn = plane_count d (block (net c))" "close_at CT lo_small dn"
    "unpack_face ext CT (plane_count d (block (net c))) (Some dm) = Inr (map (\<lambda>x. fadd x lo_low) dn)"
    using face_delivered [OF assms(1,12-14), of ext] unfolding assms(11) by blast
  have s: "send_face ext CT d (block (net hi)) 1 = Inr um"
    "send_face ext CT d (block (net lo)) (thickness d (block (net lo)) - 2) = Inr dm"
    using assms(5,10) u(1) w(1) by (simp_all add: send_face_def plane_of_def)
  show ?thesis
    by (simp add: process_exchange_def receive_face_def Let_def assms(2-4) s u(4) w(4) del: unpack_face.simps)
      (use u(2,3) w(2,3) in blast)
qed

definition example_block :: stencil where
  "example_block = (initmt shipped (0, 0, 0))\<lparr>imax := 1, jmax := 2, kmax := 3,
     press := (\<lambda>i j k. if j = 0 then 0x3F800000 else 0x40200000)\<rparr>"

definition example_net :: cnet where
  "example_net = (\<lambda>c. \<lparr>block = example_block, cr = 0, cr_num = 0\<rparr>)"

theorem inner_process_receives_witness:
  "\<exists>p hi_out. process_exchange \<lparr>sz_comp = (\<lambda>data. []), sz_decomp = (\<lambda>packed i. 0)\<rparr> 6 3 (shipped\<lparr>ndz0 := 3\<rparr>) example_net (0, 0, 1) =
      Inr p \<and> close_at 6 [0, 0x3FC00000] hi_out \<and> cr_num p = 2"
proof -
  let ?ext = "\<lparr>sz_comp = (\<lambda>data. []), sz_decomp = (\<lambda>packed i. 0)\<rparr> :: sz_program"
  let ?data = "[0x3F800000, 0x40200000 :: 32 word]" and ?small = "[0, 0x3FC00000 :: 32 word]"
  have b: "block (example_net c) = example_block" for c by (simp add: example_net_def)
  have t: "thickness 3 example_block - 2 = 1" "plane_count 3 example_block = 2"
    by (simp_all add: example_block_def thickness_def plane_count_def)
  have data: "plane_of 3 example_block 1 = Inr ?data" by (simp only: example_block_def plane_of_def) code_simp
  have small: "toSmallDataset_float ?data = Inr (0x3F800000, ?small)"
    "\<forall>x \<in> set ?data. is_fin x \<and> \<not> (fsign x \<and> is_zero x)" by code_simp+
  have "\<forall>x \<in> set ?small. is_fin x" "kept (last ?small) \<noteq> 0" by code_simp+
  then have last: "lasting 6 ?small" by (simp add: lasting_def)
  obtain m where m: "send_face ?ext 6 3 example_block 1 = Inr m"
    using face_delivered [OF _ small last, of ?ext] data by (auto simp: send_face_def plane_of_def)
  have shift: "cart_shift (shipped\<lparr>ndz0 := 3\<rparr>) 3 (0, 0, 1) = (Some (0, 0, 0), Some (0, 0, 2))"
    by (simp add: cart_shift_def)
  have "6 \<in> {5, 6 :: int}" "length ?data = 2" by simp_all
  from inner_process_receives [OF this(1) shift, where net = example_net and ext = ?ext, unfolded b t, OF m m data this(2) small last data this(2) small last]
  show ?thesis by (auto simp: example_net_def)
qed

end
