(* ===== verification/Spec2Isabelle.thy ===== *)
theory Spec2Isabelle
  imports CompBcast Ratios KMeansComp PingPongRuns HimenoComp
begin

text \<open>
  A verification development for the MPI programs of \<open>app/\<close>: the lossy compression library
  \<open>app/src/dataCompression.c\<close>, the fault-tolerant broadcast \<open>app/src/abft.c\<close>, and the programs that use
  them, \<open>app/src/mm\<close> (matrix multiplication), \<open>app/src/lu\<close> (LU decomposition), \<open>app/src/kmeans\<close>
  (k-means), \<open>app/src/pingpong\<close> and \<open>app/src/himeno\<close> (Jacobi's iteration on a grid cut into blocks).

  \<^bold>\<open>The program.\<close>  An array of \<open>float\<close> or \<open>double\<close> is compressed by one of five codecs.  \<open>toSmallDataset_*\<close>
  subtracts the least number, so that no sign is left; a bitwise codec then sends every number either as
  a code of three bits, if one of three extrapolations of the numbers before it meets it within
  \<open>absErrorBound\<close>, or as its sign, exponent and the mantissa bits that matter under the bound.  The variants
  \<open>_np\<close> (no prediction), \<open>_op\<close> (only prediction, other numbers whole) and \<open>_mask\<close> (sign, exponent and
  eight mantissa bits left out when they are those of a typical number) change one half of that; the
  codec of characters replaces predicted numbers by a character and notes their places.  Compressed
  arrays are sent point to point or broadcast; three broadcasts check them with a CRC, simulate bit
  errors with \<open>rand()\<close>, repair what they can with a Hamming code per block, and ask the root to send again
  what they cannot.  \<open>MPI_Bcast_abft\<close> does the same with an uncompressed array.  Each of
  \<open>mm\<close>, \<open>lu\<close> and \<open>kmeans\<close> exists in three versions: plain (\<open>mm.c\<close>), with \<open>MPI_Bcast_abft\<close> (\<open>mm_abft.c\<close>), and with the
  broadcast that the command line argument \<open>CT\<close> selects (\<open>mm_comp.c\<close>).  In \<open>app/src/pingpong\<close> two processes
  send an array to and fro in the form \<open>CT\<close> selects.  \<open>app/src/himeno\<close> is the Himeno benchmark, plain and with the layers
  that the blocks exchange compressed.

  \<^bold>\<open>The theories\<close> (a definition has the name of the C function it translates; the record of a state has the
  names of the C variables):
  \<^item> \<open>Prelude\<close>: the faults of C as values of a sum type (\<open>result\<close>), loops that can fail (\<open>res_fold\<close>), the bits
    of bytes, Hamming distance and parity; \<open>bits_simps\<close> collects the lengths and positions of bit strings.
  \<^item> \<open>Ieee\<close>, \<open>IeeeFacts\<close>: \<open>float\<close> and \<open>double\<close> as bit patterns with IEEE 754 arithmetic, rounded to nearest
    even; one definition for both widths, the locale \<open>ieee_format\<close> with its two interpretations.
  \<^item> \<open>FloatBits\<close> (\<open>floattostr\<close>, \<open>strtodbl\<close>, \<open>getFloatBin\<close>, ...), \<open>BitBuffer\<close> (\<open>add_bit_to_bytes\<close>; locale
    \<open>bit_sink\<close>: one call appends one bit), \<open>BitCodec\<close> (truncation, and the decoder's state machine over the bits;
    locale \<open>bit_decoder\<close>), \<open>NpCodec\<close>, \<open>PredCodec\<close> (the bitwise codecs; locale \<open>raw_sender\<close>, what a sender of
    unpredicted numbers promises), \<open>MaskCodec\<close>, \<open>Dataset\<close> (\<open>toSmallDataset_*\<close>, \<open>med_dataset_*\<close>), \<open>ByteCodec\<close> (the
    codec of characters; locale \<open>marked_format\<close>), \<open>Ratios\<close> (the estimates of ratios): all of
    \<open>dataCompression.c\<close>.
  \<^item> \<open>Hamming\<close> and \<open>Secded\<close>: the Hamming code of \<open>abft.c\<close> and \<open>dataCompression.c\<close>, its loops over two counters
    replaced by the layout they walk through, and why it corrects one error and detects two (locale \<open>block_code\<close>).
  \<^item> \<open>AbftBcast\<close> (\<open>MPI_Bcast_abft\<close>), \<open>CompComm\<close> (compressed sends, receives and the plain compressed broadcast; locale
    \<open>codec\<close>, interpreted by three codecs), \<open>CompBcast\<close> (the checked broadcasts).
  \<^item> \<open>MatMul\<close>, \<open>LuFact\<close>, \<open>KMeans\<close>: the programs without compression; the way an array gets to all ranks is an
    argument, which the plain and the fault-tolerant version instantiate.  A program runs once per rank;
    its state is the list of the states of the ranks, and a collective operation maps that list.
  \<^item> \<open>CtBcast\<close> (the chain of branches on \<open>CT\<close> written out in \<open>mm_comp.c\<close>, \<open>lu_comp.c\<close> and \<open>kmeans_comp.c\<close>),
    \<open>LinAlgComp\<close> (\<open>mm_comp.c\<close>, \<open>lu_comp.c\<close>) and \<open>KMeansComp\<close> (\<open>kmeans_comp.c\<close>).
  \<^item> \<open>PingPong\<close> (\<open>pingpong_double_comp.c\<close>, \<open>pingpong_float_comp.c\<close>): the two processes as a relation of steps, with their places in
    the loop and a queue of messages to each; \<open>Exchange\<close>: the invariant of that relation, in a locale over what the arrays may do;
    \<open>PingPongRuns\<close>: its interpretations.
  \<^item> \<open>Himeno\<close> (\<open>himenoBMTxps.c\<close>, \<open>param.h\<close>, \<open>paramset.sh\<close>): the state is a \<open>stencil\<close>, the arrays of a process, for every
    coordinate of the Cartesian arrangement, and a round a function of it; \<open>HimenoRuns\<close>: the run on blocks and the run on one block
    (locale \<open>halo_exchange\<close>, what an exchange promises a sweep); \<open>HimenoComp\<close> (\<open>himenoBMTxps_comp.c\<close>; locale \<open>face_codec\<close>, what
    an exchange needs of a codec).

  \<^bold>\<open>What is shown.\<close>
  \<^item> Codecs: what the decoders return for what the encoders wrote, number by number: the truncated or
    extrapolated value, always as many numbers as were compressed, with the conditions under which the code
    achieves that, and examples where it does not (a sign bit, a last number lost in the padding of the last byte,
    a number -1).  The bitmask codec returns exactly what the codec with prediction returns.
  \<^item> Hamming code: every single error in data or check bits is repaired, every double error is reported.
  \<^item> Broadcasts: every rank ends with the root's array (or what the codec makes of it: with prediction only the numbers
    that were not predicted are within the error bound) whatever the network did to the bytes, as long as per block the error is one the code handles or the CRC notices it; the ranks that ask for a second copy are
    those the root sends one, so no rank waits for ever.  A triple error is accepted silently.
  \<^item> Programs: the product, the LU recurrence and Lloyd's algorithm are stated without ranks, and every number of
    ranks computes them bit by bit, with either broadcast.  With \<open>CT\<close> the results are characterised too: on
    one rank, or with \<open>CT = 0\<close>, nothing changes; with a lossy broadcast the part of rank 0 is computed from the exact
    arrays and all other parts from the received ones.  The checked broadcasts agree with the
    unchecked ones on a faultless network, and the error the programs print is the mean distance of what the other ranks hold.
  \<^item> Ping-pong: no state that can be reached is stuck, whether MPI buffers or not; both processes count to the
    limit; without bit errors every run ends and the data are those of the start; with long data and \<open>CT = 8\<close> no run ends.
  \<^item> Himeno: the blocks fit the arrays \<open>paramset.sh\<close> declares; every block ends with the floats of the run on one block, if the
    type \<open>ijvec\<close> of its messages reaches every inner pair; it does for the shipped cut and for those of \<open>paramset.sh\<close> in only
    one of the second and third direction; of those in both it reaches some (\<open>reached_cut\<close>) and not others (\<open>gap_cut\<close>), and a pair
    it does not reach keeps its first pressure.  Compressed,
    a process with two neighbours gets their layers, all numbers within the error bound without prediction, the ones not
    predicted with it, but the processes at the ends read what they never
    received, so that no compressed run on several processes is defined; without compression the run is the plain one.
  \<^item> Invariants of the states, lengths included, are stated beside each component; every access to an array
    in the programs is checked in the model, so a result \<open>Inr\<close> means that no index was out of bounds.

  \<^bold>\<open>Conventions and assumptions.\<close>  An array and its length variable are one list; a \<open>char\<close> array of
  \<open>'0'\<close> and \<open>'1'\<close> is a list of booleans.  The C code has most functions twice, for \<open>double\<close> and for \<open>float\<close>; the
  model has one polymorphic definition with both as instances.  \<open>malloc\<close> and \<open>realloc\<close> succeed; what \<open>malloc\<close>
  leaves in an array is a parameter where it can be read.  Sizes stay below \<open>2^31\<close>, and floating-point expressions
  are evaluated as written, in their own type, without contraction.  NaN results are the default NaN.  zlib's \<open>crc32\<close>, \<open>rand()\<close>, sz (an
  external program) and the messages the network delivers are parameters; in the checked broadcasts the sizes, the least
  number, \<open>medium\<close>, \<open>type\<close> and the answers that \<open>MPI_Gather\<close> brings the root arrive as sent, and in the unchecked ones everything
  does; altered numbers of check bits, which make the counts of a broadcast differ between ranks, are a fault.  \<open>BER\<close>, \<open>absErrorBound\<close>
  and \<open>byte_or_bit\<close> have the values of \<open>app/include/dataCompression.h\<close>.  Counters no result depends on, timing and printing are left out.
  No definition has fuel: all loops of the source but those of \<open>pingpong\<close>, which are a relation of steps, are bounded by an array or a constant, and those whose recursion is not
  structural (\<open>hmLength\<close>, \<open>isqrt\<close>) have their termination proved.

  \<^bold>\<open>Not modelled.\<close>  Reading and writing of files (\<open>readfrombinary_*\<close>, \<open>writetobinary_*\<close>), command
  lines and output.  \<open>graph500\<close>, \<open>NPB\<close>, \<open>HPL\<close>, \<open>ScalaTrace\<close>, \<open>mpiP\<close>, \<open>Pilgrim\<close>, \<open>Valgrind\<close> and
  \<open>waitio\<close> are third-party code kept in the repository.  The directories of tests hold older copies of
  the programs above.
\<close>

end
